(* ===== verification/Http_Prelude.thy ===== *)
theory Http_Prelude
  imports Main "HOL-Library.Word" "HOL-Library.Sublist" "HOL-Library.Code_Target_Nat"
begin

text \<open>
  The shared part of the development: bytes and byte strings, the operations of
  \<^verbatim>\<open>std::string_view\<close>, \<^verbatim>\<open>std::to_string\<close> and \<^verbatim>\<open>std::tolower\<close> that the sources use, the
  generic lemmas on lists the components share, and the interface \<open>capped_numeral\<close> under which
  every number the server reads from the wire is accumulated in 64 bits.

  Conventions.  A C++ \<^verbatim>\<open>char\<close> is an HOL \<open>char\<close> (eight bits); \<open>byte_of\<close> is the cast to
  \<^verbatim>\<open>unsigned char\<close>.  A \<^verbatim>\<open>std::string\<close> or \<^verbatim>\<open>std::string_view\<close> is the list of its bytes.
  A \<^verbatim>\<open>std::uint64_t\<close> that is computed from client input is a \<open>64 word\<close>; a \<^verbatim>\<open>std::size_t\<close>
  that counts bytes held in memory is a \<open>nat\<close>.
\<close>

section \<open>Bytes and strings\<close>

type_synonym byte = char
type_synonym bytes = "char list"
type_synonym u64 = "64 word"
type_synonym u16 = "16 word"
type_synonym u32 = "32 word"

named_theorems view_simps \<open>what each operation of a byte buffer does to the bytes it shows\<close>
named_theorems frame_simps \<open>fields an operation leaves alone\<close>

definition byte_of :: "byte \<Rightarrow> nat" where
  "byte_of c = of_char c"

abbreviation CR :: byte where "CR \<equiv> CHR 0x0D"
abbreviation LF :: byte where "LF \<equiv> CHR 0x0A"
abbreviation HTAB :: byte where "HTAB \<equiv> CHR 0x09"
abbreviation SP :: byte where "SP \<equiv> CHR '' ''"
abbreviation CRLF :: bytes where "CRLF \<equiv> [CR, LF]"

text \<open>\<^verbatim>\<open>uc < 0x20 || uc == 0x7f\<close>: the test the sources repeat for control characters.\<close>

definition is_ctl :: "byte \<Rightarrow> bool" where
  "is_ctl c = (byte_of c < 32 \<or> byte_of c = 127)"

text \<open>\<^verbatim>\<open>std::tolower\<close> in the \<^verbatim>\<open>C\<close> locale (the program never calls \<^verbatim>\<open>setlocale\<close>).\<close>

definition tolower :: "byte \<Rightarrow> byte" where
  "tolower c = (if 65 \<le> byte_of c \<and> byte_of c \<le> 90 then char_of (byte_of c + 32) else c)"

lemma byte_of_less [simp]: "byte_of c < 256"
  by (simp add: byte_of_def)

lemma byte_of_inject [simp]: "byte_of c = byte_of d \<longleftrightarrow> c = d"
  by (simp add: byte_of_def)

lemma byte_of_char_of: "n < 256 \<Longrightarrow> byte_of (char_of n) = n"
  by (simp add: byte_of_def)

lemma is_ctl_CR [simp]: "is_ctl CR" and is_ctl_LF [simp]: "is_ctl LF"
  by (simp_all add: is_ctl_def byte_of_def)

lemma tolower_idem [simp]: "tolower (tolower c) = tolower c"
  by (auto simp: tolower_def byte_of_char_of)

lemma tolower_is_ctl [simp]: "is_ctl (tolower c) = is_ctl c"
  by (auto simp: tolower_def is_ctl_def byte_of_char_of)

section \<open>Searching and slicing\<close>

text \<open>
  \<^verbatim>\<open>s.find(c, pos)\<close> is \<open>sv_find c pos s\<close>, with \<open>None\<close> for \<^verbatim>\<open>npos\<close>; \<^verbatim>\<open>s.substr(pos, n)\<close>
  is \<open>sv_substr pos n s\<close> and \<^verbatim>\<open>s.substr(pos)\<close> is \<open>drop pos s\<close>, both used only with
  \<^verbatim>\<open>pos <= s.size()\<close>.
\<close>

primrec index_of :: "byte \<Rightarrow> bytes \<Rightarrow> nat option" where
  "index_of c [] = None"
| "index_of c (x # xs) = (if x = c then Some 0 else map_option Suc (index_of c xs))"

definition sv_find :: "byte \<Rightarrow> nat \<Rightarrow> bytes \<Rightarrow> nat option" where
  "sv_find c pos s = map_option (\<lambda>i. pos + i) (index_of c (drop pos s))"

definition sv_substr :: "nat \<Rightarrow> nat \<Rightarrow> bytes \<Rightarrow> bytes" where
  "sv_substr pos n s = take n (drop pos s)"

lemma index_of_None [simp]: "index_of c xs = None \<longleftrightarrow> c \<notin> set xs"
  by (induction xs) auto

lemma index_of_SomeD:
  "index_of c xs = Some i \<Longrightarrow> i < length xs \<and> xs ! i = c \<and> c \<notin> set (take i xs)"
  by (induction xs arbitrary: i) (auto split: if_splits)

lemma index_of_append_notin:
  "c \<notin> set xs \<Longrightarrow> index_of c (xs @ ys) = map_option (\<lambda>i. length xs + i) (index_of c ys)"
proof (induction xs)
  case Nil
  then show ?case by (simp add: option.map_ident)
next
  case (Cons x xs)
  then show ?case by (auto simp: option.map_comp comp_def)
qed

lemma index_of_append_Some: "index_of c xs = Some i \<Longrightarrow> index_of c (xs @ ys) = Some i"
  by (induction xs arbitrary: i) (auto split: if_splits)

lemma index_of_split: "c \<notin> set xs \<Longrightarrow> index_of c (xs @ c # ys) = Some (length xs)"
  by (simp add: index_of_append_notin)

lemma index_of_decomp:
  assumes "index_of c s = Some i"
  shows "s = take i s @ c # drop (Suc i) s \<and> c \<notin> set (take i s) \<and> i < length s"
  using index_of_SomeD [OF assms] id_take_nth_drop [of i s] by simp

lemma sv_find_None: "sv_find c pos s = None \<longleftrightarrow> c \<notin> set (drop pos s)"
  by (simp add: sv_find_def)

lemma sv_find_SomeD:
  assumes "sv_find c pos s = Some i"
  shows "pos \<le> i \<and> i < length s \<and> s ! i = c \<and> c \<notin> set (take (i - pos) (drop pos s))"
proof -
  from assms obtain j where j: "index_of c (drop pos s) = Some j" and i: "i = pos + j"
    by (auto simp: sv_find_def)
  from index_of_SomeD [OF j] i show ?thesis by auto
qed

section \<open>Printing numbers\<close>

text \<open>\<^verbatim>\<open>std::to_string\<close> on an unsigned value, and on an \<^verbatim>\<open>int\<close> (the \<^verbatim>\<open>%d\<close> of \<^verbatim>\<open>snprintf\<close>).\<close>

definition digit_char :: "nat \<Rightarrow> byte" where
  "digit_char d = ''0123456789'' ! d"

fun show_nat :: "nat \<Rightarrow> bytes" where
  "show_nat n = (if n < 10 then [digit_char n] else show_nat (n div 10) @ [digit_char (n mod 10)])"

declare show_nat.simps [simp del]

definition show_int :: "int \<Rightarrow> bytes" where
  "show_int i = (if i < 0 then CHR ''-'' # show_nat (nat (- i)) else show_nat (nat i))"

lemma nat_less_10_cases:
  "d < (10::nat) \<Longrightarrow> d = 0 \<or> d = 1 \<or> d = 2 \<or> d = 3 \<or> d = 4 \<or> d = 5 \<or> d = 6 \<or> d = 7 \<or> d = 8 \<or> d = 9"
  by arith

lemma byte_of_digit_char: "d < 10 \<Longrightarrow> byte_of (digit_char d) = 48 + d"
  by (drule nat_less_10_cases) (auto simp: digit_char_def byte_of_def)

lemma byte_of_zero: "byte_of CHR ''0'' = 48"
  by (simp add: byte_of_def)

lemma set_show_nat: "c \<in> set (show_nat n) \<Longrightarrow> 48 \<le> byte_of c \<and> byte_of c \<le> 57"
proof (induction n rule: show_nat.induct)
  case (1 n)
  show ?case
  proof (cases "n < 10")
    case True
    with "1.prems" show ?thesis by (simp add: show_nat.simps [of n] byte_of_digit_char)
  next
    case False
    have "n mod 10 < 10" by simp
    from byte_of_digit_char [OF this] False 1 show ?thesis
      by (auto simp: show_nat.simps [of n])
  qed
qed

lemma show_nat_not_Nil [simp]: "show_nat n \<noteq> []"
  by (simp add: show_nat.simps [of n])

lemma show_nat_no_ctl: "c \<in> set (show_nat n) \<Longrightarrow> \<not> is_ctl c"
  using set_show_nat [of c n] by (auto simp: is_ctl_def)

lemma show_int_no_ctl: "c \<in> set (show_int i) \<Longrightarrow> \<not> is_ctl c"
  by (auto simp: show_int_def is_ctl_def byte_of_def split: if_splits
      dest!: show_nat_no_ctl [unfolded is_ctl_def byte_of_def])

lemma length_show_nat_le: "n < 10 ^ k \<Longrightarrow> 0 < k \<Longrightarrow> length (show_nat n) \<le> k"
proof (induction k arbitrary: n)
  case 0
  then show ?case by simp
next
  case (Suc k)
  show ?case
  proof (cases "n < 10")
    case True
    then show ?thesis by (simp add: show_nat.simps [of n])
  next
    case False
    with Suc.prems have k: "0 < k" by (cases k) auto
    from Suc.prems have "n div 10 < 10 ^ k" by (simp add: div_less_iff_less_mult mult.commute)
    with Suc.IH k have "length (show_nat (n div 10)) \<le> k" by blast
    with False show ?thesis by (simp add: show_nat.simps [of n])
  qed
qed

section \<open>Reading numbers in 64 bits\<close>

text \<open>
  \<open>numval base digit v s\<close> is the value of the digit string \<open>s\<close> read after a prefix of value
  \<open>v\<close>, as a natural number of any size: the reference every 64-bit accumulator is compared
  with.  \<open>dec_digit\<close> is the test \<^verbatim>\<open>c < '0' || c > '9'\<close> together with \<^verbatim>\<open>c - '0'\<close>.
\<close>

primrec numval :: "nat \<Rightarrow> (byte \<Rightarrow> nat option) \<Rightarrow> nat \<Rightarrow> bytes \<Rightarrow> nat option" where
  "numval base digit v [] = Some v"
| "numval base digit v (c # cs) =
     (case digit c of None \<Rightarrow> None | Some d \<Rightarrow> numval base digit (v * base + d) cs)"

definition dec_digit :: "byte \<Rightarrow> nat option" where
  "dec_digit c = (if byte_of c < 48 \<or> byte_of c > 57 then None else Some (byte_of c - 48))"

lemma dec_digit_less: "dec_digit c = Some d \<Longrightarrow> d < 10"
  by (auto simp: dec_digit_def split: if_splits)

lemma dec_digit_digit_char [simp]: "d < 10 \<Longrightarrow> dec_digit (digit_char d) = Some d"
  by (simp add: dec_digit_def byte_of_digit_char)

lemma digit_char_of_dec_digit: "dec_digit c = Some d \<Longrightarrow> digit_char d = c"
proof -
  assume d: "dec_digit c = Some d"
  have "byte_of (digit_char d) = byte_of c"
    using d byte_of_digit_char [OF dec_digit_less [OF d]]
    by (auto simp: dec_digit_def split: if_splits)
  then show ?thesis by simp
qed

lemma numval_append:
  "numval base digit v (xs @ ys) =
     (case numval base digit v xs of None \<Rightarrow> None | Some w \<Rightarrow> numval base digit w ys)"
  by (induction xs arbitrary: v) (auto split: option.splits)

lemma numval_ge: "1 \<le> base \<Longrightarrow> numval base digit v s = Some w \<Longrightarrow> v \<le> w"
proof (induction s arbitrary: v)
  case Nil
  then show ?case by simp
next
  case (Cons c s)
  then obtain d where "numval base digit (v * base + d) s = Some w"
    by (auto split: option.splits)
  with Cons have "v * base + d \<le> w" by blast
  moreover have "v \<le> v * base" using Cons.prems(1) by simp
  ultimately show ?case by linarith
qed

text \<open>Decimal printing and reading are inverse, on digit strings without a leading zero.\<close>

lemma numval_show_nat [simp]: "numval 10 dec_digit 0 (show_nat n) = Some n"
proof (induction n rule: show_nat.induct)
  case (1 n)
  show ?case
  proof (cases "n < 10")
    case True
    then show ?thesis by (simp add: show_nat.simps [of n])
  next
    case False
    with 1 have "numval 10 dec_digit 0 (show_nat (n div 10)) = Some (n div 10)" by simp
    with False show ?thesis
      by (simp add: show_nat.simps [of n] numval_append)
  qed
qed

lemma show_nat_snoc: "0 < n \<Longrightarrow> d < 10 \<Longrightarrow> show_nat (n * 10 + d) = show_nat n @ [digit_char d]"
  by (subst show_nat.simps) simp

lemma show_nat_numval:
  assumes "numval 10 dec_digit 0 s = Some n" and "s \<noteq> []"
    and "length s > 1 \<Longrightarrow> hd s \<noteq> CHR ''0''"
  shows "show_nat n = s"
  using assms
proof (induction s arbitrary: n rule: rev_induct)
  case Nil
  then show ?case by simp
next
  case (snoc c s)
  from snoc.prems(1) obtain m d where m: "numval 10 dec_digit 0 s = Some m"
    and d: "dec_digit c = Some d" and n: "n = m * 10 + d"
    by (auto simp: numval_append split: option.splits)
  show ?case
  proof (cases "s = []")
    case True
    with m n d dec_digit_less [OF d] show ?thesis
      by (simp add: show_nat.simps [of d] digit_char_of_dec_digit)
  next
    case False
    with snoc.prems(3) have hd: "hd s \<noteq> CHR ''0''"
      by (cases s) auto
    then have IH: "show_nat m = s"
      using snoc.IH m False by blast
    have "m \<noteq> 0"
    proof
      assume "m = 0"
      with IH hd show False by (auto simp: show_nat.simps [of 0] digit_char_def)
    qed
    with n d IH show ?thesis
      by (simp add: show_nat_snoc dec_digit_less digit_char_of_dec_digit)
  qed
qed

lemma u64_less: "unat (x :: u64) < 2 ^ 64"
proof -
  have "unat x < 2 ^ LENGTH(64)" by (rule unsigned_less)
  then show ?thesis by simp
qed

lemma u64_unat_of_nat: "n < 2 ^ 64 \<Longrightarrow> unat (of_nat n :: u64) = n"
  by (simp add: unat_of_nat)

text \<open>
  The interface of the accumulators: a loop that reads digits of a base into a 64-bit value and
  gives up as soon as the value passes \<open>cap\<close>, where one step beyond \<open>cap\<close> still fits
  64 bits.  Such a loop never wraps around: it computes \<open>numval\<close> on the naturals.
\<close>

locale capped_numeral =
  fixes base :: nat and digit :: "byte \<Rightarrow> nat option" and cap :: u64
    and loop :: "u64 \<Rightarrow> bytes \<Rightarrow> u64 option"
  assumes base_pos: "1 \<le> base"
    and digit_less: "digit c = Some d \<Longrightarrow> d < base"
    and room: "unat cap * base + base \<le> 2 ^ 64"
    and loop_Nil: "loop v [] = Some v"
    and loop_Cons: "loop v (c # cs) =
      (case digit c of None \<Rightarrow> None
       | Some d \<Rightarrow> let v' = v * of_nat base + of_nat d in if v' > cap then None else loop v' cs)"
begin

lemma step_exact:
  assumes "unat v \<le> unat cap" and "digit c = Some d"
  shows "unat (v * of_nat base + of_nat d :: u64) = unat v * base + d"
proof -
  have d: "d < base" using assms(2) by (rule digit_less)
  have "unat v * base + d < unat cap * base + base"
    using mult_le_mono1 [OF assms(1), of base] d by linarith
  then have lt: "unat v * base + d < 2 ^ 64" using room by linarith
  have "(of_nat (unat v * base + d) :: u64) = v * of_nat base + of_nat d"
    by simp
  then show ?thesis
    using u64_unat_of_nat [OF lt] by simp
qed

lemma loop_eq_numval:
  assumes "unat v \<le> unat cap"
  shows "loop v s =
    (case numval base digit (unat v) s of None \<Rightarrow> None
     | Some n \<Rightarrow> if n \<le> unat cap then Some (of_nat n) else None)"
  using assms
proof (induction s arbitrary: v)
  case Nil
  then show ?case by (simp add: loop_Nil)
next
  case (Cons c s)
  show ?case
  proof (cases "digit c")
    case None
    then show ?thesis by (simp add: loop_Cons)
  next
    case (Some d)
    let ?v' = "v * of_nat base + of_nat d :: u64"
    have v': "unat ?v' = unat v * base + d"
      using Cons.prems Some by (rule step_exact)
    show ?thesis
    proof (cases "?v' > cap")
      case True
      then have big: "unat cap < unat v * base + d"
        by (simp add: word_less_nat_alt v')
      have "numval base digit (unat v * base + d) s = Some n \<Longrightarrow> \<not> n \<le> unat cap" for n
        using numval_ge [OF base_pos, of digit "unat v * base + d" s n] big by linarith
      with True Some show ?thesis
        by (auto simp: loop_Cons Let_def split: option.splits)
    next
      case False
      then have "unat ?v' \<le> unat cap" by (simp add: word_less_nat_alt)
      from Cons.IH [OF this] False Some show ?thesis
        by (simp add: loop_Cons Let_def v')
    qed
  qed
qed

lemma loop_SomeD:
  assumes "unat v \<le> unat cap" and "loop v s = Some w"
  shows "numval base digit (unat v) s = Some (unat w) \<and> unat w \<le> unat cap"
proof -
  from assms(2) obtain n where n: "numval base digit (unat v) s = Some n" "n \<le> unat cap" "w = of_nat n"
    by (auto simp: loop_eq_numval [OF assms(1)] split: option.splits if_splits)
  moreover have "unat cap < 2 ^ 64" by (rule u64_less)
  ultimately show ?thesis by (simp add: u64_unat_of_nat)
qed

end

end
