(* ===== verification/Byte_Buf.thy ===== *)
theory Byte_Buf
  imports Http_Prelude
begin

text \<open>
  The class \<^verbatim>\<open>ByteBuf\<close> of \<^verbatim>\<open>src/src/common.h\<close>: a contiguous byte string with a read cursor,
  whose consumed prefix is dropped lazily.  The model keeps the class's two members and the
  capacity of the underlying \<^verbatim>\<open>std::string\<close>, because the compaction policy reads it.  The
  interface \<open>byte_queue\<close> is what the parser and the connection rely on: a buffer is a FIFO queue
  of bytes, whatever the compaction policy does.
\<close>

section \<open>The class\<close>

record bytebuf =
  bb_data :: bytes
  bb_start :: nat
  bb_capacity :: nat

text \<open>
  Growth of a \<^verbatim>\<open>std::string\<close> that has to hold \<open>n\<close> bytes: libstdc++ doubles.  \<^verbatim>\<open>clear\<close> and
  \<^verbatim>\<open>erase\<close> keep the capacity.  An empty string has the capacity of the short-string buffer.
\<close>

definition string_grow :: "nat \<Rightarrow> nat \<Rightarrow> nat" where
  "string_grow cap n = (if n \<le> cap then cap else max n (2 * cap))"

definition bytebuf_init :: bytebuf where
  "bytebuf_init = \<lparr>bb_data = [], bb_start = 0, bb_capacity = 15\<rparr>"

definition bb_size :: "bytebuf \<Rightarrow> nat" where
  "bb_size b = length (bb_data b) - bb_start b"

definition bb_empty :: "bytebuf \<Rightarrow> bool" where
  "bb_empty b = (bb_size b = 0)"

definition bb_view :: "bytebuf \<Rightarrow> bytes" where
  "bb_view b = drop (bb_start b) (bb_data b)"

definition bb_compact :: "bytebuf \<Rightarrow> bytebuf" where
  "bb_compact b =
     (if bb_start b > 0 then b\<lparr>bb_data := drop (bb_start b) (bb_data b), bb_start := 0\<rparr> else b)"

definition bb_compact_for_append :: "nat \<Rightarrow> bytebuf \<Rightarrow> bytebuf" where
  "bb_compact_for_append incoming b =
     (if bb_start b = 0 then b
      else let live = length (bb_data b) - bb_start b
           in if bb_start b \<ge> live \<or> length (bb_data b) + incoming > bb_capacity b
              then bb_compact b else b)"

definition bb_push :: "bytes \<Rightarrow> bytebuf \<Rightarrow> bytebuf" where
  "bb_push p b = b\<lparr>bb_data := bb_data b @ p,
                   bb_capacity := string_grow (bb_capacity b) (length (bb_data b) + length p)\<rparr>"

definition bb_append :: "bytes \<Rightarrow> bytebuf \<Rightarrow> bytebuf" where
  "bb_append p b = bb_push p (bb_compact_for_append (length p) b)"

definition bb_append_char :: "byte \<Rightarrow> bytebuf \<Rightarrow> bytebuf" where
  "bb_append_char c b = bb_push [c] (bb_compact_for_append 1 b)"

definition bb_consume :: "nat \<Rightarrow> bytebuf \<Rightarrow> bytebuf" where
  "bb_consume n b =
     (let start = bb_start b + n
      in if start = length (bb_data b) then b\<lparr>bb_data := [], bb_start := 0\<rparr>
         else b\<lparr>bb_start := start\<rparr>)"

text \<open>
  \<^verbatim>\<open>append_target\<close> hands out a reference to the compacted string, into which the caller appends
  \<open>p\<close> (\<^verbatim>\<open>Connection::queue_response\<close> serialises a response there).
\<close>

definition bb_append_target :: "bytes \<Rightarrow> bytebuf \<Rightarrow> bytebuf" where
  "bb_append_target p b = bb_push p (bb_compact b)"

definition bb_take_front :: "nat \<Rightarrow> bytebuf \<Rightarrow> bytes \<times> bytebuf" where
  "bb_take_front n b = (take n (bb_view b), bb_consume n b)"

definition bb_clear :: "bytebuf \<Rightarrow> bytebuf" where
  "bb_clear b = b\<lparr>bb_data := [], bb_start := 0\<rparr>"

definition bb_allocated_bytes :: "bytebuf \<Rightarrow> nat" where
  "bb_allocated_bytes b = length (bb_data b)"

section \<open>Well-formedness and what each operation does to the visible bytes\<close>

text \<open>The cursor never reaches the end of a non-empty string: \<^verbatim>\<open>consume\<close> resets it there.\<close>

definition bb_wf :: "bytebuf \<Rightarrow> bool" where
  "bb_wf b = ((bb_start b = 0 \<or> bb_start b < length (bb_data b)) \<and> length (bb_data b) \<le> bb_capacity b)"

lemma length_bb_view [view_simps]: "length (bb_view b) = bb_size b"
  by (simp add: bb_view_def bb_size_def)

lemma bb_empty_iff [view_simps]: "bb_empty b \<longleftrightarrow> bb_view b = []"
  by (auto simp: bb_empty_def simp flip: length_bb_view)

lemma bb_view_init [view_simps]: "bb_view bytebuf_init = []"
  by (simp add: bytebuf_init_def bb_view_def)

lemma bb_view_compact [view_simps]: "bb_view (bb_compact b) = bb_view b"
  by (simp add: bb_compact_def bb_view_def)

lemma bb_view_compact_for_append [view_simps]: "bb_view (bb_compact_for_append n b) = bb_view b"
  by (simp add: bb_compact_for_append_def Let_def bb_view_compact)

lemma bb_view_push [view_simps]: "bb_start b \<le> length (bb_data b) \<Longrightarrow> bb_view (bb_push p b) = bb_view b @ p"
  by (simp add: bb_push_def bb_view_def)

lemma bb_view_consume [view_simps]: "bb_view (bb_consume n b) = drop n (bb_view b)"
  by (auto simp: bb_consume_def bb_view_def Let_def add.commute)

lemma bb_view_clear [view_simps]: "bb_view (bb_clear b) = []"
  by (simp add: bb_clear_def bb_view_def)

lemma bb_size_consume [view_simps]: "bb_size (bb_consume n b) = bb_size b - n"
  by (simp add: bb_view_consume flip: length_bb_view)

lemma bb_wf_cursor: "bb_wf b \<Longrightarrow> bb_start b \<le> length (bb_data b)"
  by (auto simp: bb_wf_def)

lemma bb_wf_init [simp]: "bb_wf bytebuf_init"
  by (simp add: bb_wf_def bytebuf_init_def)

lemma bb_wf_compact: "bb_wf b \<Longrightarrow> bb_wf (bb_compact b)"
  by (auto simp: bb_wf_def bb_compact_def)

lemma bb_wf_compact_for_append: "bb_wf b \<Longrightarrow> bb_wf (bb_compact_for_append n b)"
  by (auto simp: bb_compact_for_append_def Let_def bb_wf_compact)

lemma bb_wf_push: "bb_wf b \<Longrightarrow> bb_wf (bb_push p b)"
  by (auto simp: bb_wf_def bb_push_def string_grow_def)

lemma bb_wf_append: "bb_wf b \<Longrightarrow> bb_wf (bb_append p b)"
  by (simp add: bb_append_def bb_wf_push bb_wf_compact_for_append)

lemma bb_wf_append_target: "bb_wf b \<Longrightarrow> bb_wf (bb_append_target p b)"
  by (simp add: bb_append_target_def bb_wf_push bb_wf_compact)

lemma bb_wf_clear: "bb_wf b \<Longrightarrow> bb_wf (bb_clear b)"
  by (simp add: bb_wf_def bb_clear_def)

lemma bb_wf_consume: "bb_wf b \<Longrightarrow> n \<le> length (bb_view b) \<Longrightarrow> bb_wf (bb_consume n b)"
  by (auto simp: bb_wf_def bb_consume_def bb_view_def Let_def)

lemma bb_view_append [view_simps]: "bb_wf b \<Longrightarrow> bb_view (bb_append p b) = bb_view b @ p"
  by (simp add: bb_append_def view_simps bb_wf_cursor bb_wf_compact_for_append)

lemma bb_view_append_char [view_simps]: "bb_wf b \<Longrightarrow> bb_view (bb_append_char c b) = bb_view b @ [c]"
  by (simp add: bb_append_char_def view_simps bb_wf_cursor bb_wf_compact_for_append)

lemma bb_view_append_target [view_simps]: "bb_wf b \<Longrightarrow> bb_view (bb_append_target p b) = bb_view b @ p"
  by (simp add: bb_append_target_def view_simps bb_wf_cursor bb_wf_compact)

section \<open>The interface: a FIFO queue of bytes\<close>

text \<open>
  Programs over a buffer are lists of appends and consumes.  \<open>queue_spec\<close> runs one on the
  abstract queue (\<open>None\<close> when it consumes more than there is, which the class forbids);
  \<open>buf_run\<close> runs it on an implementation.
\<close>

datatype buf_op = Append bytes | Consume nat

fun queue_spec :: "buf_op list \<Rightarrow> bytes \<Rightarrow> bytes option" where
  "queue_spec [] q = Some q"
| "queue_spec (Append p # ops) q = queue_spec ops (q @ p)"
| "queue_spec (Consume n # ops) q = (if n \<le> length q then queue_spec ops (drop n q) else None)"

fun buf_run :: "(bytes \<Rightarrow> 'b \<Rightarrow> 'b) \<Rightarrow> (nat \<Rightarrow> 'b \<Rightarrow> 'b) \<Rightarrow> buf_op list \<Rightarrow> 'b \<Rightarrow> 'b" where
  "buf_run app con [] b = b"
| "buf_run app con (Append p # ops) b = buf_run app con ops (app p b)"
| "buf_run app con (Consume n # ops) b = buf_run app con ops (con n b)"

locale byte_queue =
  fixes contents :: "'b \<Rightarrow> bytes" and invar :: "'b \<Rightarrow> bool"
    and app :: "bytes \<Rightarrow> 'b \<Rightarrow> 'b" and con :: "nat \<Rightarrow> 'b \<Rightarrow> 'b"
  assumes contents_app: "invar b \<Longrightarrow> contents (app p b) = contents b @ p"
    and contents_con: "invar b \<Longrightarrow> n \<le> length (contents b) \<Longrightarrow> contents (con n b) = drop n (contents b)"
    and invar_app: "invar b \<Longrightarrow> invar (app p b)"
    and invar_con: "invar b \<Longrightarrow> n \<le> length (contents b) \<Longrightarrow> invar (con n b)"
begin

lemma run_refines:
  "invar b \<Longrightarrow> queue_spec ops (contents b) = Some q \<Longrightarrow>
     contents (buf_run app con ops b) = q \<and> invar (buf_run app con ops b)"
proof (induction ops arbitrary: b)
  case Nil
  then show ?case by simp
next
  case (Cons op ops)
  then show ?case
    by (cases op) (auto simp: contents_app contents_con invar_app invar_con split: if_splits)
qed

end

interpretation bb: byte_queue bb_view bb_wf bb_append bb_consume
  by unfold_locales (simp_all add: view_simps bb_wf_append bb_wf_consume)

interpretation bbt: byte_queue bb_view bb_wf bb_append_target bb_consume
  by unfold_locales (simp_all add: view_simps bb_wf_append_target bb_wf_consume)

end
