(* ===== verification/Http_Common.thy ===== *)
theory Http_Common
  imports Http_Prelude
begin

text \<open>
  The HTTP data model of \<^verbatim>\<open>src/src/common.h\<close> (\<^verbatim>\<open>Method\<close>, \<^verbatim>\<open>Header\<close>, \<^verbatim>\<open>Request\<close>,
  \<^verbatim>\<open>Response\<close>) and the helpers of \<^verbatim>\<open>src/src/http_common.cpp\<close>: character classes, the strict
  Content-Length reader, list splitting, header lookup, the cached date, response serialisation and
  error responses.
\<close>

section \<open>Data model\<close>

datatype http_method = Get | Head | Post | Options | Unknown

record header =
  hdr_name :: bytes
  hdr_value :: bytes

record request =
  rq_method :: http_method
  rq_method_name :: bytes
  rq_target :: bytes
  rq_major :: int
  rq_minor :: int
  rq_headers :: "header list"
  rq_body :: bytes
  rq_keep_alive :: bool
  rq_expect_100_continue :: bool
  rq_header_bytes :: nat
  rq_total_bytes :: nat
  rq_peer :: bytes

text \<open>\<^verbatim>\<open>Request{}\<close>: the member initialisers.\<close>

definition request_init :: request where
  "request_init = \<lparr>rq_method = Unknown, rq_method_name = [], rq_target = [], rq_major = 1, rq_minor = 1,
     rq_headers = [], rq_body = [], rq_keep_alive = True, rq_expect_100_continue = False,
     rq_header_bytes = 0, rq_total_bytes = 0, rq_peer = []\<rparr>"

definition is_head :: "request \<Rightarrow> bool" where
  "is_head r = (rq_method r = Head)"

definition is_options :: "request \<Rightarrow> bool" where
  "is_options r = (rq_method r = Options)"

definition is_star_target :: "request \<Rightarrow> bool" where
  "is_star_target r = (rq_target r = ''*'')"

record response =
  rs_status :: int
  rs_headers :: "header list"
  rs_body :: bytes
  rs_keep_alive :: bool
  rs_close_after :: bool
  rs_send_body :: bool
  rs_no_body_framing :: bool
  rs_req_major :: int
  rs_req_minor :: int

definition response_init :: response where
  "response_init = \<lparr>rs_status = 200, rs_headers = [], rs_body = [], rs_keep_alive = True,
     rs_close_after = False, rs_send_body = True, rs_no_body_framing = False,
     rs_req_major = 1, rs_req_minor = 1\<rparr>"

definition rs_set :: "bytes \<Rightarrow> bytes \<Rightarrow> response \<Rightarrow> response" where
  "rs_set name val res = res\<lparr>rs_headers := rs_headers res @ [\<lparr>hdr_name = name, hdr_value = val\<rparr>]\<rparr>"

section \<open>Helpers\<close>

definition kAllowList :: bytes where
  "kAllowList = ''GET, HEAD, POST, OPTIONS''"

definition is_tchar :: "byte \<Rightarrow> bool" where
  "is_tchar c =
     ((97 \<le> byte_of c \<and> byte_of c \<le> 122) \<or> (65 \<le> byte_of c \<and> byte_of c \<le> 90) \<or>
      (48 \<le> byte_of c \<and> byte_of c \<le> 57) \<or>
      c \<in> set (''!#$%&'' @ [CHR 0x27] @ ''*+-.^_'' @ [CHR 0x60] @ ''|~''))"

definition is_ows :: "byte \<Rightarrow> bool" where
  "is_ows c = (c = SP \<or> c = HTAB)"

definition status_reason :: "int \<Rightarrow> bytes" where
  "status_reason status =
     (if status = 100 then ''Continue''
      else if status = 200 then ''OK''
      else if status = 201 then ''Created''
      else if status = 204 then ''No Content''
      else if status = 304 then ''Not Modified''
      else if status = 400 then ''Bad Request''
      else if status = 401 then ''Unauthorized''
      else if status = 403 then ''Forbidden''
      else if status = 404 then ''Not Found''
      else if status = 405 then ''Method Not Allowed''
      else if status = 408 then ''Request Timeout''
      else if status = 411 then ''Length Required''
      else if status = 413 then ''Payload Too Large''
      else if status = 414 then ''URI Too Long''
      else if status = 415 then ''Unsupported Media Type''
      else if status = 431 then ''Request Header Fields Too Large''
      else if status = 500 then ''Internal Server Error''
      else if status = 501 then ''Not Implemented''
      else if status = 503 then ''Service Unavailable''
      else if status = 505 then ''HTTP Version Not Supported''
      else ''Unknown'')"

definition valid_token :: "bytes \<Rightarrow> bool" where
  "valid_token s = (if s = [] then False else list_all is_tchar s)"

definition valid_header_value :: "bytes \<Rightarrow> bool" where
  "valid_header_value s = list_all (\<lambda>c. if c = HTAB then True else \<not> (byte_of c < 32 \<or> byte_of c = 127)) s"

text \<open>The digit loop of \<^verbatim>\<open>parse_content_length\<close>; \<^verbatim>\<open>1ull << 52\<close> is \<open>2 ^ 52\<close>.\<close>

primrec content_length_loop :: "u64 \<Rightarrow> bytes \<Rightarrow> u64 option" where
  "content_length_loop v [] = Some v"
| "content_length_loop v (c # cs) =
     (if byte_of c < 48 \<or> byte_of c > 57 then None
      else let v' = v * 10 + of_nat (byte_of c - 48)
           in if v' > 2 ^ 52 then None else content_length_loop v' cs)"

definition parse_content_length :: "bytes \<Rightarrow> u64 option" where
  "parse_content_length s =
     (if s = [] \<or> length s > 19 then None
      else if length s > 1 \<and> s ! 0 = CHR ''0'' then None
      else content_length_loop 0 s)"

text \<open>\<^verbatim>\<open>trim_ows\<close>: one loop moves the front index up, a second moves the end index down.\<close>

function trim_front :: "bytes \<Rightarrow> nat \<Rightarrow> nat \<Rightarrow> nat" where
  "trim_front s b e = (if b < e \<and> is_ows (s ! b) then trim_front s (b + 1) e else b)"
  by pat_completeness auto
termination
  by (relation "measure (\<lambda>(s, b, e). e - b)") auto

fun trim_back :: "bytes \<Rightarrow> nat \<Rightarrow> nat \<Rightarrow> nat" where
  "trim_back s b e = (if e > b \<and> is_ows (s ! (e - 1)) then trim_back s b (e - 1) else e)"

declare trim_front.simps [simp del] trim_back.simps [simp del]

definition trim_ows :: "bytes \<Rightarrow> bytes" where
  "trim_ows s = (let b = trim_front s 0 (length s); e = trim_back s b (length s)
                 in sv_substr b (e - b) s)"

definition equals_ignore_case :: "bytes \<Rightarrow> bytes \<Rightarrow> bool" where
  "equals_ignore_case a b =
     (if length a \<noteq> length b then False else list_all (\<lambda>(x, y). tolower x = tolower y) (zip a b))"

definition to_lower :: "bytes \<Rightarrow> bytes" where
  "to_lower s = map tolower s"

function split_list_from :: "bytes \<Rightarrow> nat \<Rightarrow> bytes list" where
  "split_list_from v pos =
     (case sv_find CHR '','' pos v of
        None \<Rightarrow> [trim_ows (drop pos v)]
      | Some comma \<Rightarrow> trim_ows (sv_substr pos (comma - pos) v) # split_list_from v (comma + 1))"
  by pat_completeness auto
termination
  by (relation "measure (\<lambda>(v, pos). Suc (length v) - pos)") (auto dest!: sv_find_SomeD)

declare split_list_from.simps [simp del]

definition split_list :: "bytes \<Rightarrow> bytes list" where
  "split_list v = split_list_from v 0"

definition sanitize_header_value :: "bytes \<Rightarrow> bytes" where
  "sanitize_header_value s = filter (\<lambda>c. \<not> (byte_of c < 32 \<or> byte_of c = 127)) s"

definition request_header :: "bytes \<Rightarrow> request \<Rightarrow> bytes" where
  "request_header name r =
     (case find (\<lambda>h. equals_ignore_case (hdr_name h) name) (rq_headers r) of
        None \<Rightarrow> [] | Some h \<Rightarrow> hdr_value h)"

definition header_all :: "bytes \<Rightarrow> request \<Rightarrow> bytes list" where
  "header_all name r = map hdr_value (filter (\<lambda>h. equals_ignore_case (hdr_name h) name) (rq_headers r))"

section \<open>The cached date\<close>

text \<open>
  \<^verbatim>\<open>gmtime_r\<close>: the proleptic Gregorian calendar.  Whole cycles of 400 years (146097 days) are
  counted first, then the years and the months of the cycle one by one.  The result is the year,
  the month (1 to 12) and the day of the month.
\<close>

definition leap_year :: "int \<Rightarrow> bool" where
  "leap_year y = (y mod 4 = 0 \<and> y mod 100 \<noteq> 0 \<or> y mod 400 = 0)"

definition year_days :: "int \<Rightarrow> nat" where
  "year_days y = (if leap_year y then 366 else 365)"

definition month_days :: "int \<Rightarrow> nat list" where
  "month_days y = [31, if leap_year y then 29 else 28, 31, 30, 31, 30, 31, 31, 30, 31, 30, 31]"

function year_loop :: "int \<Rightarrow> nat \<Rightarrow> int \<times> nat" where
  "year_loop y d = (if d < year_days y then (y, d) else year_loop (y + 1) (d - year_days y))"
  by pat_completeness auto
termination
  by (relation "measure snd") (auto simp: year_days_def split: if_splits)

declare year_loop.simps [simp del]

fun month_loop :: "nat list \<Rightarrow> int \<Rightarrow> nat \<Rightarrow> int \<times> int" where
  "month_loop [] m d = (m, int d + 1)"
| "month_loop (n # ns) m d = (if d < n then (m, int d + 1) else month_loop ns (m + 1) (d - n))"

definition civil_from_days :: "int \<Rightarrow> int \<times> int \<times> int" where
  "civil_from_days days =
     (let (y, doy) = year_loop (1970 + 400 * (days div 146097)) (nat (days mod 146097));
          (m, d) = month_loop (month_days y) 1 doy
      in (y, m, d))"

definition two_digits :: "int \<Rightarrow> bytes" where
  "two_digits i = (if i < 10 then ''0'' @ show_int i else show_int i)"

definition day_name :: "int \<Rightarrow> bytes" where
  "day_name w = [''Sun'', ''Mon'', ''Tue'', ''Wed'', ''Thu'', ''Fri'', ''Sat''] ! nat w"

definition month_name :: "int \<Rightarrow> bytes" where
  "month_name m = [''Jan'', ''Feb'', ''Mar'', ''Apr'', ''May'', ''Jun'', ''Jul'', ''Aug'', ''Sep'',
     ''Oct'', ''Nov'', ''Dec''] ! nat (m - 1)"

text \<open>\<^verbatim>\<open>strftime\<close> with the format \<^verbatim>\<open>%a, %d %b %Y %H:%M:%S GMT\<close> in the \<^verbatim>\<open>C\<close> locale.\<close>

definition format_date :: "int \<Rightarrow> bytes" where
  "format_date t =
     (let days = t div 86400; secs = t mod 86400; (y, m, d) = civil_from_days days
      in day_name ((days + 4) mod 7) @ '', '' @ two_digits d @ '' '' @ month_name m @ '' '' @ show_int y
         @ '' '' @ two_digits (secs div 3600) @ '':'' @ two_digits (secs div 60 mod 60) @ '':''
         @ two_digits (secs mod 60) @ '' GMT'')"

text \<open>
  The two thread-local variables of \<^verbatim>\<open>http_date_now\<close>, and the function itself: the time \<open>now\<close> is
  what \<^verbatim>\<open>std::time\<close> returned.  \<^verbatim>\<open>strftime\<close> returns 0 when the text and its terminator do not
  fit the 64 bytes of \<^verbatim>\<open>buf\<close>.
\<close>

record date_cache =
  dc_cached :: int
  dc_text :: bytes

definition date_cache_init :: date_cache where
  "date_cache_init = \<lparr>dc_cached = 0, dc_text = []\<rparr>"

definition http_date_now :: "int \<Rightarrow> date_cache \<Rightarrow> bytes \<times> date_cache" where
  "http_date_now now dc =
     (if now = dc_cached dc \<and> dc_text dc \<noteq> [] then (dc_text dc, dc)
      else let dc1 = dc\<lparr>dc_cached := now\<rparr>; text = format_date now
           in if length text \<ge> 64 then (''Thu, 01 Jan 1970 00:00:00 GMT'', dc1)
              else (text, dc1\<lparr>dc_text := text\<rparr>))"

section \<open>Responses on the wire\<close>

text \<open>
  The status line is formatted into \<^verbatim>\<open>char line[96]\<close> and \<^verbatim>\<open>written\<close> bytes of it are appended;
  \<open>status_line\<close> is the formatted text, and \<open>status_line_fits\<close> below shows that it is always
  shorter than the array.
\<close>

definition status_line :: "response \<Rightarrow> bytes" where
  "status_line res = ''HTTP/'' @ show_int (rs_req_major res) @ ''.'' @ show_int (rs_req_minor res) @ '' ''
     @ show_int (rs_status res) @ '' '' @ status_reason (rs_status res) @ CRLF"

definition header_line :: "header \<Rightarrow> bytes" where
  "header_line h = sanitize_header_value (hdr_name h) @ '': '' @ sanitize_header_value (hdr_value h) @ CRLF"

definition has_header :: "bytes \<Rightarrow> header list \<Rightarrow> bool" where
  "has_header name hs = list_ex (\<lambda>h. equals_ignore_case (hdr_name h) name) hs"

text \<open>
  \<^verbatim>\<open>serialize_response\<close>: the bytes it appends to \<^verbatim>\<open>out\<close>, where \<open>date\<close> is what
  \<^verbatim>\<open>http_date_now\<close> returned.
\<close>

definition serialize_response :: "bytes \<Rightarrow> response \<Rightarrow> bytes" where
  "serialize_response date res =
     status_line res
     @ ''Date: '' @ date @ CRLF
     @ ''Server: cpp-http/0.1'' @ CRLF
     @ concat (map header_line (rs_headers res))
     @ (if \<not> rs_no_body_framing res \<and> \<not> has_header ''Content-Length'' (rs_headers res)
        then ''Content-Length: '' @ show_nat (length (rs_body res)) @ CRLF else [])
     @ (if \<not> rs_no_body_framing res \<and> \<not> has_header ''Content-Type'' (rs_headers res)
        then ''Content-Type: text/plain; charset=utf-8'' @ CRLF else [])
     @ (if \<not> rs_keep_alive res then ''Connection: close'' @ CRLF
        else if rs_req_major res = 1 \<and> rs_req_minor res = 0 then ''Connection: keep-alive'' @ CRLF
        else [])
     @ CRLF
     @ (if rs_send_body res \<and> rs_body res \<noteq> [] then rs_body res else [])"

definition make_error_response :: "int \<Rightarrow> bytes \<Rightarrow> bool \<Rightarrow> response" where
  "make_error_response status detail keep_alive =
     (let res = response_init\<lparr>rs_status := status, rs_keep_alive := keep_alive,
                  rs_body := status_reason status @ '': '' @ detail @ [LF]\<rparr>;
          res = (if status = 204 \<or> status = 304
                 then res\<lparr>rs_no_body_framing := True, rs_send_body := False, rs_body := []\<rparr> else res);
          res = (if status = 405 then rs_set ''Allow'' kAllowList res
                 else if status = 503 then rs_set ''Retry-After'' ''1'' res
                 else res)
      in res\<lparr>rs_keep_alive := keep_alive\<rparr>)"

section \<open>The Content-Length reader\<close>

interpretation cl: capped_numeral 10 dec_digit "2 ^ 52" content_length_loop
proof unfold_locales
  fix v c cs
  show "content_length_loop v (c # cs) =
      (case dec_digit c of None \<Rightarrow> None
       | Some d \<Rightarrow> let v' = v * of_nat 10 + of_nat d in if v' > 2 ^ 52 then None else content_length_loop v' cs)"
    by (simp add: dec_digit_def)
qed (simp_all add: dec_digit_less)

lemma show_nat_no_leading_zero: "length (show_nat n) > 1 \<Longrightarrow> hd (show_nat n) \<noteq> CHR ''0''"
proof (induction n rule: show_nat.induct)
  case (1 n)
  from "1.prems" have n: "\<not> n < 10" by (auto simp: show_nat.simps [of n])
  show ?case
  proof (cases "n div 10 < 10")
    case True
    have nz: "n div 10 \<noteq> 0" using n by simp
    have "byte_of (digit_char (n div 10)) \<noteq> byte_of CHR ''0''"
      using nz byte_of_digit_char [OF True] byte_of_zero by linarith
    then have "digit_char (n div 10) \<noteq> CHR ''0''" by auto
    with n True show ?thesis
      by (simp add: show_nat.simps [of n] show_nat.simps [of "n div 10"])
  next
    case False
    then have "1 < length (show_nat (n div 10))"
      by (simp add: show_nat.simps [of "n div 10"])
    with "1.IH" n have "hd (show_nat (n div 10)) \<noteq> CHR ''0''" by blast
    with n show ?thesis by (simp add: show_nat.simps [of n])
  qed
qed

lemma parse_content_length_sound:
  assumes "parse_content_length s = Some v"
  shows "s = show_nat (unat v) \<and> unat v \<le> 2 ^ 52"
proof -
  from assms have s: "s \<noteq> []" "length s > 1 \<Longrightarrow> hd s \<noteq> CHR ''0''" "content_length_loop 0 s = Some v"
    by (auto simp: parse_content_length_def hd_conv_nth split: if_splits)
  from cl.loop_SomeD [OF _ s(3)] have "numval 10 dec_digit 0 s = Some (unat v)" "unat v \<le> 2 ^ 52"
    by auto
  with show_nat_numval [OF _ s(1,2)] show ?thesis by simp
qed

lemma parse_content_length_complete:
  assumes "n \<le> 2 ^ 52"
  shows "parse_content_length (show_nat n) = Some (of_nat n)"
proof -
  have len: "length (show_nat n) \<le> 16"
    by (rule length_show_nat_le) (use assms in auto)
  have "content_length_loop 0 (show_nat n) = Some (of_nat n)"
    using assms by (subst cl.loop_eq_numval) auto
  then show ?thesis
    using len show_nat_no_leading_zero [of n] hd_conv_nth [of "show_nat n"]
    by (auto simp: parse_content_length_def)
qed

section \<open>Trimming and splitting\<close>

lemma trim_front_eq:
  "b \<le> e \<Longrightarrow> e \<le> length s \<Longrightarrow>
     trim_front s b e = b + length (takeWhile is_ows (take (e - b) (drop b s)))"
proof (induction s b e rule: trim_front.induct)
  case (1 s b e)
  show ?case
  proof (cases "b < e")
    case True
    then have "take (e - b) (drop b s) = s ! b # take (e - Suc b) (drop (Suc b) s)"
      using "1.prems" by (simp add: take_Suc_conv_app_nth Cons_nth_drop_Suc [symmetric] take_Cons')
    then show ?thesis
      using 1 True by (subst trim_front.simps) auto
  next
    case False
    with "1.prems" show ?thesis by (subst trim_front.simps) auto
  qed
qed

lemma trim_back_eq:
  "b \<le> e \<Longrightarrow> e \<le> length s \<Longrightarrow>
     trim_back s b e = e - length (takeWhile is_ows (rev (take (e - b) (drop b s))))"
proof (induction s b e rule: trim_back.induct)
  case (1 s b e)
  show ?case
  proof (cases "b < e")
    case True
    have "e - b = Suc (e - 1 - b)" using True by simp
    then have "take (e - b) (drop b s) = take (e - 1 - b) (drop b s) @ [s ! (e - 1)]"
      using True "1.prems" by (simp add: take_Suc_conv_app_nth)
    then show ?thesis
      using 1 True by (subst trim_back.simps) auto
  next
    case False
    with "1.prems" show ?thesis by (subst trim_back.simps) auto
  qed
qed

text \<open>The two index loops remove exactly the leading and the trailing spaces and tabs.\<close>

lemma take_length_takeWhile_rev:
  "take (length xs - length (takeWhile P (rev xs))) xs = rev (dropWhile P (rev xs))"
  by (metis dropWhile_eq_drop rev_drop rev_rev_ident length_rev)

lemma trim_ows_eq: "trim_ows s = rev (dropWhile is_ows (rev (dropWhile is_ows s)))"
proof -
  let ?b = "length (takeWhile is_ows s)"
  have b: "trim_front s 0 (length s) = ?b"
    by (simp add: trim_front_eq)
  have le: "?b \<le> length s" by (rule length_takeWhile_le)
  have d: "drop ?b s = dropWhile is_ows s" by (simp add: dropWhile_eq_drop)
  have "trim_back s ?b (length s) - ?b =
      length (dropWhile is_ows s) - length (takeWhile is_ows (rev (dropWhile is_ows s)))"
    using le by (simp add: trim_back_eq flip: d)
  then show ?thesis
    by (simp add: trim_ows_def b sv_substr_def d take_length_takeWhile_rev)
qed

lemma trim_ows_Cons: "is_ows c \<Longrightarrow> trim_ows (c # v) = trim_ows v"
  by (simp add: trim_ows_eq)

lemma trim_ows_clean: "list_all (\<lambda>c. \<not> is_ows c) s \<Longrightarrow> trim_ows s = s"
proof -
  have d: "dropWhile is_ows xs = xs" if "list_all (\<lambda>c. \<not> is_ows c) xs" for xs
    using that by (cases xs) simp_all
  moreover assume "list_all (\<lambda>c. \<not> is_ows c) s"
  ultimately show ?thesis by (simp add: trim_ows_eq)
qed

lemma trim_ows_show_nat [simp]: "trim_ows (show_nat n) = show_nat n"
  using set_show_nat [of _ n] by (intro trim_ows_clean) (force simp: list_all_iff is_ows_def byte_of_def)

lemma set_trim_ows: "set (trim_ows s) \<subseteq> set s"
  by (auto simp: trim_ows_eq dest!: set_dropWhileD)

lemma length_trim_ows: "length (trim_ows s) \<le> length s"
  unfolding trim_ows_eq
  by (metis length_dropWhile_le length_rev order_trans)

lemma trim_ows_ends:
  assumes "trim_ows s \<noteq> []"
  shows "\<not> is_ows (hd (trim_ows s)) \<and> \<not> is_ows (last (trim_ows s))"
proof -
  let ?d = "dropWhile is_ows s"
  have nz: "dropWhile is_ows (rev ?d) \<noteq> []" using assms by (simp add: trim_ows_eq)
  then have l: "\<not> is_ows (last (trim_ows s))"
    using hd_dropWhile [OF nz] by (simp add: trim_ows_eq last_rev)
  have "?d \<noteq> []"
  proof
    assume "?d = []"
    with nz show False by simp
  qed
  then have h: "\<not> is_ows (hd ?d)" by (rule hd_dropWhile)
  have "\<not> is_ows (last (rev ?d))" using h \<open>?d \<noteq> []\<close> by (simp add: last_rev)
  then have "last (dropWhile is_ows (rev ?d)) = last (rev ?d)"
    using nz by (metis last_appendR takeWhile_dropWhile_id)
  then have "hd (trim_ows s) = hd ?d"
    using nz \<open>?d \<noteq> []\<close> by (simp add: trim_ows_eq hd_rev last_rev)
  with h l show ?thesis by simp
qed

text \<open>Splitting on a separator, as a structural recursion, and its inverse.\<close>

fun split_on :: "byte \<Rightarrow> bytes \<Rightarrow> bytes list" where
  "split_on sep [] = [[]]"
| "split_on sep (c # cs) =
     (if c = sep then [] # split_on sep cs
      else (case split_on sep cs of [] \<Rightarrow> [[c]] | w # ws \<Rightarrow> (c # w) # ws))"

fun join_with :: "byte \<Rightarrow> bytes list \<Rightarrow> bytes" where
  "join_with sep [] = []"
| "join_with sep [w] = w"
| "join_with sep (w # ws) = w @ sep # join_with sep ws"

lemma split_on_not_Nil [simp]: "split_on sep s \<noteq> []"
  by (induction s) (auto split: list.splits)

lemma join_split_on: "join_with sep (split_on sep s) = s"
proof (induction s)
  case Nil
  then show ?case by simp
next
  case (Cons c cs)
  obtain w ws where w: "split_on sep cs = w # ws"
    using split_on_not_Nil [of sep cs] by (meson list.exhaust)
  with Cons show ?case by (cases ws) auto
qed

lemma split_on_no_sep: "w \<in> set (split_on sep s) \<Longrightarrow> sep \<notin> set w"
  by (induction s arbitrary: w) (auto split: list.splits if_splits)

lemma split_on_notin: "sep \<notin> set s \<Longrightarrow> split_on sep s = [s]"
  by (induction s) auto

lemma split_on_append: "sep \<notin> set xs \<Longrightarrow> split_on sep (xs @ sep # ys) = xs # split_on sep ys"
  by (induction xs) auto

lemma split_list_from_eq: "split_list_from v pos = map trim_ows (split_on CHR '','' (drop pos v))"
proof (induction v pos rule: split_list_from.induct)
  case (1 v pos)
  show ?case
  proof (cases "sv_find CHR '','' pos v")
    case None
    then have "CHR '','' \<notin> set (drop pos v)" by (simp add: sv_find_None)
    with None show ?thesis
      by (simp add: split_list_from.simps [of v pos] split_on_notin)
  next
    case (Some comma)
    then obtain j where j: "index_of CHR '','' (drop pos v) = Some j" and c: "comma = pos + j"
      by (auto simp: sv_find_def)
    let ?w = "take j (drop pos v)"
    from index_of_decomp [OF j] have d: "drop pos v = ?w @ CHR '','' # drop (comma + 1) v"
      and n: "CHR '','' \<notin> set ?w"
      by (simp_all add: c add.commute)
    have "split_on CHR '','' (drop pos v) = ?w # split_on CHR '','' (drop (comma + 1) v)"
      by (subst d) (rule split_on_append [OF n])
    moreover have "split_list_from v (comma + 1) =
        map trim_ows (split_on CHR '','' (drop (comma + 1) v))"
      using Some by (rule "1.IH")
    ultimately show ?thesis
      using Some by (subst split_list_from.simps) (simp add: sv_substr_def c)
  qed
qed

lemma split_list_eq: "split_list v = map trim_ows (split_on CHR '','' v)"
  by (simp add: split_list_def split_list_from_eq)

section \<open>Case-insensitive comparison and header lookup\<close>

lemma equals_ignore_case_iff: "equals_ignore_case a b \<longleftrightarrow> to_lower a = to_lower b"
proof -
  have "equals_ignore_case a b \<longleftrightarrow> list_all2 (\<lambda>x y. tolower x = tolower y) a b"
    by (auto simp: equals_ignore_case_def list_all2_iff list_all_iff)
  also have "\<dots> \<longleftrightarrow> map tolower a = map tolower b"
    by (auto simp: list_all2_conv_all_nth list_eq_iff_nth_eq)
  finally show ?thesis by (simp add: to_lower_def)
qed

lemma request_header_eq_hd_header_all:
  "request_header name r = (case header_all name r of [] \<Rightarrow> [] | v # _ \<Rightarrow> v)"
proof -
  have "(case find P hs of None \<Rightarrow> [] | Some h \<Rightarrow> hdr_value h) =
      (case map hdr_value (filter P hs) of [] \<Rightarrow> [] | v # _ \<Rightarrow> v)" for P and hs :: "header list"
    by (induction hs) auto
  then show ?thesis by (simp add: request_header_def header_all_def)
qed

section \<open>What a serialised response looks like\<close>

text \<open>
  \<open>wire_lines ls\<close> writes each line followed by CRLF.  A line is clean when it contains no
  control character, so no CR and no LF: a reader that splits the head at CRLF finds exactly the
  lines the server wrote.
\<close>

definition wire_lines :: "bytes list \<Rightarrow> bytes" where
  "wire_lines ls = concat (map (\<lambda>l. l @ CRLF) ls)"

definition clean_line :: "bytes \<Rightarrow> bool" where
  "clean_line l = list_all (\<lambda>c. \<not> is_ctl c) l"

lemma wire_lines_simps [simp]:
  "wire_lines [] = []" "wire_lines (l # ls) = l @ CRLF @ wire_lines ls"
  "wire_lines (ls @ ls') = wire_lines ls @ wire_lines ls'"
  by (simp_all add: wire_lines_def)

lemma clean_line_simps [simp]:
  "clean_line []" "clean_line (c # l) \<longleftrightarrow> \<not> is_ctl c \<and> clean_line l"
  "clean_line (l @ l') \<longleftrightarrow> clean_line l \<and> clean_line l'"
  by (simp_all add: clean_line_def)

lemma clean_line_show_nat [simp]: "clean_line (show_nat n)"
  and clean_line_show_int [simp]: "clean_line (show_int i)"
  and clean_line_sanitize [simp]: "clean_line (sanitize_header_value v)"
  by (auto simp: clean_line_def list_all_iff sanitize_header_value_def is_ctl_def [abs_def]
      dest: show_nat_no_ctl [unfolded is_ctl_def] show_int_no_ctl [unfolded is_ctl_def])

lemma clean_line_status_reason [simp]: "clean_line (status_reason s)"
  by (simp add: status_reason_def is_ctl_def byte_of_def)

definition response_lines :: "bytes \<Rightarrow> response \<Rightarrow> bytes list" where
  "response_lines date res =
     [''HTTP/'' @ show_int (rs_req_major res) @ ''.'' @ show_int (rs_req_minor res) @ '' ''
        @ show_int (rs_status res) @ '' '' @ status_reason (rs_status res),
      ''Date: '' @ date, ''Server: cpp-http/0.1'']
     @ map (\<lambda>h. sanitize_header_value (hdr_name h) @ '': '' @ sanitize_header_value (hdr_value h)) (rs_headers res)
     @ (if \<not> rs_no_body_framing res \<and> \<not> has_header ''Content-Length'' (rs_headers res)
        then [''Content-Length: '' @ show_nat (length (rs_body res))] else [])
     @ (if \<not> rs_no_body_framing res \<and> \<not> has_header ''Content-Type'' (rs_headers res)
        then [''Content-Type: text/plain; charset=utf-8''] else [])
     @ (if \<not> rs_keep_alive res then [''Connection: close'']
        else if rs_req_major res = 1 \<and> rs_req_minor res = 0 then [''Connection: keep-alive'']
        else [])"

lemma header_lines_wire:
  "concat (map header_line hs) =
     wire_lines (map (\<lambda>h. sanitize_header_value (hdr_name h) @ '': '' @ sanitize_header_value (hdr_value h)) hs)"
  by (induction hs) (simp_all add: header_line_def)

lemma serialize_response_lines:
  "serialize_response date res =
     wire_lines (response_lines date res) @ CRLF @ (if rs_send_body res then rs_body res else [])"
  by (simp add: serialize_response_def response_lines_def status_line_def header_lines_wire)

lemma response_lines_clean:
  "clean_line date \<Longrightarrow> list_all clean_line (response_lines date res)"
  by (simp add: response_lines_def list.pred_map comp_def list.pred_True is_ctl_def byte_of_def)

section \<open>The date is one clean line\<close>

lemma year_loop_bound: "year_loop y d = (y', d') \<Longrightarrow> d' < year_days y'"
proof (induction y d rule: year_loop.induct)
  case (1 y d)
  then show ?case by (auto simp: year_loop.simps [of y d] split: if_splits)
qed

lemma month_loop_bound:
  "month_loop ns m d = (m', d') \<Longrightarrow> d < sum_list ns \<Longrightarrow>
     m \<le> m' \<and> m' < m + int (length ns) \<and> 1 \<le> d' \<and> (\<exists>n \<in> set ns. d' \<le> int n)"
proof (induction ns arbitrary: m d)
  case Nil
  then show ?case by simp
next
  case (Cons n ns)
  show ?case
  proof (cases "d < n")
    case True
    with Cons.prems show ?thesis by auto
  next
    case False
    with Cons.prems have "month_loop ns (m + 1) (d - n) = (m', d')" "d - n < sum_list ns" by auto
    from Cons.IH [OF this] show ?thesis by auto
  qed
qed

lemma civil_from_days_range:
  assumes "civil_from_days days = (y, m, d)"
  shows "1 \<le> m \<and> m \<le> 12 \<and> 1 \<le> d \<and> d \<le> 31"
proof -
  obtain doy where y: "year_loop (1970 + 400 * (days div 146097)) (nat (days mod 146097)) = (y, doy)"
    and m: "month_loop (month_days y) 1 doy = (m, d)"
    using assms by (auto simp: civil_from_days_def Let_def split: prod.splits)
  have "doy < year_days y" by (rule year_loop_bound [OF y])
  then have "doy < sum_list (month_days y)" by (simp add: year_days_def month_days_def split: if_splits)
  from month_loop_bound [OF m this] show ?thesis
    by (auto simp: month_days_def split: if_splits)
qed

lemma nth_all: "i < length xs \<Longrightarrow> list_all P xs \<Longrightarrow> P (xs ! i)"
  by (simp add: list_all_length)

lemma day_name_clean: "0 \<le> w \<Longrightarrow> w < 7 \<Longrightarrow> clean_line (day_name w) \<and> length (day_name w) = 3"
  unfolding day_name_def
  by (rule nth_all [where P = "\<lambda>x. clean_line x \<and> length x = 3"]) (auto simp: is_ctl_def byte_of_def)

lemma month_name_clean: "1 \<le> m \<Longrightarrow> m \<le> 12 \<Longrightarrow> clean_line (month_name m) \<and> length (month_name m) = 3"
  unfolding month_name_def
  by (rule nth_all [where P = "\<lambda>x. clean_line x \<and> length x = 3"]) (auto simp: is_ctl_def byte_of_def)

lemma two_digits_clean: "clean_line (two_digits i)"
  by (simp add: two_digits_def is_ctl_def byte_of_def)

lemma format_date_clean: "clean_line (format_date t)"
proof -
  obtain y m d where ymd: "civil_from_days (t div 86400) = (y, m, d)"
    by (metis prod_cases3)
  have "0 \<le> (t div 86400 + 4) mod 7" "(t div 86400 + 4) mod 7 < 7" by simp_all
  from day_name_clean [OF this] month_name_clean [of m] civil_from_days_range [OF ymd] show ?thesis
    by (simp add: format_date_def Let_def ymd two_digits_clean is_ctl_def byte_of_def)
qed

lemma length_show_int_bound: "\<bar>i\<bar> \<le> 2147483648 \<Longrightarrow> length (show_int i) \<le> 11"
proof -
  assume "\<bar>i\<bar> \<le> 2147483648"
  then have "nat (- i) < 10 ^ 10" "nat i < 10 ^ 10" by auto
  from this [THEN length_show_nat_le] show ?thesis by (simp add: show_int_def)
qed

lemma length_two_digits: "0 \<le> i \<Longrightarrow> i < 100 \<Longrightarrow> length (two_digits i) \<le> 3"
proof -
  assume i: "0 \<le> i" "i < 100"
  then have "nat i < 10 ^ 2" by auto
  from length_show_nat_le [OF this] i show ?thesis by (simp add: two_digits_def show_int_def)
qed

lemma length_status_reason: "length (status_reason s) \<le> 31"
  by (simp add: status_reason_def)

lemma length_format_date_le:
  assumes "civil_from_days (t div 86400) = (y, m, d)" and "\<bar>y\<bar> \<le> 2147483648"
  shows "length (format_date t) < 64"
proof -
  let ?s = "t mod 86400"
  have wd: "0 \<le> (t div 86400 + 4) mod 7" "(t div 86400 + 4) mod 7 < 7" by simp_all
  have names: "length (day_name ((t div 86400 + 4) mod 7)) = 3" "length (month_name m) = 3"
    using day_name_clean [OF wd] month_name_clean [of m] civil_from_days_range [OF assms(1)] by auto
  have "?s div 3600 < 24" by (simp add: div_less_iff_less_mult)
  moreover have "0 \<le> ?s div 3600" by (simp add: pos_imp_zdiv_nonneg_iff)
  ultimately have hh: "length (two_digits (?s div 3600)) \<le> 3" by (intro length_two_digits) auto
  have mm: "length (two_digits (?s div 60 mod 60)) \<le> 3"
    using pos_mod_bound [of 60 "?s div 60"] pos_mod_sign [of 60 "?s div 60"]
    by (intro length_two_digits) linarith+
  have ss: "length (two_digits (?s mod 60)) \<le> 3"
    using pos_mod_bound [of 60 ?s] pos_mod_sign [of 60 ?s] by (intro length_two_digits) linarith+
  have dd: "length (two_digits d) \<le> 3"
    using civil_from_days_range [OF assms(1)] by (intro length_two_digits) auto
  have "length (format_date t) = length (day_name ((t div 86400 + 4) mod 7)) + length (two_digits d)
      + length (month_name m) + length (show_int y) + length (two_digits (?s div 3600))
      + length (two_digits (?s div 60 mod 60)) + length (two_digits (?s mod 60)) + 11"
    by (simp only: format_date_def Let_def assms(1) prod.case length_append list.size)
  with names hh mm ss dd length_show_int_bound [OF assms(2)] show ?thesis by linarith
qed

text \<open>
  The invariant of the two thread-local variables: the cached text, once there is one, is the
  formatted date of the cached second.
\<close>

definition date_cache_ok :: "date_cache \<Rightarrow> bool" where
  "date_cache_ok dc = (dc_text dc \<noteq> [] \<longrightarrow> dc_text dc = format_date (dc_cached dc))"

lemma http_date_now_correct:
  assumes "date_cache_ok dc" and "length (format_date now) < 64"
    and "http_date_now now dc = (text, dc')"
  shows "text = format_date now \<and> date_cache_ok dc'"
  using assms by (auto simp: http_date_now_def date_cache_ok_def Let_def split: if_splits)

lemma http_date_now_clean:
  assumes "date_cache_ok dc"
  shows "clean_line (fst (http_date_now now dc))"
  using assms by (auto simp: http_date_now_def date_cache_ok_def Let_def format_date_clean is_ctl_def byte_of_def)

section \<open>The status line fits its buffer\<close>

lemma status_line_fits:
  assumes "\<bar>rs_status res\<bar> \<le> 2147483648" "\<bar>rs_req_major res\<bar> \<le> 2147483648"
    "\<bar>rs_req_minor res\<bar> \<le> 2147483648"
  shows "length (status_line res) < 96"
  using length_show_int_bound [OF assms(1)] length_show_int_bound [OF assms(2)]
    length_show_int_bound [OF assms(3)] length_status_reason [of "rs_status res"]
  by (simp add: status_line_def)

lemma example_date: "format_date 784111777 = ''Sun, 06 Nov 1994 08:49:37 GMT''"
  by code_simp

end
