(* ===== verification/Http_Parser.thy ===== *)
theory Http_Parser
  imports Byte_Buf Http_Common
begin

text \<open>
  The incremental request parser of \<^verbatim>\<open>src/src/http_parser.h\<close> and \<^verbatim>\<open>src/src/http_parser.cpp\<close>.
  The class \<^verbatim>\<open>HttpRequestParser\<close> is the record \<open>parser\<close>, one field per member.  A member function
  takes the record and returns it updated; an error message is the last component of the result.
  The nested loops of \<^verbatim>\<open>parse()\<close> are the recursive functions \<open>body_chunked_loop\<close>,
  \<open>trailer_loop\<close> and \<open>parse_loop\<close>, each with its termination proof: every iteration that goes
  round again consumes input.

  \<^verbatim>\<open>std::size_t\<close> and \<^verbatim>\<open>std::uint64_t\<close> members are naturals.  They count bytes of one request;
  the lengths read from the wire are 64-bit words until they have been checked
  (\<open>parse_content_length\<close>, \<open>parse_chunk_size\<close>) and are then at most \<open>2 ^ 52\<close>, and a remaining
  count is only ever reduced by at most itself.
\<close>

section \<open>State\<close>

record parser_limits =
  max_request_line_bytes :: nat
  max_header_bytes :: nat
  max_body_bytes :: nat
  max_request_bytes :: nat
  max_header_fields :: nat

definition parser_limits_default :: parser_limits where
  "parser_limits_default = \<lparr>max_request_line_bytes = 8 * 1024, max_header_bytes = 64 * 1024,
     max_body_bytes = 8 * 1024 * 1024, max_request_bytes = 9 * 1024 * 1024, max_header_fields = 256\<rparr>"

datatype parse_status = KNeedMore | KRequest | KExpect100 | KBadRequest | KTooLarge

datatype parser_state = SRequestLine | SHeaders | SBodyFixed | SBodyChunked | SChunkTrailer

datatype head_outcome = KBodyPending | KRequestReady | KSend100 | KError

record parser =
  ps_limits :: parser_limits
  ps_state :: parser_state
  ps_cur :: request
  ps_scan :: nat
  ps_consumed :: nat
  ps_header_bytes :: nat
  ps_body_remaining :: nat
  ps_chunk_remaining :: nat
  ps_expect_chunk_crlf :: bool
  ps_chunked :: bool
  ps_expect_sent :: bool
  ps_too_large :: bool
  ps_body :: bytes

definition parser_init :: "parser_limits \<Rightarrow> parser" where
  "parser_init limits = \<lparr>ps_limits = limits, ps_state = SRequestLine, ps_cur = request_init, ps_scan = 0,
     ps_consumed = 0, ps_header_bytes = 0, ps_body_remaining = 0, ps_chunk_remaining = 0,
     ps_expect_chunk_crlf = False, ps_chunked = False, ps_expect_sent = False, ps_too_large = False,
     ps_body = []\<rparr>"

definition parser_reset :: "parser \<Rightarrow> parser" where
  "parser_reset p = p\<lparr>ps_state := SRequestLine, ps_cur := request_init, ps_scan := 0, ps_consumed := 0,
     ps_header_bytes := 0, ps_body_remaining := 0, ps_chunk_remaining := 0,
     ps_expect_chunk_crlf := False, ps_chunked := False, ps_expect_sent := False,
     ps_too_large := False, ps_body := []\<rparr>"

definition bytes_consumed :: "parser \<Rightarrow> nat" where
  "bytes_consumed p = ps_consumed p"

definition in_progress :: "parser \<Rightarrow> bool" where
  "in_progress p = (ps_state p \<noteq> SRequestLine \<or> ps_consumed p > 0)"

section \<open>Lines\<close>

definition method_from :: "bytes \<Rightarrow> http_method" where
  "method_from m =
     (if m = ''GET'' then Get else if m = ''HEAD'' then Head else if m = ''POST'' then Post
      else if m = ''OPTIONS'' then Options else Unknown)"

definition hex_digit :: "byte \<Rightarrow> nat option" where
  "hex_digit c =
     (if 48 \<le> byte_of c \<and> byte_of c \<le> 57 then Some (byte_of c - 48)
      else if 97 \<le> byte_of c \<and> byte_of c \<le> 102 then Some (byte_of c - 97 + 10)
      else if 65 \<le> byte_of c \<and> byte_of c \<le> 70 then Some (byte_of c - 65 + 10)
      else None)"

text \<open>
  The three ways \<^verbatim>\<open>line_ready\<close> answers: a complete line of that many bytes (\<^verbatim>\<open>true\<close>), a line
  feed that does not follow a carriage return (\<^verbatim>\<open>bare_lf\<close>), or no line feed yet.
\<close>

datatype line_result = LineReady nat | BareLF | NoLine

function scan_lf :: "bytes \<Rightarrow> nat \<Rightarrow> nat option" where
  "scan_lf p i = (if i < length p then (if p ! i \<noteq> LF then scan_lf p (i + 1) else Some i) else None)"
  by pat_completeness auto
termination
  by (relation "measure (\<lambda>(p, i). length p - i)") auto

declare scan_lf.simps [simp del]

definition line_ready :: "parser \<Rightarrow> bytebuf \<Rightarrow> line_result \<times> parser" where
  "line_ready p b =
     (let s = bb_view b; n = bb_size b
      in case scan_lf s (if ps_scan p < n then ps_scan p else n) of
           Some i \<Rightarrow> (if i = 0 \<or> s ! (i - 1) \<noteq> CR then (BareLF, p\<lparr>ps_scan := i\<rparr>)
                     else (LineReady (i - 1), p\<lparr>ps_scan := i + 1\<rparr>))
         | None \<Rightarrow> (NoLine, p\<lparr>ps_scan := n\<rparr>))"

text \<open>The result of the line parsers: success, the updated parser, the error message.\<close>

type_synonym line_parse = "bool \<times> parser \<times> bytes"

text \<open>
  \<^verbatim>\<open>parse_request_line\<close> in two parts: splitting the line into method, target and version with the
  checks that need no state (the message on failure), and storing the fields with the checks on the
  target.
\<close>

definition split_request_line :: "bytes \<Rightarrow> bytes + bytes \<times> bytes \<times> bytes" where
  "split_request_line line =
     (if line = [] then Inl ''empty request line''
      else if list_ex (\<lambda>c. byte_of c < 32 \<or> byte_of c = 127) line
        then Inl ''control character in request line''
      else case sv_find SP 0 line of
        None \<Rightarrow> Inl ''malformed request line''
      | Some sp1 \<Rightarrow> (case sv_find SP (sp1 + 1) line of
          None \<Rightarrow> Inl ''malformed request line (missing HTTP version)''
        | Some sp2 \<Rightarrow>
          if sv_find SP (sp2 + 1) line \<noteq> None then Inl ''extra whitespace in request line''
          else let m = sv_substr 0 sp1 line;
                   t = sv_substr (sp1 + 1) (sp2 - sp1 - 1) line;
                   v = drop (sp2 + 1) line
            in if m = [] \<or> t = [] \<or> v = [] then Inl ''empty request-line field''
            else if \<not> valid_token m then Inl ''invalid method''
            else if v \<noteq> ''HTTP/1.0'' \<and> v \<noteq> ''HTTP/1.1''
              then Inl ''unsupported HTTP version (only 1.0 and 1.1)''
            else Inr (m, t, v)))"

definition store_request_line :: "parser \<Rightarrow> bytes \<Rightarrow> bytes \<Rightarrow> bytes \<Rightarrow> line_parse" where
  "store_request_line p m t v =
     (let p = p\<lparr>ps_cur := (ps_cur p)\<lparr>rq_method := method_from m, rq_method_name := m,
                   rq_major := 1, rq_minor := (if last v = CHR ''0'' then 0 else 1)\<rparr>\<rparr>;
          ok = (True, p\<lparr>ps_cur := (ps_cur p)\<lparr>rq_target := t\<rparr>\<rparr>, [])
      in if t = ''*'' then
           (if rq_method (ps_cur p) \<noteq> Options
            then (False, p, [CHR 0x27] @ ''*'' @ [CHR 0x27] @ '' request-target is only valid for OPTIONS'')
            else ok)
         else if hd t \<noteq> CHR ''/'' then (False, p, ''only origin-form request targets are accepted'')
         else if length t > 1 \<and> t ! 1 = CHR ''/''
           then (False, p, ''protocol-relative request target is not accepted'')
         else if sv_find CHR ''#'' 0 t \<noteq> None
           then (False, p, ''request target must not contain a fragment'')
         else if length t > max_request_line_bytes (ps_limits p)
           then (False, p\<lparr>ps_too_large := True\<rparr>, ''request target too long'')
         else ok)"

definition parse_request_line :: "parser \<Rightarrow> bytes \<Rightarrow> line_parse" where
  "parse_request_line p line =
     (case split_request_line line of
        Inl err \<Rightarrow> (False, p, err)
      | Inr (m, t, v) \<Rightarrow> store_request_line p m t v)"

definition parse_header_line :: "parser \<Rightarrow> bytes \<Rightarrow> line_parse" where
  "parse_header_line p line =
     (if hd line = SP \<or> hd line = HTAB then (False, p, ''obs-fold header continuation is not accepted'')
      else case sv_find CHR '':'' 0 line of
        None \<Rightarrow> (False, p, ''malformed header line (no colon)'')
      | Some colon \<Rightarrow>
        if colon = 0 then (False, p, ''empty header name'')
        else let name = sv_substr 0 colon line
          in if \<not> valid_token name then (False, p, ''invalid header name'')
          else let val = trim_ows (drop (colon + 1) line)
            in if \<not> valid_header_value val then (False, p, ''invalid characters in header value'')
            else if length (rq_headers (ps_cur p)) \<ge> max_header_fields (ps_limits p)
              then (False, p\<lparr>ps_too_large := True\<rparr>, ''too many header fields'')
            else (True, p\<lparr>ps_cur := (ps_cur p)\<lparr>rq_headers := rq_headers (ps_cur p)
                            @ [\<lparr>hdr_name = name, hdr_value = val\<rparr>]\<rparr>\<rparr>, []))"

section \<open>The end of the header block\<close>

text \<open>
  The two nested loops over the \<^verbatim>\<open>Connection\<close> fields and their tokens, with the early return on an
  unknown token; the state is the pair \<^verbatim>\<open>close_requested\<close>, \<^verbatim>\<open>ka_requested\<close>.
\<close>

fun connection_tokens :: "bytes list \<Rightarrow> bool \<Rightarrow> bool \<Rightarrow> (bool \<times> bool) option" where
  "connection_tokens [] close ka = Some (close, ka)"
| "connection_tokens (token # tokens) close ka =
     (let t = to_lower token
      in if t = [] then connection_tokens tokens close ka
         else if t = ''close'' then connection_tokens tokens True ka
         else if t = ''keep-alive'' then connection_tokens tokens close True
         else None)"

fun connection_fields :: "bytes list \<Rightarrow> bool \<Rightarrow> bool \<Rightarrow> (bool \<times> bool) option" where
  "connection_fields [] close ka = Some (close, ka)"
| "connection_fields (val # vals) close ka =
     (case connection_tokens (split_list val) close ka of
        None \<Rightarrow> None
      | Some (close, ka) \<Rightarrow> connection_fields vals close ka)"

text \<open>Transfer-Encoding: an error message, or whether the body is chunked.\<close>

definition transfer_encoding :: "int \<Rightarrow> bytes list \<Rightarrow> bytes + bool" where
  "transfer_encoding minor te_fields =
     (if te_fields = [] then Inr False
      else if minor < 1 then Inl ''chunked transfer encoding requires HTTP/1.1''
      else if length te_fields \<noteq> 1 then Inl ''multiple Transfer-Encoding headers''
      else let tokens = split_list (te_fields ! 0)
        in if length tokens \<noteq> 1 then Inl ''ambiguous Transfer-Encoding''
        else if \<not> equals_ignore_case (tokens ! 0) ''chunked'' then Inl ''unsupported Transfer-Encoding''
        else Inr True)"

text \<open>
  Content-Length: an error message with the value \<^verbatim>\<open>too_large_\<close> is left with, or the length if
  there is one.
\<close>

definition content_length :: "nat \<Rightarrow> bool \<Rightarrow> bytes list \<Rightarrow> (bytes \<times> bool) + u64 option" where
  "content_length max_body use_chunked cl_fields =
     (if cl_fields = [] then Inr None
      else if use_chunked then Inl (''Content-Length together with Transfer-Encoding'', False)
      else if length cl_fields > 1 then Inl (''duplicate Content-Length header'', False)
      else let vals = split_list (cl_fields ! 0)
        in if length vals \<noteq> 1 then Inl (''multiple Content-Length values in one header'', False)
        else case parse_content_length (vals ! 0) of
            None \<Rightarrow> Inl (''malformed Content-Length'', False)
          | Some len \<Rightarrow> if unat len > max_body then Inl (''Content-Length exceeds the body limit'', True)
                        else Inr (Some len))"

text \<open>The part about \<^verbatim>\<open>Expect: 100-continue\<close>, reached only when a body is expected.\<close>

definition finish_expect :: "parser \<Rightarrow> head_outcome \<times> parser \<times> bytes" where
  "finish_expect p =
     (let expect = request_header ''Expect'' (ps_cur p)
      in if expect \<noteq> [] then
           (if \<not> equals_ignore_case (trim_ows expect) ''100-continue'' then (KError, p, ''unsupported Expect'')
            else if rq_minor (ps_cur p) \<ge> 1 \<and> \<not> ps_expect_sent p
              then (KSend100, p\<lparr>ps_expect_sent := True,
                                ps_cur := (ps_cur p)\<lparr>rq_expect_100_continue := True\<rparr>\<rparr>, [])
            else (KBodyPending, p, []))
         else (KBodyPending, p, []))"

definition finish_headers :: "parser \<Rightarrow> head_outcome \<times> parser \<times> bytes" where
  "finish_headers p =
     (let p = p\<lparr>ps_too_large := False\<rparr>
      in case connection_fields (header_all ''Connection'' (ps_cur p)) False False of
        None \<Rightarrow> (KError, p, ''unsupported Connection option'')
      | Some (close_requested, ka_requested) \<Rightarrow>
        let out = (ps_cur p)\<lparr>rq_keep_alive :=
                    (\<not> close_requested \<and> (if rq_minor (ps_cur p) \<ge> 1 then True else ka_requested))\<rparr>;
            p = p\<lparr>ps_cur := out\<rparr>
        in case transfer_encoding (rq_minor out) (header_all ''Transfer-Encoding'' out) of
             Inl err \<Rightarrow> (KError, p, err)
           | Inr use_chunked \<Rightarrow>
             (case content_length (max_body_bytes (ps_limits p)) use_chunked (header_all ''Content-Length'' out) of
                Inl (err, too_large) \<Rightarrow> (KError, p\<lparr>ps_too_large := too_large\<rparr>, err)
              | Inr len \<Rightarrow>
                if use_chunked
                then finish_expect (p\<lparr>ps_chunked := True, ps_chunk_remaining := 0,
                                      ps_expect_chunk_crlf := False, ps_state := SBodyChunked\<rparr>)
                else (case len of
                        None \<Rightarrow> (KRequestReady, p, [])
                      | Some n \<Rightarrow>
                        if n > 0
                        then finish_expect (p\<lparr>ps_body_remaining := unat n, ps_state := SBodyFixed\<rparr>)
                        else (KRequestReady, p, []))))"

section \<open>Chunk sizes\<close>

text \<open>The hex loop: an error message with the value \<^verbatim>\<open>too_large_\<close> gets, or the size.\<close>

primrec chunk_size_loop :: "u64 \<Rightarrow> bytes \<Rightarrow> (bytes \<times> bool) + u64" where
  "chunk_size_loop v [] = Inr v"
| "chunk_size_loop v (c # cs) =
     (case hex_digit c of
        None \<Rightarrow> Inl (''malformed chunk size'', False)
      | Some d \<Rightarrow> let v' = v * 16 + of_nat d
                 in if v' > 2 ^ 52 then Inl (''chunk size out of range'', True) else chunk_size_loop v' cs)"

definition parse_chunk_size :: "bytes \<Rightarrow> (bytes \<times> bool) + u64" where
  "parse_chunk_size line =
     (let hex = (case sv_find CHR '';'' 0 line of None \<Rightarrow> line | Some semi \<Rightarrow> sv_substr 0 semi line)
      in if hex = [] \<or> length hex > 16 then Inl (''malformed chunk size'', False)
         else chunk_size_loop 0 hex)"

section \<open>The parse loop\<close>

text \<open>
  What \<^verbatim>\<open>parse()\<close> leaves behind: its status, the out-parameters \<^verbatim>\<open>out\<close> and \<^verbatim>\<open>err\<close>, the
  parser and the buffer.  \<open>out\<close> is the caller's \<^verbatim>\<open>Request\<close>, written only on \<^verbatim>\<open>kRequest\<close>.
\<close>

record parse_result =
  pr_status :: parse_status
  pr_out :: request
  pr_err :: bytes
  pr_parser :: parser
  pr_buf :: bytebuf

text \<open>One pass through a loop body: go round again, leave the loop, or return from \<^verbatim>\<open>parse()\<close>.\<close>

datatype loop_ctl = Continue parser bytebuf | Break parser bytebuf | Return parse_result

definition ret :: "parse_status \<Rightarrow> bytes \<Rightarrow> request \<Rightarrow> parser \<Rightarrow> bytebuf \<Rightarrow> loop_ctl" where
  "ret st err out p b =
     Return \<lparr>pr_status = st, pr_out = out, pr_err = err, pr_parser = p, pr_buf = b\<rparr>"

text \<open>\<^verbatim>\<open>return too_large_ ? kTooLarge : kBadRequest\<close>\<close>

definition ret_rejected :: "bytes \<Rightarrow> request \<Rightarrow> parser \<Rightarrow> bytebuf \<Rightarrow> loop_ctl" where
  "ret_rejected err out p b = ret (if ps_too_large p then KTooLarge else KBadRequest) err out p b"

definition emit_request :: "parser \<Rightarrow> bytebuf \<Rightarrow> loop_ctl" where
  "emit_request p b =
     ret KRequest [] ((ps_cur p)\<lparr>rq_body := ps_body p, rq_header_bytes := ps_header_bytes p,
                                 rq_total_bytes := ps_consumed p\<rparr>) (parser_reset p) b"

text \<open>Consuming a line with its CRLF, and consuming a header or trailer line.\<close>

definition advance :: "nat \<Rightarrow> parser \<Rightarrow> parser" where
  "advance n p = p\<lparr>ps_consumed := ps_consumed p + n, ps_scan := 0\<rparr>"

definition advance_header :: "nat \<Rightarrow> parser \<Rightarrow> parser" where
  "advance_header n p = p\<lparr>ps_consumed := ps_consumed p + n, ps_header_bytes := ps_header_bytes p + n, ps_scan := 0\<rparr>"

definition request_line_case :: "parser \<Rightarrow> bytebuf \<Rightarrow> request \<Rightarrow> loop_ctl" where
  "request_line_case p b out =
     (case line_ready p b of
        (BareLF, p) \<Rightarrow> ret KBadRequest ''bare LF in request line (strict CRLF required)'' out p b
      | (NoLine, p) \<Rightarrow>
          if bb_size b > max_request_line_bytes (ps_limits p)
          then ret KTooLarge ''request line too long'' out p b
          else ret KNeedMore [] out p b
      | (LineReady line_end, p) \<Rightarrow>
          let line = take line_end (bb_view b)
          in if length line > max_request_line_bytes (ps_limits p)
             then ret KTooLarge ''request line too long'' out p b
             else case parse_request_line p line of (ok, p, err) \<Rightarrow>
               let frame = line_end + 2; b = bb_consume frame b; p = advance frame p
               in if \<not> ok then ret_rejected err out p b
                  else Continue (p\<lparr>ps_state := SHeaders\<rparr>) b)"

definition headers_case :: "parser \<Rightarrow> bytebuf \<Rightarrow> request \<Rightarrow> loop_ctl" where
  "headers_case p b out =
     (case line_ready p b of
        (BareLF, p) \<Rightarrow> ret KBadRequest ''bare LF in header block (strict CRLF required)'' out p b
      | (NoLine, p) \<Rightarrow>
          if ps_header_bytes p + bb_size b > max_header_bytes (ps_limits p)
          then ret KTooLarge ''header block too large'' out p b
          else ret KNeedMore [] out p b
      | (LineReady line_end, p) \<Rightarrow>
          let frame = line_end + 2
          in if line_end = 0
             then let b = bb_consume frame b; p = advance_header frame p
               in case finish_headers p of
                    (KError, p, err) \<Rightarrow> ret_rejected err out p b
                  | (KRequestReady, p, err) \<Rightarrow> emit_request p b
                  | (KSend100, p, err) \<Rightarrow> ret KExpect100 [] out p b
                  | (KBodyPending, p, err) \<Rightarrow> Continue p b
             else case parse_header_line p (take line_end (bb_view b)) of (ok, p, err) \<Rightarrow>
               let b = bb_consume frame b; p = advance_header frame p
               in if \<not> ok then ret_rejected err out p b
                  else if ps_header_bytes p > max_header_bytes (ps_limits p)
                    then ret KTooLarge ''header block too large'' out p b
                  else Continue p b)"

definition body_fixed_case :: "parser \<Rightarrow> bytebuf \<Rightarrow> request \<Rightarrow> loop_ctl" where
  "body_fixed_case p b out =
     (let take_n = min (ps_body_remaining p) (bb_size b);
          (p, b) = (if take_n > 0
                    then (p\<lparr>ps_body := ps_body p @ take take_n (bb_view b),
                            ps_consumed := ps_consumed p + take_n,
                            ps_body_remaining := ps_body_remaining p - take_n, ps_scan := 0\<rparr>,
                          bb_consume take_n b)
                    else (p, b))
      in if ps_body_remaining p = 0 then emit_request p b else ret KNeedMore [] out p b)"

text \<open>One pass through the inner loop of the chunked body.\<close>

definition body_chunked_iter :: "parser \<Rightarrow> bytebuf \<Rightarrow> request \<Rightarrow> loop_ctl" where
  "body_chunked_iter p b out =
     (if ps_expect_chunk_crlf p then
        (case line_ready p b of
           (BareLF, p) \<Rightarrow> ret KBadRequest ''bare LF in chunked stream'' out p b
         | (NoLine, p) \<Rightarrow> ret KNeedMore [] out p b
         | (LineReady line_end, p) \<Rightarrow>
             if line_end \<noteq> 0 then ret KBadRequest ''chunk data not terminated by CRLF'' out p b
             else Continue ((advance 2 p)\<lparr>ps_expect_chunk_crlf := False\<rparr>) (bb_consume 2 b))
      else if ps_chunk_remaining p > 0 then
        (let take_n = min (ps_chunk_remaining p) (bb_size b)
         in if take_n = 0 then ret KNeedMore [] out p b
            else if length (ps_body p) + take_n > max_body_bytes (ps_limits p)
              then ret KTooLarge ''chunked body exceeds the body limit'' out p b
            else let p = p\<lparr>ps_body := ps_body p @ take take_n (bb_view b),
                           ps_consumed := ps_consumed p + take_n,
                           ps_chunk_remaining := ps_chunk_remaining p - take_n, ps_scan := 0\<rparr>;
                     p = (if ps_chunk_remaining p = 0 then p\<lparr>ps_expect_chunk_crlf := True\<rparr> else p)
                 in Continue p (bb_consume take_n b))
      else
        (case line_ready p b of
           (BareLF, p) \<Rightarrow> ret KBadRequest ''bare LF in chunked stream'' out p b
         | (NoLine, p) \<Rightarrow>
             if bb_size b > max_request_line_bytes (ps_limits p)
             then ret KTooLarge ''chunk size line too long'' out p b
             else ret KNeedMore [] out p b
         | (LineReady line_end, p) \<Rightarrow>
             let size_result = parse_chunk_size (take line_end (bb_view b));
                 frame = line_end + 2; b = bb_consume frame b; p = advance frame p
             in case size_result of
                  Inl (err, too_large) \<Rightarrow> ret_rejected err out (p\<lparr>ps_too_large := ps_too_large p \<or> too_large\<rparr>) b
                | Inr sz \<Rightarrow>
                    if sz = 0 then Break (p\<lparr>ps_state := SChunkTrailer\<rparr>) b
                    else if length (ps_body p) + unat sz > max_body_bytes (ps_limits p)
                      then ret KTooLarge ''chunked body exceeds the body limit'' out p b
                    else Continue (p\<lparr>ps_chunk_remaining := unat sz\<rparr>) b))"

text \<open>One pass through the loop over the trailer lines.\<close>

definition trailer_iter :: "parser \<Rightarrow> bytebuf \<Rightarrow> request \<Rightarrow> loop_ctl" where
  "trailer_iter p b out =
     (case line_ready p b of
        (BareLF, p) \<Rightarrow> ret KBadRequest ''bare LF in trailer block'' out p b
      | (NoLine, p) \<Rightarrow>
          if ps_header_bytes p + bb_size b > max_header_bytes (ps_limits p)
          then ret KTooLarge ''trailer block too large'' out p b
          else ret KNeedMore [] out p b
      | (LineReady line_end, p) \<Rightarrow>
          let frame = line_end + 2
          in if line_end = 0 then emit_request (advance frame p) (bb_consume frame b)
             else case parse_header_line p (take line_end (bb_view b)) of (ok, p, err) \<Rightarrow>
               let b = bb_consume frame b; p = advance_header frame p
               in if \<not> ok then ret_rejected err out p b
                  else if ps_header_bytes p > max_header_bytes (ps_limits p)
                    then ret KTooLarge ''trailer block too large'' out p b
                  else Continue p b)"

section \<open>Every iteration that goes round again consumes input\<close>

lemma scan_lf_eq: "scan_lf s i = sv_find LF i s"
proof (induction s i rule: scan_lf.induct)
  case (1 s i)
  show ?case
  proof (cases "i < length s")
    case True
    then have "drop i s = s ! i # drop (Suc i) s" by (simp add: Cons_nth_drop_Suc)
    with 1 True show ?thesis
      by (subst scan_lf.simps) (simp add: sv_find_def option.map_comp comp_def)
  next
    case False
    then show ?thesis by (subst scan_lf.simps) (simp add: sv_find_def)
  qed
qed

definition scan_pos :: "parser \<Rightarrow> nat \<Rightarrow> nat" where
  "scan_pos p n = (if ps_scan p < n then ps_scan p else n)"

lemma line_ready_eq:
  "line_ready p b =
     (case sv_find LF (scan_pos p (length (bb_view b))) (bb_view b) of
        Some i \<Rightarrow> (if i = 0 \<or> bb_view b ! (i - 1) \<noteq> CR then (BareLF, p\<lparr>ps_scan := i\<rparr>)
                  else (LineReady (i - 1), p\<lparr>ps_scan := i + 1\<rparr>))
      | None \<Rightarrow> (NoLine, p\<lparr>ps_scan := length (bb_view b)\<rparr>))"
  by (simp only: line_ready_def Let_def scan_lf_eq scan_pos_def length_bb_view)

lemma line_readyD:
  assumes "line_ready p b = (LineReady n, p')"
  shows "n + 2 \<le> bb_size b \<and> bb_view b ! n = CR \<and> bb_view b ! (n + 1) = LF \<and> p' = p\<lparr>ps_scan := n + 2\<rparr>"
proof (cases "sv_find LF (scan_pos p (length (bb_view b))) (bb_view b)")
  case None
  with assms show ?thesis by (simp add: line_ready_eq)
next
  case (Some i)
  from assms have n: "i \<noteq> 0" "bb_view b ! (i - 1) = CR" "n = i - 1" "p' = p\<lparr>ps_scan := i + 1\<rparr>"
    by (auto simp: line_ready_eq Some split: if_splits)
  from sv_find_SomeD [OF Some] have "i < bb_size b" "bb_view b ! i = LF"
    by (simp_all add: length_bb_view)
  with n show ?thesis by (cases i) auto
qed

lemma line_ready_scan: "line_ready p b = (r, p') \<Longrightarrow> \<exists>k. p' = p\<lparr>ps_scan := k\<rparr>"
  by (auto simp: line_ready_eq split: option.splits if_splits)

lemma not_ret [simp]:
  "ret st err out p b \<noteq> Continue p' b'" "ret st err out p b \<noteq> Break p' b'"
  "ret_rejected err out p b \<noteq> Continue p' b'" "ret_rejected err out p b \<noteq> Break p' b'"
  "emit_request p b \<noteq> Continue p' b'" "emit_request p b \<noteq> Break p' b'"
  by (simp_all add: ret_def ret_rejected_def emit_request_def)

lemmas ctl_splits = prod.splits line_result.splits if_splits sum.splits head_outcome.splits

lemma body_chunked_iter_progress:
  "body_chunked_iter p b out = Continue p' b' \<or> body_chunked_iter p b out = Break p' b' \<Longrightarrow>
     bb_size b' < bb_size b"
  by (auto simp: body_chunked_iter_def Let_def bb_size_consume split: ctl_splits dest: line_readyD)

lemma trailer_iter_progress: "trailer_iter p b out = Continue p' b' \<Longrightarrow> bb_size b' < bb_size b"
  by (auto simp: trailer_iter_def Let_def bb_size_consume split: ctl_splits dest: line_readyD)

lemma request_line_case_progress: "request_line_case p b out = Continue p' b' \<Longrightarrow> bb_size b' < bb_size b"
  by (auto simp: request_line_case_def Let_def bb_size_consume split: ctl_splits dest: line_readyD)

lemma headers_case_progress: "headers_case p b out = Continue p' b' \<Longrightarrow> bb_size b' < bb_size b"
  by (auto simp: headers_case_def Let_def bb_size_consume split: ctl_splits dest: line_readyD)

lemma body_fixed_case_returns: "\<exists>r. body_fixed_case p b out = Return r"
  by (auto simp: body_fixed_case_def Let_def emit_request_def ret_def)

section \<open>The loops\<close>

function body_chunked_loop :: "parser \<Rightarrow> bytebuf \<Rightarrow> request \<Rightarrow> loop_ctl" where
  "body_chunked_loop p b out =
     (case body_chunked_iter p b out of
        Continue p' b' \<Rightarrow> body_chunked_loop p' b' out
      | Break p' b' \<Rightarrow> Continue p' b'
      | Return r \<Rightarrow> Return r)"
  by pat_completeness auto
termination
  by (relation "measure (\<lambda>(p, b, out). bb_size b)") (auto intro: body_chunked_iter_progress)

function trailer_loop :: "parser \<Rightarrow> bytebuf \<Rightarrow> request \<Rightarrow> loop_ctl" where
  "trailer_loop p b out =
     (case trailer_iter p b out of
        Continue p' b' \<Rightarrow> trailer_loop p' b' out
      | Break p' b' \<Rightarrow> Continue p' b'
      | Return r \<Rightarrow> Return r)"
  by pat_completeness auto
termination
  by (relation "measure (\<lambda>(p, b, out). bb_size b)") (auto intro: trailer_iter_progress)

declare body_chunked_loop.simps [simp del] trailer_loop.simps [simp del]

definition parse_dispatch :: "parser \<Rightarrow> bytebuf \<Rightarrow> request \<Rightarrow> loop_ctl" where
  "parse_dispatch p b out =
     (case ps_state p of
        SRequestLine \<Rightarrow> request_line_case p b out
      | SHeaders \<Rightarrow> headers_case p b out
      | SBodyFixed \<Rightarrow> body_fixed_case p b out
      | SBodyChunked \<Rightarrow> body_chunked_loop p b out
      | SChunkTrailer \<Rightarrow> trailer_loop p b out)"

lemma body_chunked_loop_progress: "body_chunked_loop p b out = Continue p' b' \<Longrightarrow> bb_size b' < bb_size b"
proof (induction p b out rule: body_chunked_loop.induct)
  case (1 p b out)
  show ?case
  proof (cases "body_chunked_iter p b out")
    case (Continue q c)
    with "1.prems" have "bb_size b' < bb_size c"
      by (intro "1.IH") (simp_all add: body_chunked_loop.simps [of p b out])
    also have "bb_size c < bb_size b" using Continue body_chunked_iter_progress [of p b out q c] by simp
    finally show ?thesis .
  next
    case (Break q c)
    with "1.prems" show ?thesis
      using body_chunked_iter_progress [of p b out q c] by (simp add: body_chunked_loop.simps [of p b out])
  next
    case (Return r)
    with "1.prems" show ?thesis by (simp add: body_chunked_loop.simps [of p b out])
  qed
qed

lemma trailer_iter_no_break: "trailer_iter p b out \<noteq> Break p' b'"
  by (auto simp: trailer_iter_def Let_def split: ctl_splits)

lemma trailer_loop_returns: "\<exists>r. trailer_loop p b out = Return r"
proof (induction p b out rule: trailer_loop.induct)
  case (1 p b out)
  then show ?case
    by (cases "trailer_iter p b out") (simp_all add: trailer_loop.simps [of p b out] trailer_iter_no_break)
qed

lemma parse_dispatch_progress: "parse_dispatch p b out = Continue p' b' \<Longrightarrow> bb_size b' < bb_size b"
  using body_fixed_case_returns [of p b out] trailer_loop_returns [of p b out]
  by (auto simp: parse_dispatch_def split: parser_state.splits
      intro: request_line_case_progress headers_case_progress body_chunked_loop_progress)

lemma parse_dispatch_no_break: "parse_dispatch p b out \<noteq> Break p' b'"
proof -
  have "body_chunked_loop p b out \<noteq> Break p' b'"
  proof (induction p b out rule: body_chunked_loop.induct)
    case (1 p b out)
    then show ?case
      by (cases "body_chunked_iter p b out") (simp_all add: body_chunked_loop.simps [of p b out])
  qed
  with body_fixed_case_returns [of p b out] trailer_loop_returns [of p b out] show ?thesis
    by (auto simp: parse_dispatch_def request_line_case_def headers_case_def Let_def
        split: parser_state.splits ctl_splits)
qed

text \<open>
  The outer loop.  The switch never breaks out of it: the \<^verbatim>\<open>break\<close> of the chunked case leaves the
  inner loop only, which \<open>body_chunked_loop\<close> reports as going round the outer loop.
\<close>

function parse_loop :: "parser \<Rightarrow> bytebuf \<Rightarrow> request \<Rightarrow> parse_result" where
  "parse_loop p b out =
     (if ps_consumed p + bb_size b > max_request_bytes (ps_limits p)
      then \<lparr>pr_status = KTooLarge, pr_out = out, pr_err = ''request exceeds the configured limit'',
            pr_parser = p, pr_buf = b\<rparr>
      else case parse_dispatch p b out of
             Continue p' b' \<Rightarrow> parse_loop p' b' out
           | Break p' b' \<Rightarrow> \<lparr>pr_status = KNeedMore, pr_out = out, pr_err = [], pr_parser = p', pr_buf = b'\<rparr>
           | Return r \<Rightarrow> r)"
  by pat_completeness auto
termination
  by (relation "measure (\<lambda>(p, b, out). bb_size b)") (auto intro: parse_dispatch_progress)

declare parse_loop.simps [simp del]

definition parse :: "parser \<Rightarrow> bytebuf \<Rightarrow> request \<Rightarrow> parse_result" where
  "parse p b out = parse_loop p b out"

end
