(* ===== verification/Parser_Props.thy ===== *)
theory Parser_Props
  imports Http_Parser
begin

text \<open>
  Properties of the request parser.  The nested loops are first flattened into one step relation
  (\<open>parse_loop_flat\<close>), which gives a rule for invariants of \<open>parse\<close> (\<open>parse_loop_rule\<close>).
\<close>

section \<open>Frames\<close>

lemma advance_frames [frame_simps]:
  "ps_limits (advance n p) = ps_limits p" "ps_state (advance n p) = ps_state p"
  "ps_cur (advance n p) = ps_cur p" "ps_scan (advance n p) = 0"
  "ps_consumed (advance n p) = ps_consumed p + n" "ps_header_bytes (advance n p) = ps_header_bytes p"
  "ps_body (advance n p) = ps_body p" "ps_too_large (advance n p) = ps_too_large p"
  "ps_body_remaining (advance n p) = ps_body_remaining p"
  "ps_chunk_remaining (advance n p) = ps_chunk_remaining p"
  "ps_expect_chunk_crlf (advance n p) = ps_expect_chunk_crlf p"
  "ps_expect_sent (advance n p) = ps_expect_sent p" "ps_chunked (advance n p) = ps_chunked p"
  by (simp_all add: advance_def)

lemma advance_header_frames [frame_simps]:
  "ps_limits (advance_header n p) = ps_limits p" "ps_state (advance_header n p) = ps_state p"
  "ps_cur (advance_header n p) = ps_cur p" "ps_scan (advance_header n p) = 0"
  "ps_consumed (advance_header n p) = ps_consumed p + n"
  "ps_header_bytes (advance_header n p) = ps_header_bytes p + n"
  "ps_body (advance_header n p) = ps_body p" "ps_too_large (advance_header n p) = ps_too_large p"
  "ps_body_remaining (advance_header n p) = ps_body_remaining p"
  "ps_chunk_remaining (advance_header n p) = ps_chunk_remaining p"
  "ps_expect_chunk_crlf (advance_header n p) = ps_expect_chunk_crlf p"
  "ps_expect_sent (advance_header n p) = ps_expect_sent p"
  "ps_chunked (advance_header n p) = ps_chunked p"
  by (simp_all add: advance_header_def)

text \<open>The line parsers write only the request under construction and the flag for 413.\<close>

definition line_frame :: "parser \<Rightarrow> _" where
  "line_frame p = (ps_limits p, ps_state p, ps_scan p, ps_consumed p, ps_header_bytes p, ps_body p,
     ps_body_remaining p, ps_chunk_remaining p, ps_expect_chunk_crlf p, ps_expect_sent p, ps_chunked p)"

lemma parse_request_line_line_frame:
  "parse_request_line p line = (ok, p', err) \<Longrightarrow> line_frame p' = line_frame p"
  by (auto simp: line_frame_def parse_request_line_def store_request_line_def Let_def
      split: if_splits sum.splits prod.splits)

lemma parse_header_line_line_frame:
  "parse_header_line p line = (ok, p', err) \<Longrightarrow> line_frame p' = line_frame p"
  by (auto simp: line_frame_def parse_header_line_def Let_def split: if_splits option.splits)

lemmas parse_request_line_frames = parse_request_line_line_frame [unfolded line_frame_def prod.inject]
lemmas parse_header_line_frames = parse_header_line_line_frame [unfolded line_frame_def prod.inject]

definition head_frame :: "parser \<Rightarrow> _" where
  "head_frame p = (ps_limits p, ps_scan p, ps_consumed p, ps_header_bytes p, ps_body p,
     rq_headers (ps_cur p), rq_target (ps_cur p), rq_method (ps_cur p), rq_method_name (ps_cur p),
     rq_minor (ps_cur p), rq_major (ps_cur p))"

lemma finish_expect_head_frame: "finish_expect p = (oc, p', err) \<Longrightarrow> head_frame p' = head_frame p"
  by (auto simp: head_frame_def finish_expect_def Let_def split: if_splits)

lemma finish_headers_head_frame: "finish_headers p = (oc, p', err) \<Longrightarrow> head_frame p' = head_frame p"
  by (auto simp: finish_headers_def Let_def split: option.splits if_splits sum.splits prod.splits
      dest!: finish_expect_head_frame) (simp_all add: head_frame_def)

lemmas finish_headers_frames = finish_headers_head_frame [unfolded head_frame_def prod.inject]

lemma finish_expect_body:
  "finish_expect p = (oc, p', err) \<Longrightarrow>
     ps_state p' = ps_state p \<and> ps_body_remaining p' = ps_body_remaining p \<and>
     ps_chunk_remaining p' = ps_chunk_remaining p \<and> ps_expect_chunk_crlf p' = ps_expect_chunk_crlf p \<and>
     oc \<noteq> KRequestReady"
  by (auto simp: finish_expect_def Let_def split: if_splits)

text \<open>What a pending body looks like after the header block.\<close>

lemma finish_headers_pending:
  assumes "finish_headers p = (oc, p', err)" and "oc = KBodyPending \<or> oc = KSend100"
  shows "(ps_state p' = SBodyFixed \<and> 0 < ps_body_remaining p' \<and>
            ps_body_remaining p' \<le> max_body_bytes (ps_limits p)) \<or>
         (ps_state p' = SBodyChunked \<and> ps_chunk_remaining p' = 0 \<and> \<not> ps_expect_chunk_crlf p')"
  using assms
  by (auto simp: finish_headers_def content_length_def Let_def word_less_nat_alt
      split: option.splits if_splits sum.splits prod.splits dest!: finish_expect_body)

section \<open>One step of the parser\<close>

definition flat_step :: "parser \<Rightarrow> bytebuf \<Rightarrow> request \<Rightarrow> loop_ctl" where
  "flat_step p b out =
     (case ps_state p of
        SRequestLine \<Rightarrow> request_line_case p b out
      | SHeaders \<Rightarrow> headers_case p b out
      | SBodyFixed \<Rightarrow> body_fixed_case p b out
      | SBodyChunked \<Rightarrow> body_chunked_iter p b out
      | SChunkTrailer \<Rightarrow> trailer_iter p b out)"

text \<open>A step that goes on: \<open>Continue\<close> and \<open>Break\<close> both lead to another step.\<close>

definition steps_to :: "loop_ctl \<Rightarrow> parser \<Rightarrow> bytebuf \<Rightarrow> bool" where
  "steps_to c p b = (c = Continue p b \<or> c = Break p b)"

lemma steps_to_simps [simp]:
  "steps_to (Continue p b) p' b' \<longleftrightarrow> p' = p \<and> b' = b"
  "steps_to (Break p b) p' b' \<longleftrightarrow> p' = p \<and> b' = b"
  "\<not> steps_to (Return r) p' b'"
  "\<not> steps_to (ret st err out p b) p' b'"
  "\<not> steps_to (ret_rejected err out p b) p' b'"
  "\<not> steps_to (emit_request p b) p' b'"
  by (auto simp: steps_to_def ret_def ret_rejected_def emit_request_def)

lemma line_ready_frame:
  "line_ready p b = (r, p') \<Longrightarrow>
     line_frame (p'\<lparr>ps_scan := 0\<rparr>) = line_frame (p\<lparr>ps_scan := 0\<rparr>) \<and> ps_cur p' = ps_cur p \<and>
     ps_too_large p' = ps_too_large p"
  by (drule line_ready_scan) (auto simp: line_frame_def)

text \<open>Limits stay, and what a step consumes from the buffer it counts.\<close>

definition balanced :: "parser \<Rightarrow> bytebuf \<Rightarrow> parser \<Rightarrow> bytebuf \<Rightarrow> bool" where
  "balanced p b p' b' = (ps_limits p' = ps_limits p \<and>
     ps_consumed p' + length (bb_view b') = ps_consumed p + length (bb_view b))"

lemmas step_defs = request_line_case_def headers_case_def body_fixed_case_def body_chunked_iter_def
  trailer_iter_def

lemma request_line_balanced: "steps_to (request_line_case p b out) p' b' \<Longrightarrow> balanced p b p' b' \<and> ps_state p' = SHeaders"
  by (auto simp: request_line_case_def balanced_def Let_def view_simps frame_simps split: ctl_splits
      dest!: line_readyD parse_request_line_frames)

lemma headers_balanced: "steps_to (headers_case p b out) p' b' \<Longrightarrow> balanced p b p' b'"
  by (auto simp: headers_case_def balanced_def Let_def view_simps frame_simps split: ctl_splits
      dest!: line_readyD parse_header_line_frames finish_headers_frames)

lemma body_chunked_balanced: "steps_to (body_chunked_iter p b out) p' b' \<Longrightarrow> balanced p b p' b'"
  by (auto simp: body_chunked_iter_def balanced_def Let_def view_simps frame_simps split: ctl_splits
      dest!: line_readyD)

lemma trailer_balanced: "steps_to (trailer_iter p b out) p' b' \<Longrightarrow> balanced p b p' b'"
  by (auto simp: trailer_iter_def balanced_def Let_def view_simps frame_simps split: ctl_splits
      dest!: line_readyD parse_header_line_frames)

lemma body_fixed_no_step: "\<not> steps_to (body_fixed_case p b out) p' b'"
  using body_fixed_case_returns [of p b out] by auto

lemma flat_step_balanced: "steps_to (flat_step p b out) p' b' \<Longrightarrow> balanced p b p' b'"
  by (auto simp: flat_step_def body_fixed_no_step split: parser_state.splits
      dest: request_line_balanced headers_balanced body_chunked_balanced trailer_balanced)

lemma request_line_headers_no_break:
  "request_line_case p b out \<noteq> Break p' b'" "headers_case p b out \<noteq> Break p' b'"
  by (auto simp: request_line_case_def headers_case_def Let_def split: ctl_splits)

lemma flat_step_progress: "steps_to (flat_step p b out) p' b' \<Longrightarrow> length (bb_view b') < length (bb_view b)"
  using body_fixed_no_step [of p b out p' b']
  by (auto simp: flat_step_def steps_to_def length_bb_view trailer_iter_no_break request_line_headers_no_break
      split: parser_state.splits
      intro: request_line_case_progress headers_case_progress body_chunked_iter_progress trailer_iter_progress)

section \<open>The loops, flattened\<close>

text \<open>
  The inner loops do not repeat the test of the total size, but what they consume they count, so
  the test would give the same answer at every iteration.
\<close>

definition oversized :: "parser \<Rightarrow> bytebuf \<Rightarrow> bool" where
  "oversized p b = (ps_consumed p + length (bb_view b) > max_request_bytes (ps_limits p))"

definition oversized_result :: "parser \<Rightarrow> bytebuf \<Rightarrow> request \<Rightarrow> parse_result" where
  "oversized_result p b out = \<lparr>pr_status = KTooLarge, pr_out = out,
     pr_err = ''request exceeds the configured limit'', pr_parser = p, pr_buf = b\<rparr>"

lemma oversized_balanced: "balanced p b p' b' \<Longrightarrow> oversized p' b' = oversized p b"
  by (simp add: balanced_def oversized_def)

lemma parse_loop_unfold:
  "parse_loop p b out =
     (if oversized p b then oversized_result p b out
      else case parse_dispatch p b out of
             Continue p' b' \<Rightarrow> parse_loop p' b' out
           | Break p' b' \<Rightarrow> \<lparr>pr_status = KNeedMore, pr_out = out, pr_err = [], pr_parser = p', pr_buf = b'\<rparr>
           | Return r \<Rightarrow> r)"
  by (subst parse_loop.simps) (simp add: oversized_def oversized_result_def length_bb_view)

lemma body_chunked_iter_state:
  "body_chunked_iter p b out = Continue p' b' \<Longrightarrow> ps_state p' = ps_state p"
  by (auto simp: body_chunked_iter_def Let_def frame_simps split: ctl_splits dest!: line_readyD)

lemma trailer_iter_state: "trailer_iter p b out = Continue p' b' \<Longrightarrow> ps_state p' = ps_state p"
  by (auto simp: trailer_iter_def Let_def frame_simps split: ctl_splits
      dest!: line_readyD parse_header_line_frames)

lemma parse_loop_flat:
  "parse_loop p b out =
     (if oversized p b then oversized_result p b out
      else case flat_step p b out of
             Continue p' b' \<Rightarrow> parse_loop p' b' out
           | Break p' b' \<Rightarrow> parse_loop p' b' out
           | Return r \<Rightarrow> r)"
proof (cases "oversized p b")
  case True
  then show ?thesis by (simp add: parse_loop_unfold [of p b])
next
  case False
  show ?thesis
  proof (cases "ps_state p")
    case SBodyChunked
    show ?thesis
    proof (cases "body_chunked_iter p b out")
      case (Continue q c)
      then have "ps_state q = SBodyChunked" "\<not> oversized q c"
        using body_chunked_iter_state [OF Continue] SBodyChunked False
          oversized_balanced [OF body_chunked_balanced, of p b out q c] by auto
      with Continue False SBodyChunked show ?thesis
        by (simp add: parse_loop_unfold [of p b] parse_loop_unfold [of q c] parse_dispatch_def
            flat_step_def body_chunked_loop.simps [of p b])
    qed (use False SBodyChunked in \<open>simp_all add: parse_loop_unfold [of p b] parse_dispatch_def
            flat_step_def body_chunked_loop.simps [of p b]\<close>)
  next
    case SChunkTrailer
    show ?thesis
    proof (cases "trailer_iter p b out")
      case (Continue q c)
      then have "ps_state q = SChunkTrailer" "\<not> oversized q c"
        using trailer_iter_state [OF Continue] SChunkTrailer False
          oversized_balanced [OF trailer_balanced, of p b out q c] by auto
      with Continue False SChunkTrailer show ?thesis
        by (simp add: parse_loop_unfold [of p b] parse_loop_unfold [of q c] parse_dispatch_def
            flat_step_def trailer_loop.simps [of p b])
    qed (use False SChunkTrailer in \<open>simp_all add: parse_loop_unfold [of p b] parse_dispatch_def
            flat_step_def trailer_loop.simps [of p b] trailer_iter_no_break\<close>)
  qed (use False body_fixed_case_returns [of p b out] in
      \<open>auto simp: parse_loop_unfold [of p b] parse_dispatch_def flat_step_def
          request_line_headers_no_break split: loop_ctl.splits\<close>)
qed

text \<open>
  The rule for properties of \<open>parse\<close>: an invariant kept by every step, and a postcondition
  that every return from a state of the invariant satisfies.
\<close>

lemma parse_loop_rule [consumes 1, case_names over step return]:
  assumes "I p b"
    and over: "\<And>p b. I p b \<Longrightarrow> oversized p b \<Longrightarrow> Q (oversized_result p b out)"
    and step: "\<And>p b p' b'. I p b \<Longrightarrow> \<not> oversized p b \<Longrightarrow> steps_to (flat_step p b out) p' b' \<Longrightarrow> I p' b'"
    and retn: "\<And>p b r. I p b \<Longrightarrow> \<not> oversized p b \<Longrightarrow> flat_step p b out = Return r \<Longrightarrow> Q r"
  shows "Q (parse_loop p b out)"
  using assms(1)
proof (induction "length (bb_view b)" arbitrary: p b rule: less_induct)
  case less
  show ?case
  proof (cases "oversized p b")
    case True
    with over less.prems show ?thesis by (simp add: parse_loop_flat [of p b])
  next
    case False
    have next_: "Q (parse_loop q c out)" if s: "steps_to (flat_step p b out) q c" for q c
      using less.hyps [OF flat_step_progress [OF s]] step [OF less.prems False s] .
    show ?thesis
      using False next_ retn [OF less.prems False]
      by (cases "flat_step p b out") (auto simp: parse_loop_flat [of p b])
  qed
qed

end
