(* ===== verification/Parser_Inv.thy ===== *)
theory Parser_Inv
  imports Parser_Props
begin

text \<open>
  The invariant of the request parser: what every field of \<open>parser\<close> is bounded by in each
  state, and that the request under construction is well formed.  Every step keeps it, so every
  request the parser emits satisfies it.
\<close>

section \<open>Well-formed requests\<close>

definition target_ok :: "request \<Rightarrow> bool" where
  "target_ok r =
     (rq_target r = ''*'' \<and> rq_method r = Options \<or>
      rq_target r \<noteq> [] \<and> hd (rq_target r) = CHR ''/'' \<and> CHR ''#'' \<notin> set (rq_target r) \<and>
      \<not> (length (rq_target r) > 1 \<and> rq_target r ! 1 = CHR ''/''))"

definition line_ok :: "request \<Rightarrow> bool" where
  "line_ok r =
     (valid_token (rq_method_name r) \<and> rq_method r = method_from (rq_method_name r) \<and> target_ok r \<and>
      list_all (\<lambda>c. \<not> is_ctl c \<and> c \<noteq> SP) (rq_target r) \<and>
      rq_major r = 1 \<and> (rq_minor r = 0 \<or> rq_minor r = 1))"

definition header_ok :: "header \<Rightarrow> bool" where
  "header_ok h = (valid_token (hdr_name h) \<and> valid_header_value (hdr_value h))"

lemma split_request_lineD:
  assumes "split_request_line line = Inr (m, t, v)"
  shows "line = m @ SP # t @ SP # v \<and> SP \<notin> set m \<and> SP \<notin> set t \<and> SP \<notin> set v \<and> t \<noteq> [] \<and>
    valid_token m \<and> (v = ''HTTP/1.0'' \<or> v = ''HTTP/1.1'') \<and> list_all (\<lambda>c. \<not> is_ctl c) line"
proof -
  from assms obtain sp1 sp2 where sp1: "sv_find SP 0 line = Some sp1"
    and sp2: "sv_find SP (sp1 + 1) line = Some sp2"
    and sp3: "sv_find SP (sp2 + 1) line = None"
    and m: "m = take sp1 line" and t: "t = take (sp2 - sp1 - 1) (drop (sp1 + 1) line)"
    and v: "v = drop (sp2 + 1) line"
    and ok: "t \<noteq> []" "valid_token m" "v = ''HTTP/1.0'' \<or> v = ''HTTP/1.1''"
    and ctl: "list_all (\<lambda>c. \<not> is_ctl c) line"
    by (auto simp: split_request_line_def Let_def sv_substr_def is_ctl_def list_all_iff list_ex_iff
        split: if_splits option.splits)
  from sp1 have i1: "index_of SP line = Some sp1" by (simp add: sv_find_def option.map_ident)
  let ?r = "drop (sp1 + 1) line"
  from sp2 have i2: "index_of SP ?r = Some (sp2 - sp1 - 1)" and le: "sp1 + 1 \<le> sp2"
    by (auto simp: sv_find_def)
  have v': "v = drop (Suc (sp2 - sp1 - 1)) ?r" using v le by simp
  from index_of_decomp [OF i1] have "line = m @ SP # ?r" "SP \<notin> set m" by (simp_all add: m)
  moreover from index_of_decomp [OF i2] have "?r = t @ SP # v" "SP \<notin> set t"
    unfolding t v' by blast+
  moreover have "SP \<notin> set v" using sp3 by (simp add: sv_find_None v)
  ultimately show ?thesis using ok ctl by simp
qed

lemma parse_request_line_ok:
  assumes "parse_request_line p line = (True, p', err)"
  shows "line_ok (ps_cur p') \<and> rq_headers (ps_cur p') = rq_headers (ps_cur p)"
proof -
  obtain m t v where s: "split_request_line line = Inr (m, t, v)"
    and st: "store_request_line p m t v = (True, p', err)"
    using assms by (auto simp: parse_request_line_def split: sum.splits prod.splits)
  note d = split_request_lineD [OF s]
  from d have t: "list_all (\<lambda>c. \<not> is_ctl c \<and> c \<noteq> SP) t" by (auto simp: list_all_iff)
  from st d t show ?thesis
    by (auto simp: store_request_line_def Let_def line_ok_def target_ok_def sv_find_None split: if_splits)
qed

lemma parse_header_line_ok:
  assumes "parse_header_line p line = (True, p', err)"
  shows "\<exists>h. rq_headers (ps_cur p') = rq_headers (ps_cur p) @ [h] \<and> header_ok h \<and>
    length (rq_headers (ps_cur p')) \<le> max_header_fields (ps_limits p) \<and>
    ps_cur p' = (ps_cur p)\<lparr>rq_headers := rq_headers (ps_cur p')\<rparr>"
  using assms by (auto simp: parse_header_line_def Let_def header_ok_def split: if_splits option.splits)

section \<open>The invariant\<close>

fun state_ok :: "parser_state \<Rightarrow> parser \<Rightarrow> bool" where
  "state_ok SRequestLine p = (ps_consumed p = 0 \<and> ps_header_bytes p = 0 \<and> rq_headers (ps_cur p) = [] \<and>
     ps_body p = [])"
| "state_ok SHeaders p = (ps_header_bytes p \<le> max_header_bytes (ps_limits p) \<and> ps_body p = [])"
| "state_ok SBodyFixed p = (length (ps_body p) + ps_body_remaining p \<le> max_body_bytes (ps_limits p) \<and>
     0 < ps_body_remaining p)"
| "state_ok SBodyChunked p = (length (ps_body p) + ps_chunk_remaining p \<le> max_body_bytes (ps_limits p) \<and>
     (ps_expect_chunk_crlf p \<longrightarrow> ps_chunk_remaining p = 0))"
| "state_ok SChunkTrailer p = (length (ps_body p) \<le> max_body_bytes (ps_limits p))"

definition parser_wf :: "parser \<Rightarrow> bool" where
  "parser_wf p =
     (state_ok (ps_state p) p \<and>
      ps_header_bytes p \<le> max_header_bytes (ps_limits p) + 2 \<and>
      length (rq_headers (ps_cur p)) \<le> max_header_fields (ps_limits p) \<and>
      list_all header_ok (rq_headers (ps_cur p)) \<and>
      (ps_state p \<noteq> SRequestLine \<longrightarrow> line_ok (ps_cur p)))"

lemma parser_wf_init: "parser_wf (parser_init l)"
  by (simp add: parser_wf_def parser_init_def request_init_def)

lemma parser_wf_reset: "parser_wf (parser_reset p)"
  by (simp add: parser_wf_def parser_reset_def request_init_def)

lemma parser_wf_scan [simp]: "parser_wf (p\<lparr>ps_scan := n\<rparr>) = parser_wf p"
  by (cases "ps_state p") (simp_all add: parser_wf_def)

section \<open>Inverting a step\<close>

lemma request_line_stepE:
  assumes "steps_to (request_line_case p b out) p' b'"
  obtains n q err where "n + 2 \<le> length (bb_view b)" "n \<le> max_request_line_bytes (ps_limits p)"
    "parse_request_line (p\<lparr>ps_scan := n + 2\<rparr>) (take n (bb_view b)) = (True, q, err)"
    "p' = (advance (n + 2) q)\<lparr>ps_state := SHeaders\<rparr>" "b' = bb_consume (n + 2) b"
proof (cases "line_ready p b")
  case (Pair r p1)
  with assms obtain n where r: "r = LineReady n"
    by (cases r) (auto simp: request_line_case_def split: if_splits)
  note l = line_readyD [OF Pair [unfolded r]]
  obtain ok q err where h: "parse_request_line (p\<lparr>ps_scan := n + 2\<rparr>) (take n (bb_view b)) = (ok, q, err)"
    by (metis prod_cases3)
  from assms that [of n q err] h l Pair r show ?thesis
    by (auto simp: request_line_case_def Let_def length_bb_view split: if_splits)
qed

lemma headers_stepE:
  assumes "steps_to (headers_case p b out) p' b'"
  obtains (finish) err where "2 \<le> length (bb_view b)"
    "finish_headers (advance_header 2 (p\<lparr>ps_scan := 2\<rparr>)) = (KBodyPending, p', err)" "b' = bb_consume 2 b"
  | (field) n q err where "n + 2 \<le> length (bb_view b)" "n \<noteq> 0"
    "parse_header_line (p\<lparr>ps_scan := n + 2\<rparr>) (take n (bb_view b)) = (True, q, err)"
    "p' = advance_header (n + 2) q" "b' = bb_consume (n + 2) b"
    "ps_header_bytes p' \<le> max_header_bytes (ps_limits q)"
proof (cases "line_ready p b")
  case (Pair r p1)
  with assms obtain n where r: "r = LineReady n"
    by (cases r) (auto simp: headers_case_def split: if_splits)
  note l = line_readyD [OF Pair [unfolded r]]
  show ?thesis
  proof (cases "n = 0")
    case True
    obtain oc q err where h: "finish_headers (advance_header 2 (p\<lparr>ps_scan := 2\<rparr>)) = (oc, q, err)"
      by (metis prod_cases3)
    from assms that(1) [of err] h l Pair r True show ?thesis
      by (cases oc) (auto simp: headers_case_def Let_def length_bb_view numeral_2_eq_2)
  next
    case False
    obtain ok q err where h: "parse_header_line (p\<lparr>ps_scan := n + 2\<rparr>) (take n (bb_view b)) = (ok, q, err)"
      by (metis prod_cases3)
    from assms that(2) [of n q err] h l Pair r False show ?thesis
      by (auto simp: headers_case_def Let_def length_bb_view frame_simps split: if_splits)
  qed
qed

lemma trailer_stepE:
  assumes "steps_to (trailer_iter p b out) p' b'"
  obtains n q err where "n + 2 \<le> length (bb_view b)" "n \<noteq> 0"
    "parse_header_line (p\<lparr>ps_scan := n + 2\<rparr>) (take n (bb_view b)) = (True, q, err)"
    "p' = advance_header (n + 2) q" "b' = bb_consume (n + 2) b"
    "ps_header_bytes p' \<le> max_header_bytes (ps_limits q)"
proof (cases "line_ready p b")
  case (Pair r p1)
  with assms obtain n where r: "r = LineReady n"
    by (cases r) (auto simp: trailer_iter_def split: if_splits)
  note l = line_readyD [OF Pair [unfolded r]]
  obtain ok q err where h: "parse_header_line (p\<lparr>ps_scan := n + 2\<rparr>) (take n (bb_view b)) = (ok, q, err)"
    by (metis prod_cases3)
  from assms that [of n q err] h l Pair r show ?thesis
    by (auto simp: trailer_iter_def Let_def length_bb_view frame_simps split: if_splits)
qed

definition chunk_take :: "bytes \<Rightarrow> parser \<Rightarrow> parser" where
  "chunk_take v p =
     (let p = p\<lparr>ps_body := ps_body p @ v, ps_consumed := ps_consumed p + length v,
                ps_chunk_remaining := ps_chunk_remaining p - length v, ps_scan := 0\<rparr>
      in if ps_chunk_remaining p = 0 then p\<lparr>ps_expect_chunk_crlf := True\<rparr> else p)"

lemma chunk_data_iter:
  assumes "\<not> ps_expect_chunk_crlf p" and "ps_chunk_remaining p > 0"
  shows "body_chunked_iter p b out =
    (let v = take (ps_chunk_remaining p) (bb_view b)
     in if v = [] then ret KNeedMore [] out p b
        else if length (ps_body p) + length v > max_body_bytes (ps_limits p)
          then ret KTooLarge ''chunked body exceeds the body limit'' out p b
        else Continue (chunk_take v p) (bb_consume (length v) b))"
  using assms
  by (cases "bb_view b = []")
     (auto simp: body_chunked_iter_def Let_def chunk_take_def min_def simp flip: length_bb_view)

lemma chunk_stepE:
  assumes "steps_to (body_chunked_iter p b out) p' b'"
  obtains (crlf) "ps_expect_chunk_crlf p" "2 \<le> length (bb_view b)"
    "p' = (advance 2 p)\<lparr>ps_expect_chunk_crlf := False\<rparr>" "b' = bb_consume 2 b"
  | (data) v where "\<not> ps_expect_chunk_crlf p" "ps_chunk_remaining p > 0"
    "v = take (ps_chunk_remaining p) (bb_view b)" "v \<noteq> []"
    "length (ps_body p) + length v \<le> max_body_bytes (ps_limits p)"
    "p' = chunk_take v p" "b' = bb_consume (length v) b"
  | (last) n where "\<not> ps_expect_chunk_crlf p" "ps_chunk_remaining p = 0" "n + 2 \<le> length (bb_view b)"
    "parse_chunk_size (take n (bb_view b)) = Inr 0"
    "p' = (advance (n + 2) p)\<lparr>ps_state := SChunkTrailer\<rparr>" "b' = bb_consume (n + 2) b"
  | (chunk) n sz where "\<not> ps_expect_chunk_crlf p" "ps_chunk_remaining p = 0" "n + 2 \<le> length (bb_view b)"
    "parse_chunk_size (take n (bb_view b)) = Inr sz" "sz \<noteq> 0"
    "length (ps_body p) + unat sz \<le> max_body_bytes (ps_limits p)"
    "p' = (advance (n + 2) p)\<lparr>ps_chunk_remaining := unat sz\<rparr>" "b' = bb_consume (n + 2) b"
proof -
  consider (a) "ps_expect_chunk_crlf p" | (b) "\<not> ps_expect_chunk_crlf p" "ps_chunk_remaining p > 0"
    | (c) "\<not> ps_expect_chunk_crlf p" "ps_chunk_remaining p = 0" by auto
  then show ?thesis
  proof cases
    case a
    obtain r p1 where Pair: "line_ready p b = (r, p1)" by (cases "line_ready p b")
    with assms a obtain n where r: "r = LineReady n"
      by (cases r) (auto simp: body_chunked_iter_def)
    with line_readyD [OF Pair [unfolded r]] assms a Pair that(1) show ?thesis
      by (auto simp: body_chunked_iter_def length_bb_view advance_def split: if_splits)
  next
    case b
    with assms that(2) show ?thesis by (auto simp: chunk_data_iter Let_def split: if_splits)
  next
    case c
    obtain r p1 where Pair: "line_ready p b = (r, p1)" by (cases "line_ready p b")
    with assms c obtain n where r: "r = LineReady n"
      by (cases r) (auto simp: body_chunked_iter_def split: if_splits)
    note l = line_readyD [OF Pair [unfolded r]]
    from assms obtain sz where "parse_chunk_size (take n (bb_view b)) = Inr sz"
      by (cases "parse_chunk_size (take n (bb_view b))")
         (auto simp: body_chunked_iter_def c Pair r Let_def split: prod.splits)
    with l assms c Pair r that(3) [of n] that(4) [of n sz] show ?thesis
      by (auto simp: body_chunked_iter_def length_bb_view Let_def advance_def split: if_splits)
  qed
qed

section \<open>Every step keeps the invariant\<close>

lemma line_ok_cong:
  "rq_method r' = rq_method r \<Longrightarrow> rq_method_name r' = rq_method_name r \<Longrightarrow> rq_target r' = rq_target r \<Longrightarrow>
   rq_major r' = rq_major r \<Longrightarrow> rq_minor r' = rq_minor r \<Longrightarrow> line_ok r' = line_ok r"
  by (simp add: line_ok_def target_ok_def)

lemma request_line_wf:
  assumes "parser_wf p" "ps_state p = SRequestLine" "steps_to (request_line_case p b out) p' b'"
  shows "parser_wf p' \<and> ps_scan p' = 0"
  using assms(3)
proof (cases rule: request_line_stepE)
  case (1 n q err)
  note fr = parse_request_line_frames [OF 1(3)] and ok = parse_request_line_ok [OF 1(3)]
  from assms(1,2) fr ok show ?thesis by (simp add: 1 parser_wf_def frame_simps)
qed

lemma header_line_wf:
  assumes wf: "parser_wf p" and st: "ps_state p \<noteq> SRequestLine"
    and h: "parse_header_line (p\<lparr>ps_scan := k\<rparr>) line = (True, q, err)"
    and hb: "ps_header_bytes q + n \<le> max_header_bytes (ps_limits q)"
  shows "parser_wf (advance_header n q) \<and> ps_state q = ps_state p"
proof -
  note fr = parse_header_line_frames [OF h]
  obtain h' where h': "rq_headers (ps_cur q) = rq_headers (ps_cur p) @ [h']" "header_ok h'"
    "length (rq_headers (ps_cur q)) \<le> max_header_fields (ps_limits p)"
    "ps_cur q = (ps_cur p)\<lparr>rq_headers := rq_headers (ps_cur q)\<rparr>"
    using parse_header_line_ok [OF h] by auto
  have l: "line_ok (ps_cur q) = line_ok (ps_cur p)"
    by (rule line_ok_cong; subst h'(4); simp)
  show ?thesis
    using wf st fr h'(1-3) hb l
    by (cases "ps_state p") (simp_all add: parser_wf_def frame_simps)
qed

lemma finish_headers_wf:
  assumes wf: "parser_wf p" and st: "ps_state p = SHeaders"
    and f: "finish_headers (advance_header 2 (p\<lparr>ps_scan := 2\<rparr>)) = (oc, p', err)"
    and oc: "oc = KBodyPending \<or> oc = KSend100"
  shows "parser_wf p' \<and> ps_scan p' = 0"
proof -
  note fr = finish_headers_frames [OF f]
  have l: "line_ok (ps_cur p') = line_ok (ps_cur p)"
    by (rule line_ok_cong) (use fr in \<open>simp_all add: frame_simps\<close>)
  from finish_headers_pending [OF f oc] wf st fr l show ?thesis
    by (auto simp: parser_wf_def frame_simps)
qed

lemma headers_wf:
  assumes "parser_wf p" "ps_state p = SHeaders" "steps_to (headers_case p b out) p' b'"
  shows "parser_wf p' \<and> ps_scan p' = 0"
  using assms(3)
proof (cases rule: headers_stepE)
  case (finish err)
  with finish_headers_wf [OF assms(1,2)] show ?thesis by blast
next
  case (field n q err)
  with header_line_wf [OF assms(1) _ field(3), of "n + 2"] assms(2) show ?thesis
    by (simp add: frame_simps)
qed

lemma trailer_wf:
  assumes "parser_wf p" "ps_state p = SChunkTrailer" "steps_to (trailer_iter p b out) p' b'"
  shows "parser_wf p' \<and> ps_scan p' = 0"
  using assms(3)
proof (cases rule: trailer_stepE)
  case (1 n q err)
  with header_line_wf [OF assms(1) _ 1(3), of "n + 2"] assms(2) show ?thesis
    by (simp add: frame_simps)
qed

lemma chunk_wf:
  assumes "parser_wf p" "ps_state p = SBodyChunked" "steps_to (body_chunked_iter p b out) p' b'"
  shows "parser_wf p' \<and> ps_scan p' = 0"
  using assms(3)
proof (cases rule: chunk_stepE)
  case (data v)
  with assms(1,2) show ?thesis by (simp add: parser_wf_def chunk_take_def Let_def)
qed (use assms(1,2) in \<open>simp_all add: parser_wf_def frame_simps\<close>)

lemma flat_step_wf:
  assumes "parser_wf p" "steps_to (flat_step p b out) p' b'"
  shows "parser_wf p' \<and> ps_scan p' = 0"
proof (cases "ps_state p")
  case SRequestLine
  with assms(2) request_line_wf [OF assms(1) SRequestLine] show ?thesis by (simp add: flat_step_def)
next
  case SHeaders
  with assms(2) headers_wf [OF assms(1) SHeaders] show ?thesis by (simp add: flat_step_def)
next
  case SBodyFixed
  with assms(2) body_fixed_no_step show ?thesis by (simp add: flat_step_def)
next
  case SBodyChunked
  with assms(2) chunk_wf [OF assms(1) SBodyChunked] show ?thesis by (simp add: flat_step_def)
next
  case SChunkTrailer
  with assms(2) trailer_wf [OF assms(1) SChunkTrailer] show ?thesis by (simp add: flat_step_def)
qed

section \<open>Inverting a return\<close>

abbreviation needs_more :: "request \<Rightarrow> parser \<Rightarrow> bytebuf \<Rightarrow> parse_result" where
  "needs_more out p b \<equiv> \<lparr>pr_status = KNeedMore, pr_out = out, pr_err = [], pr_parser = p, pr_buf = b\<rparr>"

definition emitted :: "parser \<Rightarrow> bytebuf \<Rightarrow> parse_result" where
  "emitted p b = \<lparr>pr_status = KRequest,
     pr_out = (ps_cur p)\<lparr>rq_body := ps_body p, rq_header_bytes := ps_header_bytes p,
                         rq_total_bytes := ps_consumed p\<rparr>,
     pr_err = [], pr_parser = parser_reset p, pr_buf = b\<rparr>"

lemma emit_request_emitted: "emit_request p b = Return (emitted p b)"
  by (simp add: emit_request_def emitted_def ret_def)

lemma ret_Return [simp]:
  "ret st err out p b = Return r \<longleftrightarrow>
     r = \<lparr>pr_status = st, pr_out = out, pr_err = err, pr_parser = p, pr_buf = b\<rparr>"
  by (auto simp: ret_def)

lemma ret_rejected_Return [simp]:
  "ret_rejected err out p b = Return r \<longleftrightarrow>
     r = \<lparr>pr_status = (if ps_too_large p then KTooLarge else KBadRequest), pr_out = out, pr_err = err,
          pr_parser = p, pr_buf = b\<rparr>"
  by (simp add: ret_rejected_def)

text \<open>A status that is neither 400 nor 413.\<close>

definition goes_on :: "parse_result \<Rightarrow> bool" where
  "goes_on r = (pr_status r \<in> {KNeedMore, KRequest, KExpect100})"

lemma no_line_scan: "line_ready p b = (NoLine, p') \<Longrightarrow> p' = p\<lparr>ps_scan := length (bb_view b)\<rparr>"
  by (auto simp: line_ready_eq split: option.splits if_splits)

lemma request_line_returnE:
  assumes "request_line_case p b out = Return r" and "goes_on r"
  shows "fst (line_ready p b) = NoLine \<and> r = needs_more out (p\<lparr>ps_scan := length (bb_view b)\<rparr>) b \<and>
    length (bb_view b) \<le> max_request_line_bytes (ps_limits p)"
  using assms no_line_scan [of p b]
  by (auto simp: request_line_case_def Let_def goes_on_def length_bb_view split: ctl_splits)

lemma headers_returnE:
  assumes "headers_case p b out = Return r" and "goes_on r"
  obtains (more) "fst (line_ready p b) = NoLine" "r = needs_more out (p\<lparr>ps_scan := length (bb_view b)\<rparr>) b"
    "ps_header_bytes p + length (bb_view b) \<le> max_header_bytes (ps_limits p)"
  | (request) q err where "2 \<le> length (bb_view b)"
    "finish_headers (advance_header 2 (p\<lparr>ps_scan := 2\<rparr>)) = (KRequestReady, q, err)"
    "r = emitted q (bb_consume 2 b)"
  | (expect) q err where "2 \<le> length (bb_view b)"
    "finish_headers (advance_header 2 (p\<lparr>ps_scan := 2\<rparr>)) = (KSend100, q, err)"
    "r = \<lparr>pr_status = KExpect100, pr_out = out, pr_err = [], pr_parser = q, pr_buf = bb_consume 2 b\<rparr>"
proof (cases "line_ready p b")
  case (Pair lr p1)
  show ?thesis
  proof (cases lr)
    case (LineReady n)
    note l = line_readyD [OF Pair [unfolded LineReady]]
    show ?thesis
    proof (cases "n = 0")
      case True
      obtain oc q err where "finish_headers (advance_header 2 (p\<lparr>ps_scan := 2\<rparr>)) = (oc, q, err)"
        by (metis prod_cases3)
      with assms l Pair LineReady True that(2) [of q err] that(3) [of q err] show ?thesis
        by (cases oc) (auto simp: headers_case_def Let_def length_bb_view numeral_2_eq_2 goes_on_def
            emit_request_emitted split: if_splits)
    next
      case False
      with assms l Pair LineReady show ?thesis
        by (auto simp: headers_case_def Let_def goes_on_def split: prod.splits if_splits)
    qed
  next
    case BareLF
    with assms Pair show ?thesis by (auto simp: headers_case_def goes_on_def)
  next
    case NoLine
    with assms Pair no_line_scan [of p b p1] that(1) show ?thesis
      by (auto simp: headers_case_def goes_on_def length_bb_view split: if_splits)
  qed
qed

lemma trailer_returnE:
  assumes "trailer_iter p b out = Return r" and "goes_on r"
  obtains (more) "fst (line_ready p b) = NoLine" "r = needs_more out (p\<lparr>ps_scan := length (bb_view b)\<rparr>) b"
    "ps_header_bytes p + length (bb_view b) \<le> max_header_bytes (ps_limits p)"
  | (request) "2 \<le> length (bb_view b)" "r = emitted (advance 2 p) (bb_consume 2 b)"
proof (cases "line_ready p b")
  case (Pair lr p1)
  show ?thesis
  proof (cases lr)
    case (LineReady n)
    with assms line_readyD [OF Pair [unfolded LineReady]] Pair that(2) show ?thesis
      by (auto simp: trailer_iter_def Let_def goes_on_def length_bb_view emit_request_emitted advance_def
          numeral_2_eq_2 split: prod.splits if_splits)
  next
    case BareLF
    with assms Pair show ?thesis by (auto simp: trailer_iter_def goes_on_def)
  next
    case NoLine
    with assms Pair no_line_scan [of p b p1] that(1) show ?thesis
      by (auto simp: trailer_iter_def goes_on_def length_bb_view split: if_splits)
  qed
qed

lemma chunk_returnE:
  assumes "body_chunked_iter p b out = Return r" and "goes_on r"
  obtains (data) "\<not> ps_expect_chunk_crlf p" "ps_chunk_remaining p > 0" "bb_view b = []" "r = needs_more out p b"
  | (more) "ps_expect_chunk_crlf p \<or> ps_chunk_remaining p = 0" "fst (line_ready p b) = NoLine"
    "r = needs_more out (p\<lparr>ps_scan := length (bb_view b)\<rparr>) b"
proof (cases "\<not> ps_expect_chunk_crlf p \<and> ps_chunk_remaining p > 0")
  case True
  with assms that(1) show ?thesis
    by (auto simp: chunk_data_iter Let_def goes_on_def split: if_splits)
next
  case False
  obtain lr p1 where Pair: "line_ready p b = (lr, p1)" by (cases "line_ready p b")
  from False assms Pair have "lr = NoLine"
    by (cases lr) (auto simp: body_chunked_iter_def Let_def goes_on_def split: if_splits sum.splits)
  with False assms Pair no_line_scan [of p b p1] that(2) show ?thesis
    by (auto simp: body_chunked_iter_def goes_on_def split: if_splits)
qed

text \<open>The fixed-length body: the bytes that are there, up to the remaining length, are taken.\<close>

definition fixed_take :: "bytes \<Rightarrow> parser \<Rightarrow> parser" where
  "fixed_take v p = (if v = [] then p
     else p\<lparr>ps_body := ps_body p @ v, ps_consumed := ps_consumed p + length v,
            ps_body_remaining := ps_body_remaining p - length v, ps_scan := 0\<rparr>)"

lemma fixed_take_frames [frame_simps]:
  "ps_limits (fixed_take v p) = ps_limits p" "ps_state (fixed_take v p) = ps_state p"
  "ps_cur (fixed_take v p) = ps_cur p" "ps_header_bytes (fixed_take v p) = ps_header_bytes p"
  "ps_body (fixed_take v p) = ps_body p @ v" "ps_consumed (fixed_take v p) = ps_consumed p + length v"
  "ps_body_remaining (fixed_take v p) = ps_body_remaining p - length v"
  "ps_scan (fixed_take v p) = (if v = [] then ps_scan p else 0)"
  by (simp_all add: fixed_take_def)

lemma fixed_take_twice: "fixed_take w (fixed_take v p) = fixed_take (v @ w) p"
  by (simp add: fixed_take_def)

lemma body_fixed_eq:
  "body_fixed_case p b out =
    (let v = take (ps_body_remaining p) (bb_view b); p' = fixed_take v p;
         b' = (if v = [] then b else bb_consume (length v) b)
     in if length v = ps_body_remaining p then emit_request p' b' else ret KNeedMore [] out p' b')"
  by (cases "bb_view b = []")
     (auto simp: body_fixed_case_def Let_def fixed_take_def min_def simp flip: length_bb_view)

section \<open>Every return keeps the invariant\<close>

text \<open>
  What a step returns when it does not reject: the parser is well formed and keeps its limits and
  its place in the buffer; a request has its bounds; and no byte is lost or invented.
\<close>

definition request_ok :: "parser_limits \<Rightarrow> request \<Rightarrow> bool" where
  "request_ok l r =
     (line_ok r \<and> list_all header_ok (rq_headers r) \<and>
      length (rq_headers r) \<le> max_header_fields l \<and>
      length (rq_body r) \<le> max_body_bytes l \<and>
      rq_header_bytes r \<le> max_header_bytes l + 2 \<and>
      rq_total_bytes r \<le> max_request_bytes l)"

definition return_ok :: "parser \<Rightarrow> bytebuf \<Rightarrow> parse_result \<Rightarrow> bool" where
  "return_ok p b r =
     (let total = ps_consumed p + length (bb_view b); q = pr_parser r; v = bb_view (pr_buf r)
      in parser_wf q \<and> ps_limits q = ps_limits p \<and> ps_scan q \<le> length v \<and>
         (\<exists>k. v = drop k (bb_view b)) \<and>
         (if pr_status r = KRequest
          then request_ok (ps_limits p) (pr_out r) \<and> rq_total_bytes (pr_out r) + length v = total \<and>
               q = parser_reset q
          else ps_consumed q + length v = total))"

lemma emitted_ok:
  assumes "parser_wf q" "ps_state q \<noteq> SRequestLine" "length (ps_body q) \<le> max_body_bytes (ps_limits q)"
    and "ps_limits q = ps_limits p" "bb_view b' = drop k (bb_view b)" "k \<le> length (bb_view b)"
    and "ps_consumed q = ps_consumed p + k" "\<not> oversized p b"
  shows "return_ok p b (emitted q b')"
proof -
  have l: "line_ok ((ps_cur q)\<lparr>rq_body := x, rq_header_bytes := y, rq_total_bytes := z\<rparr>) = line_ok (ps_cur q)"
    for x y z by (rule line_ok_cong) simp_all
  have r: "parser_reset (parser_reset q) = parser_reset q" by (simp add: parser_reset_def)
  from assms show ?thesis
    unfolding return_ok_def Let_def
    by (auto simp: emitted_def parser_wf_reset r l request_ok_def parser_wf_def oversized_def)
       (auto simp: parser_reset_def request_init_def)
qed

lemma needs_more_ok: "parser_wf p \<Longrightarrow> return_ok p b (needs_more out (p\<lparr>ps_scan := length (bb_view b)\<rparr>) b)"
  by (auto simp: return_ok_def Let_def intro: exI [of _ 0])

lemma finish_headers_ready:
  assumes "finish_headers p = (KRequestReady, p', err)"
  shows "ps_state p' = ps_state p"
  using assms by (auto simp: finish_headers_def Let_def
      split: option.splits if_splits sum.splits prod.splits dest!: finish_expect_body)

lemma headers_return_ok:
  assumes "headers_case p b out = Return r" "goes_on r" "parser_wf p" "ps_state p = SHeaders" "\<not> oversized p b"
  shows "return_ok p b r"
  using assms(1,2)
proof (cases rule: headers_returnE)
  case more
  then show ?thesis using needs_more_ok [OF assms(3)] by simp
next
  case (request q err)
  note fr = finish_headers_frames [OF request(2)]
  have l: "line_ok (ps_cur q) = line_ok (ps_cur p)"
    by (rule line_ok_cong) (use fr in \<open>simp_all add: frame_simps\<close>)
  have st: "ps_state q = SHeaders" using finish_headers_ready [OF request(2)] assms(4) by (simp add: frame_simps)
  have wf: "parser_wf (q\<lparr>ps_state := SChunkTrailer\<rparr>)"
    using assms(3,4) fr l by (simp add: parser_wf_def frame_simps)
  have e: "emitted q b' = emitted (q\<lparr>ps_state := SChunkTrailer\<rparr>) b'" for b'
    by (simp add: emitted_def parser_reset_def)
  show ?thesis
    unfolding request(3) e
    by (rule emitted_ok [where k = 2, OF wf])
       (use assms(3-5) fr request(1) in \<open>simp_all add: frame_simps view_simps parser_wf_def\<close>)
next
  case (expect q err)
  note fr = finish_headers_frames [OF expect(2)]
  from finish_headers_wf [OF assms(3,4) expect(2)] fr expect(1) show ?thesis
    by (auto simp: expect(3) return_ok_def Let_def frame_simps view_simps)
qed

lemma trailer_return_ok:
  assumes "trailer_iter p b out = Return r" "goes_on r" "parser_wf p" "ps_state p = SChunkTrailer" "\<not> oversized p b"
  shows "return_ok p b r"
  using assms(1,2)
proof (cases rule: trailer_returnE)
  case more
  then show ?thesis using needs_more_ok [OF assms(3)] by simp
next
  case request
  show ?thesis
    unfolding request(2)
    by (rule emitted_ok [where k = 2])
       (use assms(3-5) request(1) in \<open>simp_all add: frame_simps view_simps parser_wf_def\<close>)
qed

lemma body_fixed_return_ok:
  assumes "body_fixed_case p b out = Return r" "parser_wf p" "ps_state p = SBodyFixed" "\<not> oversized p b"
    "ps_scan p \<le> length (bb_view b)"
  shows "return_ok p b r"
proof -
  let ?v = "take (ps_body_remaining p) (bb_view b)"
  let ?b = "if ?v = [] then b else bb_consume (length ?v) b"
  have len: "length (ps_body p) + ps_body_remaining p \<le> max_body_bytes (ps_limits p)" "0 < ps_body_remaining p"
    using assms(2,3) by (simp_all add: parser_wf_def)
  have b: "bb_view ?b = drop (length ?v) (bb_view b)" by (simp add: view_simps)
  show ?thesis
  proof (cases "length ?v = ps_body_remaining p")
    case True
    have e: "emitted (fixed_take ?v p) ?b = emitted ((fixed_take ?v p)\<lparr>ps_state := SChunkTrailer\<rparr>) ?b"
      by (simp add: emitted_def parser_reset_def)
    have "r = emitted (fixed_take ?v p) ?b"
      using assms(1) True by (simp add: body_fixed_eq Let_def emit_request_emitted)
    then show ?thesis
      unfolding e
      by (simp only:, intro emitted_ok [where k = "length ?v", OF _ _ _ _ b])
         (use assms(2-4) len True in \<open>simp_all add: frame_simps parser_wf_def\<close>)
  next
    case False
    then have "r = needs_more out (fixed_take ?v p) ?b"
      using assms(1) by (simp only: body_fixed_eq Let_def if_False ret_Return)
    moreover have "parser_wf (fixed_take ?v p)"
      using assms(2,3) len False by (auto simp: parser_wf_def frame_simps)
    ultimately show ?thesis
      using assms(5) len(2) b
      by (cases "bb_view b = []") (auto simp: return_ok_def Let_def frame_simps)
  qed
qed

lemma flat_step_return_ok:
  assumes "flat_step p b out = Return r" "goes_on r" "parser_wf p" "\<not> oversized p b"
    "ps_scan p \<le> length (bb_view b)"
  shows "return_ok p b r"
proof (cases "ps_state p")
  case SRequestLine
  with assms request_line_returnE [of p b out r] needs_more_ok [OF assms(3)] show ?thesis
    by (auto simp: flat_step_def)
next
  case SBodyChunked
  with assms(1) have "body_chunked_iter p b out = Return r" by (simp add: flat_step_def)
  from this assms(2) show ?thesis
  proof (cases rule: chunk_returnE)
    case data
    then show ?thesis
      using needs_more_ok [OF assms(3), of b out] assms(5)
      by (auto simp: return_ok_def Let_def assms(3))
  qed (use needs_more_ok [OF assms(3)] in simp)
qed (use assms headers_return_ok trailer_return_ok body_fixed_return_ok in \<open>simp_all add: flat_step_def\<close>)

section \<open>The invariant of a whole call\<close>

lemma flat_step_suffix:
  assumes "steps_to (flat_step p b out) p' b'"
  shows "\<exists>k. bb_view b' = drop k (bb_view b)"
  using assms body_fixed_no_step [of p b out p' b']
  by (auto simp: flat_step_def view_simps split: parser_state.splits
      elim!: request_line_stepE headers_stepE chunk_stepE trailer_stepE)

lemma parse_return_ok:
  assumes "parser_wf p" "ps_scan p \<le> length (bb_view b)" "goes_on (parse p b out)"
  shows "return_ok p b (parse p b out)"
proof -
  define I where "I q c \<longleftrightarrow> parser_wf q \<and> ps_scan q \<le> length (bb_view c) \<and> balanced p b q c \<and>
    (\<exists>k. bb_view c = drop k (bb_view b))" for q c
  have "goes_on (parse_loop p b out) \<longrightarrow> return_ok p b (parse_loop p b out)"
  proof (rule parse_loop_rule [where I = I])
    show "I p b" using assms(1,2) by (auto simp: I_def balanced_def intro: exI [of _ 0])
  next
    show "goes_on (oversized_result q c out) \<longrightarrow> return_ok p b (oversized_result q c out)" for q c
      by (simp add: goes_on_def oversized_result_def)
  next
    fix q c q' c' assume "I q c" "\<not> oversized q c" "steps_to (flat_step q c out) q' c'"
    with flat_step_wf [of q c out q' c'] flat_step_balanced [of q c out q' c'] flat_step_suffix [of q c out q' c']
    show "I q' c'" by (auto simp: I_def balanced_def)
  next
    fix q c r assume I: "I q c" "\<not> oversized q c" "flat_step q c out = Return r"
    show "goes_on r \<longrightarrow> return_ok p b r"
    proof
      assume "goes_on r"
      with I flat_step_return_ok [of q c out r] have "return_ok q c r" by (simp add: I_def)
      with I(1) show "return_ok p b r" by (auto simp: I_def return_ok_def balanced_def Let_def split: if_splits)
    qed
  qed
  with assms(3) show ?thesis by (simp add: parse_def)
qed

end
