(* ===== verification/Parser_Resume.thy ===== *)
theory Parser_Resume
  imports Parser_Inv
begin

text \<open>
  The parser does not depend on how the bytes arrive: feeding them in pieces gives what feeding
  them at once gives.  The argument is one lemma per step of the parser on a buffer that shows more
  bytes, lifted to \<open>parse\<close>, and then to whole sequences of pieces through the interface
  \<open>incremental_reader\<close>.
\<close>

section \<open>A step on a longer buffer\<close>

definition ctl_ext :: "bytes \<Rightarrow> loop_ctl \<Rightarrow> loop_ctl \<Rightarrow> bool" where
  "ctl_ext ys c1 c2 =
     (case c1 of
        Continue p b \<Rightarrow> (\<exists>b'. c2 = Continue p b' \<and> bb_view b' = bb_view b @ ys)
      | Break p b \<Rightarrow> (\<exists>b'. c2 = Break p b' \<and> bb_view b' = bb_view b @ ys)
      | Return r \<Rightarrow> (\<exists>b'. c2 = Return (r\<lparr>pr_buf := b'\<rparr>) \<and> bb_view b' = bb_view (pr_buf r) @ ys))"

lemma ctl_ext_simps [simp]:
  "ctl_ext ys (Continue p b) c2 \<longleftrightarrow> (\<exists>b'. c2 = Continue p b' \<and> bb_view b' = bb_view b @ ys)"
  "ctl_ext ys (Break p b) c2 \<longleftrightarrow> (\<exists>b'. c2 = Break p b' \<and> bb_view b' = bb_view b @ ys)"
  "ctl_ext ys (ret st err out p b) (ret st err out p b') \<longleftrightarrow> bb_view b' = bb_view b @ ys"
  "ctl_ext ys (ret_rejected err out p b) (ret_rejected err out p b') \<longleftrightarrow> bb_view b' = bb_view b @ ys"
  "ctl_ext ys (emit_request p b) (emit_request p b') \<longleftrightarrow> bb_view b' = bb_view b @ ys"
  by (auto simp: ctl_ext_def ret_def ret_rejected_def emit_request_def)

lemma drop_consume_ext:
  "bb_view b2 = bb_view b @ ys \<Longrightarrow> n \<le> length (bb_view b) \<Longrightarrow>
     bb_view (bb_consume n b2) = bb_view (bb_consume n b) @ ys"
  by (simp add: view_simps)

lemma line_ready_ext:
  assumes "bb_view b2 = bb_view b @ ys" and "ps_scan p \<le> length (bb_view b)"
    and "line_ready p b = (r, p')" and "r \<noteq> NoLine"
  shows "line_ready p b2 = (r, p')"
proof -
  have pos: "scan_pos p (length (bb_view b)) = ps_scan p" "scan_pos p (length (bb_view b2)) = ps_scan p"
    using assms(1,2) by (auto simp: scan_pos_def)
  obtain i where i: "sv_find LF (ps_scan p) (bb_view b) = Some i"
    using assms(3,4) by (cases "sv_find LF (ps_scan p) (bb_view b)") (auto simp: line_ready_eq pos)
  then obtain j where "index_of LF (drop (ps_scan p) (bb_view b)) = Some j" "i = ps_scan p + j"
    by (auto simp: sv_find_def)
  then have i2: "sv_find LF (ps_scan p) (bb_view b2) = Some i"
    using assms(1,2) by (simp add: sv_find_def index_of_append_Some)
  have "i - 1 < length (bb_view b)" using sv_find_SomeD [OF i] by linarith
  then have "bb_view b2 ! (i - 1) = bb_view b ! (i - 1)"
    using assms(1) by (simp add: nth_append)
  with i i2 assms(3) show ?thesis by (simp add: line_ready_eq pos)
qed

lemma line_ready_more:
  assumes "bb_view b2 = bb_view b @ ys" and "ps_scan p \<le> length (bb_view b)"
    and "line_ready p b = (NoLine, p')"
  shows "line_ready p b2 = line_ready p' b2"
proof -
  let ?n = "length (bb_view b)"
  have pos: "scan_pos p ?n = ps_scan p" "scan_pos p (length (bb_view b2)) = ps_scan p"
    using assms(1,2) by (auto simp: scan_pos_def)
  have None: "sv_find LF (ps_scan p) (bb_view b) = None" and p': "p' = p\<lparr>ps_scan := ?n\<rparr>"
    using assms(3) by (auto simp: line_ready_eq pos split: option.splits if_splits)
  have pos': "scan_pos p' (length (bb_view b2)) = ?n"
    using assms(1) by (auto simp: scan_pos_def p')
  have "LF \<notin> set (drop (ps_scan p) (bb_view b))" using None by (simp add: sv_find_None)
  then have "sv_find LF (ps_scan p) (bb_view b2) = sv_find LF ?n (bb_view b2)"
    using assms(1,2) by (simp add: sv_find_def index_of_append_notin option.map_comp comp_def)
  then show ?thesis
    by (cases "sv_find LF ?n (bb_view b2)") (simp_all add: line_ready_eq pos pos' [unfolded p'] p')
qed

lemma line_ready_cases:
  obtains (line) n p' where "line_ready p b = (LineReady n, p')" "n + 2 \<le> length (bb_view b)"
  | (bare) p' where "line_ready p b = (BareLF, p')"
  | (none) "line_ready p b = (NoLine, p\<lparr>ps_scan := length (bb_view b)\<rparr>)"
proof (cases "line_ready p b")
  case (Pair r p')
  show thesis
  proof (cases r)
    case (LineReady n)
    with Pair line_readyD [of p b n p'] that(1) show ?thesis by (auto simp: length_bb_view)
  next
    case BareLF
    with Pair that(2) show ?thesis by auto
  next
    case NoLine
    with Pair that(3) show ?thesis
      by (auto simp: line_ready_eq split: option.splits if_splits)
  qed
qed

text \<open>
  The four parts of the parser that read lines.  A complete line or a bare line feed is treated the
  same way when more bytes follow; where no line is complete yet, the parser has only moved its
  scan cursor, and looks at the longer buffer as it would have without having looked before.
\<close>

lemma request_line_ext:
  assumes "bb_view b2 = bb_view b @ ys" and "ps_scan p \<le> length (bb_view b)"
  shows "if fst (line_ready p b) = NoLine
    then request_line_case p b2 out = request_line_case (p\<lparr>ps_scan := length (bb_view b)\<rparr>) b2 out
    else ctl_ext ys (request_line_case p b out) (request_line_case p b2 out)"
proof (cases rule: line_ready_cases [of p b])
  case (line n p')
  from line_ready_ext [OF assms line(1)] line assms(1) show ?thesis
    by (auto simp: request_line_case_def Let_def drop_consume_ext split: prod.split)
next
  case (bare p')
  from line_ready_ext [OF assms bare] bare assms(1) show ?thesis
    by (simp add: request_line_case_def)
next
  case none
  from line_ready_more [OF assms none] none show ?thesis by (simp add: request_line_case_def)
qed

lemma headers_ext:
  assumes "bb_view b2 = bb_view b @ ys" and "ps_scan p \<le> length (bb_view b)"
  shows "if fst (line_ready p b) = NoLine
    then headers_case p b2 out = headers_case (p\<lparr>ps_scan := length (bb_view b)\<rparr>) b2 out
    else ctl_ext ys (headers_case p b out) (headers_case p b2 out)"
proof (cases rule: line_ready_cases [of p b])
  case (line n p')
  from line_ready_ext [OF assms line(1)] line assms(1) show ?thesis
    by (auto simp: headers_case_def Let_def drop_consume_ext split: prod.split head_outcome.split)
next
  case (bare p')
  from line_ready_ext [OF assms bare] bare assms(1) show ?thesis by (simp add: headers_case_def)
next
  case none
  from line_ready_more [OF assms none] none show ?thesis by (simp add: headers_case_def)
qed

lemma trailer_ext:
  assumes "bb_view b2 = bb_view b @ ys" and "ps_scan p \<le> length (bb_view b)"
  shows "if fst (line_ready p b) = NoLine
    then trailer_iter p b2 out = trailer_iter (p\<lparr>ps_scan := length (bb_view b)\<rparr>) b2 out
    else ctl_ext ys (trailer_iter p b out) (trailer_iter p b2 out)"
proof (cases rule: line_ready_cases [of p b])
  case (line n p')
  from line_ready_ext [OF assms line(1)] line assms(1) show ?thesis
    by (auto simp: trailer_iter_def Let_def drop_consume_ext split: prod.split)
next
  case (bare p')
  from line_ready_ext [OF assms bare] bare assms(1) show ?thesis by (simp add: trailer_iter_def)
next
  case none
  from line_ready_more [OF assms none] none show ?thesis by (simp add: trailer_iter_def)
qed

lemma chunk_line_ext:
  assumes "bb_view b2 = bb_view b @ ys" and "ps_scan p \<le> length (bb_view b)"
    and "ps_expect_chunk_crlf p \<or> ps_chunk_remaining p = 0"
  shows "if fst (line_ready p b) = NoLine
    then body_chunked_iter p b2 out = body_chunked_iter (p\<lparr>ps_scan := length (bb_view b)\<rparr>) b2 out
    else ctl_ext ys (body_chunked_iter p b out) (body_chunked_iter p b2 out)"
proof (cases rule: line_ready_cases [of p b])
  case (line n p')
  note l2 = line_ready_ext [OF assms(1,2) line(1), simplified]
  have t: "take n (bb_view b2) = take n (bb_view b)" using assms(1) line(2) by simp
  show ?thesis
  proof (cases "ps_expect_chunk_crlf p")
    case True
    with l2 line assms(1) show ?thesis by (simp add: body_chunked_iter_def drop_consume_ext)
  next
    case False
    with l2 line assms(1,3) show ?thesis
      by (simp add: body_chunked_iter_def Let_def t drop_consume_ext split: sum.split prod.split)
  qed
next
  case (bare p')
  from line_ready_ext [OF assms(1,2) bare] bare assms show ?thesis by (auto simp: body_chunked_iter_def)
next
  case none
  from line_ready_more [OF assms(1,2) none] none assms(3) show ?thesis
    by (auto simp: body_chunked_iter_def)
qed

section \<open>Only the visible bytes of a buffer matter\<close>

definition result_view :: "parse_result \<Rightarrow> parse_status \<times> request \<times> bytes \<times> parser \<times> bytes" where
  "result_view r = (pr_status r, pr_out r, pr_err r, pr_parser r, bb_view (pr_buf r))"

lemma line_ready_cong:
  assumes "bb_view c = bb_view b"
  shows "line_ready p c = line_ready p b"
  unfolding line_ready_eq assms by (rule refl)

lemma flat_step_cong:
  assumes "bb_view c = bb_view b"
  shows "ctl_ext [] (flat_step p b out) (flat_step p c out)"
proof -
  note lr = line_ready_cong [OF assms, of p]
  have sz: "bb_size c = bb_size b" by (simp add: assms flip: length_bb_view)
  have con: "bb_view (bb_consume n c) = bb_view (bb_consume n b)" for n
    by (simp add: view_simps assms)
  obtain r p' where "line_ready p b = (r, p')" by (cases "line_ready p b")
  then show ?thesis
    by (cases "ps_state p"; cases r)
       (simp_all add: flat_step_def step_defs lr sz assms con Let_def
        split: prod.split head_outcome.split sum.split)
qed

text \<open>Where two runs of \<open>parse\<close> continue with equal visible bytes after one step, they agree.\<close>

definition same_after :: "loop_ctl \<Rightarrow> loop_ctl \<Rightarrow> request \<Rightarrow> bool" where
  "same_after c1 c2 out =
     (case (c1, c2) of
        (Return r1, Return r2) \<Rightarrow> result_view r1 = result_view r2
      | (Return r, Continue p b) \<Rightarrow> False
      | (Return r, Break p b) \<Rightarrow> False
      | (Continue p b, Return r) \<Rightarrow> False
      | (Break p b, Return r) \<Rightarrow> False
      | (Continue p b, Continue q c) \<Rightarrow> result_view (parse_loop p b out) = result_view (parse_loop q c out)
      | (Continue p b, Break q c) \<Rightarrow> False
      | (Break p b, Continue q c) \<Rightarrow> False
      | (Break p b, Break q c) \<Rightarrow> result_view (parse_loop p b out) = result_view (parse_loop q c out))"

lemma parse_loop_same_after:
  assumes "\<not> oversized p b" and "\<not> oversized q c" and "same_after (flat_step p b out) (flat_step q c out) out"
  shows "result_view (parse_loop p b out) = result_view (parse_loop q c out)"
  using assms
  by (simp add: parse_loop_flat [of p b] parse_loop_flat [of q c] same_after_def split: loop_ctl.splits)

lemma same_after_ctl_ext:
  assumes "ctl_ext [] c1 c2"
    and "\<And>p b b'. steps_to c1 p b \<Longrightarrow> bb_view b' = bb_view b \<Longrightarrow>
           result_view (parse_loop p b out) = result_view (parse_loop p b' out)"
  shows "same_after c1 c2 out"
proof (cases c1)
  case (Continue p b)
  then obtain b' where "c2 = Continue p b'" "bb_view b' = bb_view b" using assms(1) by auto
  with Continue assms(2) [of p b b'] show ?thesis by (simp add: same_after_def)
next
  case (Break p b)
  then obtain b' where "c2 = Break p b'" "bb_view b' = bb_view b" using assms(1) by auto
  with Break assms(2) [of p b b'] show ?thesis by (simp add: same_after_def)
next
  case (Return r)
  then obtain b' where "c2 = Return (r\<lparr>pr_buf := b'\<rparr>)" "bb_view b' = bb_view (pr_buf r)"
    using assms(1) by (auto simp: ctl_ext_def)
  with Return show ?thesis by (simp add: same_after_def result_view_def)
qed

lemma parse_loop_cong:
  "bb_view c = bb_view b \<Longrightarrow> result_view (parse_loop p b out) = result_view (parse_loop p c out)"
proof (induction "length (bb_view b)" arbitrary: p b c rule: less_induct)
  case less
  have over: "oversized p c = oversized p b" by (simp add: oversized_def less.prems)
  show ?case
  proof (cases "oversized p b")
    case True
    with over less.prems show ?thesis
      by (simp add: parse_loop_flat [of p b] parse_loop_flat [of p c] oversized_result_def result_view_def)
  next
    case False
    have "same_after (flat_step p b out) (flat_step p c out) out"
      by (rule same_after_ctl_ext [OF flat_step_cong [OF less.prems]])
         (rule less.hyps [OF flat_step_progress])
    with False over show ?thesis by (intro parse_loop_same_after) simp_all
  qed
qed

lemma parse_loop_same_step:
  assumes "\<not> oversized p b" and "\<not> oversized q c" and "ctl_ext [] (flat_step p b out) (flat_step q c out)"
  shows "result_view (parse_loop p b out) = result_view (parse_loop q c out)"
  using assms(1,2) same_after_ctl_ext [OF assms(3) parse_loop_cong] by (rule parse_loop_same_after)

lemma parse_loop_ext_step:
  assumes "\<not> oversized p b2" and "ctl_ext ys (flat_step p b out) (flat_step p b2 out)"
    and "steps_to (flat_step p b out) p' b'" and "bb_view c = bb_view b' @ ys"
  shows "result_view (parse_loop p b2 out) = result_view (parse_loop p' c out)"
proof -
  from assms(2,3) obtain b2' where "steps_to (flat_step p b2 out) p' b2'" "bb_view b2' = bb_view b' @ ys"
    by (auto simp: steps_to_def)
  then have "parse_loop p b2 out = parse_loop p' b2' out" "bb_view c = bb_view b2'"
    using assms(1,4) by (auto simp: parse_loop_flat [of p b2] steps_to_def)
  then show ?thesis using parse_loop_cong [of c b2' p' out] by simp
qed

section \<open>Body bytes taken in two goes\<close>

lemma chunk_take_twice:
  "length v < ps_chunk_remaining p \<Longrightarrow> chunk_take w (chunk_take v p) = chunk_take (v @ w) p"
  by (simp add: chunk_take_def Let_def)

text \<open>A piece of a chunk that ends before the chunk does: the rest is taken by the next step.\<close>

lemma chunk_data_split:
  assumes st: "ps_state p = SBodyChunked" "\<not> ps_expect_chunk_crlf p"
    and lt: "length (bb_view b) < ps_chunk_remaining p" and ys: "ys \<noteq> []"
    and fits: "length (ps_body p) + ps_chunk_remaining p \<le> max_body_bytes (ps_limits p)"
    and more: "bb_view b2 = bb_view b @ ys" and over: "\<not> oversized p b2"
    and p': "p' = chunk_take (bb_view b) p" and vc: "bb_view c = ys"
  shows "result_view (parse_loop p b2 out) = result_view (parse_loop p' c out)"
proof -
  let ?rem = "ps_chunk_remaining p" and ?w = "take (ps_chunk_remaining p - length (bb_view b)) ys"
  have st': "ps_state p' = SBodyChunked" "\<not> ps_expect_chunk_crlf p'"
    "ps_chunk_remaining p' = ?rem - length (bb_view b)" "ps_body p' = ps_body p @ bb_view b"
    "ps_limits p' = ps_limits p"
    using lt st by (simp_all add: p' chunk_take_def Let_def)
  have fs: "flat_step p = body_chunked_iter p" "flat_step p' = body_chunked_iter p'"
    using st(1) st'(1) by (simp_all add: flat_step_def fun_eq_iff)
  have pos: "ps_chunk_remaining p' > 0" "?rem > 0" using lt st'(3) by simp_all
  have w: "take ?rem (bb_view b2) = bb_view b @ ?w" using more lt by simp
  have ne: "?w \<noteq> []" using lt ys by simp
  have le: "length (ps_body p) + length (bb_view b @ ?w) \<le> max_body_bytes (ps_limits p)"
    using fits lt by simp
  have f1: "flat_step p b2 out = Continue (chunk_take (bb_view b @ ?w) p) (bb_consume (length (bb_view b @ ?w)) b2)"
    unfolding fs chunk_data_iter [OF st(2) pos(2)] Let_def w using ne le by auto
  have f2: "flat_step p' c out = Continue (chunk_take ?w p') (bb_consume (length ?w) c)"
    unfolding fs chunk_data_iter [OF st'(2) pos(1)] Let_def vc st'(3-5) using ne le by simp
  have "chunk_take ?w p' = chunk_take (bb_view b @ ?w) p"
    unfolding p' using lt by (rule chunk_take_twice)
  then have "ctl_ext [] (flat_step p b2 out) (flat_step p' c out)"
    unfolding f1 f2 using more vc by (simp add: bb_view_consume)
  moreover have "\<not> oversized p' c"
    using over more vc lt by (simp add: oversized_def p' chunk_take_def Let_def)
  ultimately show ?thesis using over by (intro parse_loop_same_step)
qed

lemma chunk_data_resume:
  assumes st: "ps_state p = SBodyChunked" "\<not> ps_expect_chunk_crlf p" "ps_chunk_remaining p > 0"
    and fits: "length (ps_body p) + ps_chunk_remaining p \<le> max_body_bytes (ps_limits p)"
    and more: "bb_view b2 = bb_view b @ ys" and over: "\<not> oversized p b2"
    and step: "steps_to (flat_step p b out) p' b'" and c: "bb_view c = bb_view b' @ ys"
  shows "result_view (parse_loop p b2 out) = result_view (parse_loop p' c out)"
proof -
  let ?rem = "ps_chunk_remaining p"
  note it = chunk_data_iter [OF st(2,3), of _ out]
  have fs: "flat_step p = body_chunked_iter p" using st(1) by (simp add: flat_step_def fun_eq_iff)
  let ?v = "take ?rem (bb_view b)"
  have v: "?v \<noteq> []" "length (ps_body p) + length ?v \<le> max_body_bytes (ps_limits p)"
    and p': "p' = chunk_take ?v p" and b': "b' = bb_consume (length ?v) b"
    using step by (auto simp: fs it [of b] Let_def split: if_splits)
  show ?thesis
  proof (cases "?rem \<le> length (bb_view b) \<or> ys = []")
    case True
    then have t: "take ?rem (bb_view b2) = ?v" using more by auto
    have f1: "flat_step p b out = Continue (chunk_take ?v p) (bb_consume (length ?v) b)"
      unfolding fs it [of b] Let_def using v by auto
    have f2: "flat_step p b2 out = Continue (chunk_take ?v p) (bb_consume (length ?v) b2)"
      unfolding fs it [of b2] Let_def t using v by auto
    have "ctl_ext ys (flat_step p b out) (flat_step p b2 out)"
      unfolding f1 f2 by (simp add: drop_consume_ext [OF more])
    from parse_loop_ext_step [OF over this step c] show ?thesis .
  next
    case False
    then have lt: "length (bb_view b) < ?rem" and ys: "ys \<noteq> []" by auto
    then have vb: "?v = bb_view b" by simp
    have vc: "bb_view c = ys" using c b' by (simp add: vb view_simps)
    from chunk_data_split [OF st(1,2) lt ys fits more over p' [unfolded vb] vc] show ?thesis .
  qed
qed

section \<open>A step, resumed\<close>

lemma line_states_ext:
  assumes "bb_view b2 = bb_view b @ ys" "ps_scan p \<le> length (bb_view b)"
    and "ps_state p \<noteq> SBodyFixed"
    and "ps_state p = SBodyChunked \<longrightarrow> ps_expect_chunk_crlf p \<or> ps_chunk_remaining p = 0"
  shows "if fst (line_ready p b) = NoLine
    then flat_step p b2 out = flat_step (p\<lparr>ps_scan := length (bb_view b)\<rparr>) b2 out
    else ctl_ext ys (flat_step p b out) (flat_step p b2 out)"
  using assms request_line_ext [OF assms(1,2), of out] headers_ext [OF assms(1,2), of out]
    trailer_ext [OF assms(1,2), of out] chunk_line_ext [OF assms(1,2), of out]
  by (cases "ps_state p") (simp_all add: flat_step_def)

lemma no_line_returns:
  assumes "fst (line_ready p b) = NoLine" "ps_state p \<noteq> SBodyFixed"
    and "ps_state p = SBodyChunked \<longrightarrow> ps_expect_chunk_crlf p \<or> ps_chunk_remaining p = 0"
  shows "\<exists>st err. st \<in> {KNeedMore, KTooLarge} \<and>
    flat_step p b out = ret st err out (p\<lparr>ps_scan := length (bb_view b)\<rparr>) b \<and> (st = KNeedMore \<longrightarrow> err = [])"
proof -
  from assms(1) have "line_ready p b = (NoLine, p\<lparr>ps_scan := length (bb_view b)\<rparr>)"
    using no_line_scan [of p b "snd (line_ready p b)"] by (cases "line_ready p b") simp
  with assms(2,3) show ?thesis by (cases "ps_state p") (auto simp: flat_step_def step_defs)
qed

lemma flat_step_resume:
  assumes wf: "parser_wf p" and scan: "ps_scan p \<le> length (bb_view b)"
    and more: "bb_view b2 = bb_view b @ ys" and over: "\<not> oversized p b2"
    and step: "steps_to (flat_step p b out) p' b'" and c: "bb_view c = bb_view b' @ ys"
  shows "result_view (parse_loop p b2 out) = result_view (parse_loop p' c out)"
proof (cases "ps_state p = SBodyChunked \<and> \<not> ps_expect_chunk_crlf p \<and> ps_chunk_remaining p > 0")
  case True
  with wf have "length (ps_body p) + ps_chunk_remaining p \<le> max_body_bytes (ps_limits p)"
    by (simp add: parser_wf_def)
  with True chunk_data_resume [OF _ _ _ _ more over step c] show ?thesis by simp
next
  case False
  have nf: "ps_state p \<noteq> SBodyFixed" using step body_fixed_no_step by (auto simp: flat_step_def)
  from False have cl: "ps_state p = SBodyChunked \<longrightarrow> ps_expect_chunk_crlf p \<or> ps_chunk_remaining p = 0"
    by auto
  have "fst (line_ready p b) \<noteq> NoLine" using no_line_returns [OF _ nf cl, of b out] step by auto
  with line_states_ext [OF more scan nf cl] have "ctl_ext ys (flat_step p b out) (flat_step p b2 out)" by simp
  from parse_loop_ext_step [OF over this step c] show ?thesis .
qed

lemma body_fixed_resume:
  assumes st: "ps_state p = SBodyFixed" and r: "flat_step p b out = Return r" "pr_status r = KNeedMore"
    and more: "bb_view b2 = bb_view b @ ys" and over: "\<not> oversized p b2"
    and c: "bb_view c = bb_view (pr_buf r) @ ys"
  shows "result_view (parse_loop p b2 out) = result_view (parse_loop (pr_parser r) c out)"
proof -
  let ?n = "ps_body_remaining p" and ?v = "bb_view b"
  have lt: "length ?v < ?n"
  proof (rule ccontr)
    assume "\<not> length ?v < ?n"
    with r st show False by (auto simp: flat_step_def body_fixed_eq Let_def emit_request_emitted emitted_def)
  qed
  then have q: "pr_parser r = fixed_take ?v p" and vb: "bb_view (pr_buf r) = []"
    using r st by (auto simp: flat_step_def body_fixed_eq Let_def bb_view_consume)
  have vc: "bb_view c = ys" using c vb by simp
  have st': "ps_state (fixed_take ?v p) = SBodyFixed" by (simp add: frame_simps st)
  let ?w = "take (?n - length ?v) ys"
  have w: "take ?n (bb_view b2) = ?v @ ?w" "fixed_take ?w (fixed_take ?v p) = fixed_take (?v @ ?w) p"
    using more lt by (simp_all add: fixed_take_twice)
  let ?u = "take ?n (bb_view b2)"
  define c' where "c' = (if ?w = [] then c else bb_consume (length ?w) c)"
  define b2' where "b2' = (if ?u = [] then b2 else bb_consume (length ?u) b2)"
  have "flat_step p b2 out =
      (if length ?u = ?n then emit_request (fixed_take ?u p) b2' else ret KNeedMore [] out (fixed_take ?u p) b2')"
    by (simp only: flat_step_def st parser_state.case body_fixed_eq Let_def b2'_def)
  moreover have "flat_step (fixed_take ?v p) c out =
      (if length ?u = ?n then emit_request (fixed_take ?u p) c' else ret KNeedMore [] out (fixed_take ?u p) c')"
    unfolding flat_step_def st' parser_state.case body_fixed_eq Let_def fixed_take_frames vc w c'_def
    using lt st by auto
  moreover have "bb_view c' = bb_view b2'"
    using lt more vc by (auto simp: bb_view_consume w c'_def b2'_def)
  ultimately have "ctl_ext [] (flat_step p b2 out) (flat_step (fixed_take ?v p) c out)" by simp
  moreover have "\<not> oversized (fixed_take ?v p) c"
    using over more vc by (simp add: oversized_def frame_simps)
  ultimately show ?thesis unfolding q using over by (intro parse_loop_same_step)
qed

lemma flat_step_return_resume:
  assumes wf: "parser_wf p" and scan: "ps_scan p \<le> length (bb_view b)"
    and more: "bb_view b2 = bb_view b @ ys" and over: "\<not> oversized p b2"
    and r: "flat_step p b out = Return r" "pr_status r = KNeedMore" and c: "bb_view c = bb_view (pr_buf r) @ ys"
  shows "result_view (parse_loop p b2 out) = result_view (parse_loop (pr_parser r) c out)"
proof -
  consider (fixed) "ps_state p = SBodyFixed"
    | (data) "ps_state p = SBodyChunked" "\<not> ps_expect_chunk_crlf p" "ps_chunk_remaining p > 0"
    | (lines) "ps_state p \<noteq> SBodyFixed"
        "ps_state p = SBodyChunked \<longrightarrow> ps_expect_chunk_crlf p \<or> ps_chunk_remaining p = 0" by auto
  then show ?thesis
  proof cases
    case fixed
    from body_fixed_resume [OF this r more over c] show ?thesis .
  next
    case data
    with r have "r = needs_more out p b" by (auto simp: flat_step_def chunk_data_iter Let_def split: if_splits)
    with c more show ?thesis using parse_loop_cong [of c b2 p out] by simp
  next
    case lines
    let ?q = "p\<lparr>ps_scan := length (bb_view b)\<rparr>"
    have none: "fst (line_ready p b) = NoLine"
    proof (cases "ps_state p")
      case SBodyChunked
      with r have "body_chunked_iter p b out = Return r" "goes_on r" by (simp_all add: flat_step_def goes_on_def)
      then show ?thesis by (cases rule: chunk_returnE) (use lines SBodyChunked in auto)
    next
      case SHeaders
      with r have "headers_case p b out = Return r" "goes_on r" by (simp_all add: flat_step_def goes_on_def)
      then show ?thesis by (cases rule: headers_returnE) (use r(2) in \<open>auto simp: emitted_def\<close>)
    next
      case SChunkTrailer
      with r have "trailer_iter p b out = Return r" "goes_on r" by (simp_all add: flat_step_def goes_on_def)
      then show ?thesis by (cases rule: trailer_returnE) (use r(2) in \<open>auto simp: emitted_def\<close>)
    qed (use r lines request_line_returnE [of p b out r] in \<open>auto simp: flat_step_def goes_on_def\<close>)
    from no_line_returns [OF none lines, of out] r have eq: "r = needs_more out ?q b" by (auto simp: ret_def)
    have step: "flat_step p b2 out = flat_step ?q b2 out"
      using line_states_ext [OF more scan lines, of out] none by simp
    have cv: "bb_view c = bb_view b2" using c eq more by simp
    have "ctl_ext [] (flat_step p b2 out) (flat_step ?q c out)"
      unfolding step using cv by (rule flat_step_cong)
    moreover have "\<not> oversized ?q c" using over cv by (simp add: oversized_def)
    ultimately show ?thesis using over by (simp add: eq parse_loop_same_step)
  qed
qed

lemma flat_step_return_stable:
  assumes wf: "parser_wf p" and scan: "ps_scan p \<le> length (bb_view b)"
    and more: "bb_view b2 = bb_view b @ ys"
    and r: "flat_step p b out = Return r" "pr_status r \<in> {KRequest, KExpect100, KBadRequest}"
  shows "ctl_ext ys (flat_step p b out) (flat_step p b2 out)"
proof -
  consider (fixed) "ps_state p = SBodyFixed"
    | (data) "ps_state p = SBodyChunked" "\<not> ps_expect_chunk_crlf p" "ps_chunk_remaining p > 0"
    | (lines) "ps_state p \<noteq> SBodyFixed"
        "ps_state p = SBodyChunked \<longrightarrow> ps_expect_chunk_crlf p \<or> ps_chunk_remaining p = 0" by auto
  then show ?thesis
  proof cases
    case fixed
    have "ps_body_remaining p \<le> length (bb_view b)"
      using r fixed by (auto simp: flat_step_def body_fixed_eq Let_def split: if_splits)
    then have "take (ps_body_remaining p) (bb_view b2) = take (ps_body_remaining p) (bb_view b)"
      "ps_body_remaining p > 0"
      using more fixed wf by (simp_all add: parser_wf_def)
    with fixed more show ?thesis
      by (auto simp: flat_step_def body_fixed_eq Let_def bb_view_consume)
  next
    case data
    with r show ?thesis by (auto simp: flat_step_def chunk_data_iter Let_def split: if_splits)
  next
    case lines
    have "fst (line_ready p b) \<noteq> NoLine" using no_line_returns [OF _ lines, of b out] r by (auto simp: ret_def)
    with line_states_ext [OF more scan lines, of out] show ?thesis by simp
  qed
qed

section \<open>Resuming a whole call\<close>

definition extended_view :: "parse_result \<Rightarrow> bytes \<Rightarrow> _" where
  "extended_view r ys = (pr_status r, pr_out r, pr_err r, pr_parser r, bb_view (pr_buf r) @ ys)"

text \<open>The relation between the run on a part of the input and the run on all of it: \<open>r\<close> is how the latter ends.\<close>

definition in_step :: "bytes \<Rightarrow> request \<Rightarrow> _ \<Rightarrow> parser \<Rightarrow> bytebuf \<Rightarrow> bool" where
  "in_step ys out r q c =
     (parser_wf q \<and> ps_scan q \<le> length (bb_view c) \<and>
      (\<forall>c2. bb_view c2 = bb_view c @ ys \<longrightarrow> \<not> oversized q c2 \<and> r = result_view (parse_loop q c2 out)))"

lemma view_exists: obtains c2 where "bb_view c2 = x"
  using bb_view_append [of bytebuf_init] bb_wf_init by (metis append_Nil bb_view_init)

lemma in_step_step:
  assumes I: "in_step ys out r q c" and s: "steps_to (flat_step q c out) q' c'"
  shows "in_step ys out r q' c'"
proof -
  obtain c2 where c2: "bb_view c2 = bb_view c @ ys" by (rule view_exists)
  have "\<not> oversized q' d \<and> r = result_view (parse_loop q' d out)"
    if d: "bb_view d = bb_view c' @ ys" for d
  proof -
    have "result_view (parse_loop q c2 out) = result_view (parse_loop q' d out)"
      using I c2 s d by (intro flat_step_resume [where b = c and b' = c' and ys = ys]) (auto simp: in_step_def)
    moreover have "\<not> oversized q' d"
      using I c2 flat_step_balanced [OF s] d by (auto simp: in_step_def oversized_def balanced_def)
    ultimately show ?thesis using I c2 by (simp add: in_step_def)
  qed
  with I flat_step_wf [OF _ s] show ?thesis by (simp add: in_step_def)
qed

definition resumes :: "bytes \<Rightarrow> request \<Rightarrow> _ \<Rightarrow> parse_result \<Rightarrow> bool" where
  "resumes ys out r s =
     ((pr_status s = KNeedMore \<longrightarrow>
        (\<forall>c. bb_view c = bb_view (pr_buf s) @ ys \<longrightarrow> r = result_view (parse_loop (pr_parser s) c out))) \<and>
      (pr_status s \<in> {KRequest, KExpect100, KBadRequest} \<longrightarrow> r = extended_view s ys))"

lemma resumes_oversized: "resumes ys out r (oversized_result q c out)"
  by (simp add: resumes_def oversized_result_def)

lemma in_step_return:
  assumes I: "in_step ys out r q c" and s: "flat_step q c out = Return s"
  shows "resumes ys out r s"
proof -
  obtain c2 where c2: "bb_view c2 = bb_view c @ ys" by (rule view_exists)
  have q: "parser_wf q" "ps_scan q \<le> length (bb_view c)" "\<not> oversized q c2" "r = result_view (parse_loop q c2 out)"
    using I c2 by (auto simp: in_step_def)
  show ?thesis unfolding resumes_def
  proof (intro conjI impI allI)
    fix d assume "pr_status s = KNeedMore" "bb_view d = bb_view (pr_buf s) @ ys"
    then show "r = result_view (parse_loop (pr_parser s) d out)"
      unfolding q(4) using flat_step_return_resume [OF q(1,2) c2 q(3) s] by simp
  next
    assume "pr_status s \<in> {KRequest, KExpect100, KBadRequest}"
    from flat_step_return_stable [OF q(1,2) c2 s this] s
    obtain d where "flat_step q c2 out = Return (s\<lparr>pr_buf := d\<rparr>)" "bb_view d = bb_view (pr_buf s) @ ys"
      by (auto simp: ctl_ext_def)
    then show "r = extended_view s ys"
      unfolding q(4) using q(3) by (simp add: parse_loop_flat [of q c2] result_view_def extended_view_def)
  qed
qed

lemma parse_resume_both:
  assumes wf: "parser_wf p" and scan: "ps_scan p \<le> length (bb_view b)"
    and more: "bb_view b2 = bb_view b @ ys" and over: "\<not> oversized p b2"
  shows "(pr_status (parse_loop p b out) = KNeedMore \<longrightarrow>
      (\<forall>c. bb_view c = bb_view (pr_buf (parse_loop p b out)) @ ys \<longrightarrow>
         result_view (parse_loop p b2 out) = result_view (parse_loop (pr_parser (parse_loop p b out)) c out))) \<and>
    (pr_status (parse_loop p b out) \<in> {KRequest, KExpect100, KBadRequest} \<longrightarrow>
      result_view (parse_loop p b2 out) = extended_view (parse_loop p b out) ys)"
proof -
  let ?r = "result_view (parse_loop p b2 out)"
  have "resumes ys out ?r (parse_loop p b out)"
  proof (rule parse_loop_rule [where I = "in_step ys out ?r"])
    have "oversized p c2 = oversized p b2 \<and> ?r = result_view (parse_loop p c2 out)"
      if "bb_view c2 = bb_view b @ ys" for c2
      using that more parse_loop_cong [of c2 b2 p out] by (simp add: oversized_def)
    then show "in_step ys out ?r p b" using wf scan over by (simp add: in_step_def)
  qed (auto simp: resumes_oversized intro: in_step_step in_step_return)
  then show ?thesis by (simp add: resumes_def)
qed

section \<open>Readers fed in pieces\<close>

text \<open>
  The interface between the connection, which appends what it receives and asks again, and the
  parser: an answer is to ask for more, a result with the bytes left over, or a refusal.
\<close>

datatype ('s, 'd) reading = More 's bytes | Done 'd bytes | Refused

fun feed_pieces :: "('s \<Rightarrow> bytes \<Rightarrow> ('s, 'd) reading) \<Rightarrow> 's \<Rightarrow> bytes \<Rightarrow> bytes list \<Rightarrow> ('s, 'd) reading" where
  "feed_pieces run s buf [] = More s buf"
| "feed_pieces run s buf (x # xs) =
     (case run s (buf @ x) of
        More s' buf' \<Rightarrow> feed_pieces run s' buf' xs
      | Done d rest \<Rightarrow> Done d (rest @ concat xs)
      | Refused \<Rightarrow> Refused)"

locale incremental_reader =
  fixes run :: "'s \<Rightarrow> bytes \<Rightarrow> ('s, 'd) reading"
    and good :: "'s \<Rightarrow> bytes \<Rightarrow> bytes \<Rightarrow> bool"
  assumes good_append: "good s x (y @ z) \<Longrightarrow> good s (x @ y) z"
    and resume: "good s x y \<Longrightarrow> run s x = More s' x' \<Longrightarrow> run s (x @ y) = run s' (x' @ y)"
    and good_more: "good s x y \<Longrightarrow> run s x = More s' x' \<Longrightarrow> good s' x' y"
    and stable: "good s x y \<Longrightarrow> run s x = Done d x' \<Longrightarrow> run s (x @ y) = Done d (x' @ y)"
begin

lemma feed_pieces_whole:
  assumes "good s buf (x @ concat xs)" and "feed_pieces run s buf (x # xs) \<noteq> Refused"
  shows "feed_pieces run s buf (x # xs) = run s (buf @ x @ concat xs)"
  using assms
proof (induction xs arbitrary: s buf x)
  case Nil
  then show ?case by (simp split: reading.splits)
next
  case (Cons y ys)
  have g: "good s (buf @ x) (y @ concat ys)" using Cons.prems(1) good_append by simp
  show ?case
  proof (cases "run s (buf @ x)")
    case (More s' buf')
    with Cons.prems(2) have "feed_pieces run s' buf' (y # ys) \<noteq> Refused" by simp
    with Cons.IH [OF good_more [OF g More]] have
      "feed_pieces run s' buf' (y # ys) = run s' (buf' @ y @ concat ys)" by blast
    with resume [OF g More] More show ?thesis by simp
  next
    case (Done d rest)
    with stable [OF g Done] show ?thesis by simp
  next
    case Refused
    with Cons.prems(2) show ?thesis by simp
  qed
qed

end

text \<open>A buffer that shows given bytes, and the parser as a reader.\<close>

definition buf_of :: "bytes \<Rightarrow> bytebuf" where
  "buf_of x = bb_append_target x bytebuf_init"

lemma bb_view_buf_of [simp]: "bb_view (buf_of x) = x"
  by (simp add: buf_of_def view_simps bb_wf_init)

definition parser_reading :: "request \<Rightarrow> parser \<Rightarrow> bytes \<Rightarrow> (parser, parse_status \<times> request \<times> bytes \<times> parser) reading" where
  "parser_reading out p x =
     (let r = parse p (buf_of x) out
      in case pr_status r of
           KNeedMore \<Rightarrow> More (pr_parser r) (bb_view (pr_buf r))
         | KTooLarge \<Rightarrow> Refused
         | _ \<Rightarrow> Done (pr_status r, pr_out r, pr_err r, pr_parser r) (bb_view (pr_buf r)))"

definition reading_good :: "parser \<Rightarrow> bytes \<Rightarrow> bytes \<Rightarrow> bool" where
  "reading_good p x y = (parser_wf p \<and> ps_scan p \<le> length x \<and>
     ps_consumed p + length x + length y \<le> max_request_bytes (ps_limits p))"

lemma parser_reading_cong:
  assumes "result_view (parse p (buf_of x) out) = result_view (parse q (buf_of y) out)"
  shows "parser_reading out p x = parser_reading out q y"
  using assms by (simp add: parser_reading_def Let_def result_view_def split: parse_status.split)

lemma parser_reading_more:
  "parser_reading out p x = More p' x' \<longleftrightarrow>
     (let r = parse p (buf_of x) out in pr_status r = KNeedMore \<and> p' = pr_parser r \<and> x' = bb_view (pr_buf r))"
  by (auto simp: parser_reading_def Let_def split: parse_status.splits)

interpretation reader: incremental_reader "parser_reading out" reading_good for out
proof
  fix s x y z assume "reading_good s x (y @ z)"
  then show "reading_good s (x @ y) z" by (simp add: reading_good_def)
next
  fix p x y p' x'
  assume good: "reading_good p x y" and run: "parser_reading out p x = More p' x'"
  from good have g: "parser_wf p" "ps_scan p \<le> length (bb_view (buf_of x))" "\<not> oversized p (buf_of (x @ y))"
    by (simp_all add: reading_good_def oversized_def)
  let ?r = "parse p (buf_of x) out"
  from run have r: "pr_status ?r = KNeedMore" "p' = pr_parser ?r" "x' = bb_view (pr_buf ?r)"
    by (simp_all add: parser_reading_more Let_def)
  from parse_resume_both [OF g(1,2) _ g(3), of y out] r
  show "parser_reading out p (x @ y) = parser_reading out p' (x' @ y)"
    by (intro parser_reading_cong) (simp add: parse_def)
  have "return_ok p (buf_of x) ?r"
    by (rule parse_return_ok) (use g r in \<open>simp_all add: goes_on_def\<close>)
  with good r show "reading_good p' x' y"
    by (auto simp: reading_good_def return_ok_def Let_def)
next
  fix p x y d x'
  assume good: "reading_good p x y" and run: "parser_reading out p x = Done d x'"
  from good have g: "parser_wf p" "ps_scan p \<le> length (bb_view (buf_of x))" "\<not> oversized p (buf_of (x @ y))"
    by (simp_all add: reading_good_def oversized_def)
  from run parse_resume_both [OF g(1,2) _ g(3), of y out]
  show "parser_reading out p (x @ y) = Done d (x' @ y)"
    by (auto simp: parser_reading_def parse_def Let_def result_view_def extended_view_def
        split: parse_status.splits)
qed

end
