(* ===== verification/Parser_Framing.thy ===== *)
theory Parser_Framing
  imports Parser_Props
begin

text \<open>
  How the end of the header block decides where the body ends.  If \<open>finish_headers\<close> accepts the fields, exactly
  one of three framings applies, and the parser is in the state for it; everything else (both fields, a field twice,
  a list of values, another coding, a number that is not plain decimal or too large) is refused.
\<close>

lemma transfer_encoding_InrD:
  assumes "transfer_encoding minor fs = Inr chunked"
  shows "if chunked then 1 \<le> minor \<and> (\<exists>v tok. fs = [v] \<and> split_list v = [tok] \<and> to_lower tok = ''chunked'') else fs = []"
proof (cases "fs = []")
  case False
  with assms have m: "1 \<le> minor" "length fs = 1" "length (split_list (fs ! 0)) = 1" "chunked"
    and eq: "equals_ignore_case (split_list (fs ! 0) ! 0) ''chunked''"
    by (auto simp: transfer_encoding_def Let_def split: if_splits)
  then obtain v tok where "fs = [v]" "split_list v = [tok]" by (auto simp: length_Suc_conv)
  with m eq show ?thesis by (simp add: equals_ignore_case_iff) (simp add: to_lower_def tolower_def byte_of_def)
qed (use assms in \<open>simp add: transfer_encoding_def\<close>)

lemma content_length_InrD:
  assumes "content_length max_body chunked fs = Inr len"
  shows "case len of None \<Rightarrow> fs = []
    | Some n \<Rightarrow> \<not> chunked \<and> (\<exists>v. fs = [v] \<and> split_list v = [show_nat (unat n)]) \<and> unat n \<le> max_body \<and> unat n \<le> 2 ^ 52"
proof (cases "fs = []")
  case False
  with assms have c: "\<not> chunked" "length fs = 1" "length (split_list (fs ! 0)) = 1"
    by (auto simp: content_length_def Let_def not_less split: if_splits)
      (metis le_Suc_eq le_zero_eq length_0_conv)
  then obtain v w where v: "fs = [v]" "split_list v = [w]" by (auto simp: length_Suc_conv)
  with assms c(1) obtain n where "parse_content_length w = Some n" "unat n \<le> max_body" "len = Some n"
    by (auto simp: content_length_def split: option.splits if_splits)
  with v c(1) parse_content_length_sound [of w n] show ?thesis by auto
qed (use assms in \<open>simp add: content_length_def\<close>)

text \<open>The framing that a header block announces.\<close>

definition framing :: "request \<Rightarrow> nat \<Rightarrow> head_outcome \<Rightarrow> parser \<Rightarrow> bool" where
  "framing r max_body oc p =
     (let te = header_all ''Transfer-Encoding'' r; cl = header_all ''Content-Length'' r
      in te = [] \<and> cl = [] \<and> oc = KRequestReady \<or>
         te = [] \<and> (\<exists>v n. cl = [v] \<and> split_list v = [show_nat n] \<and> n \<le> max_body \<and> n \<le> 2 ^ 52 \<and>
           (if n = 0 then oc = KRequestReady
            else oc \<in> {KBodyPending, KSend100} \<and> ps_state p = SBodyFixed \<and> ps_body_remaining p = n)) \<or>
         cl = [] \<and> 1 \<le> rq_minor r \<and> (\<exists>v tok. te = [v] \<and> split_list v = [tok] \<and> to_lower tok = ''chunked'') \<and>
           oc \<in> {KBodyPending, KSend100} \<and> ps_state p = SBodyChunked)"

lemma finish_expect_outcome:
  "finish_expect p = (oc, p', err) \<Longrightarrow> oc \<noteq> KError \<Longrightarrow> oc \<in> {KBodyPending, KSend100}"
  by (auto simp: finish_expect_def Let_def split: if_splits)

lemma finish_headers_framing:
  assumes "finish_headers p = (oc, p', err)" and "oc \<noteq> KError"
  shows "framing (ps_cur p) (max_body_bytes (ps_limits p)) oc p'"
proof -
  let ?r = "ps_cur p"
  have same: "header_all n (?r\<lparr>rq_keep_alive := k\<rparr>) = header_all n ?r" for n k by (simp add: header_all_def)
  from assms obtain q chunked len where te: "transfer_encoding (rq_minor ?r) (header_all ''Transfer-Encoding'' ?r) = Inr chunked"
    and cl: "content_length (max_body_bytes (ps_limits p)) chunked (header_all ''Content-Length'' ?r) = Inr len"
    and rest: "(if chunked then finish_expect (q\<lparr>ps_chunked := True, ps_chunk_remaining := 0, ps_expect_chunk_crlf := False,
        ps_state := SBodyChunked\<rparr>)
      else case len of None \<Rightarrow> (KRequestReady, q, [])
        | Some n \<Rightarrow> if n > 0 then finish_expect (q\<lparr>ps_body_remaining := unat n, ps_state := SBodyFixed\<rparr>)
                   else (KRequestReady, q, [])) = (oc, p', err)"
    by (auto simp: finish_headers_def Let_def same split: option.splits sum.splits prod.splits)
  note te' = transfer_encoding_InrD [OF te] and cl' = content_length_InrD [OF cl]
  show ?thesis
  proof (cases chunked)
    case True
    with rest cl' finish_expect_body [of _ oc p' err] finish_expect_outcome [of _ oc p' err] assms(2)
    have "header_all ''Content-Length'' ?r = []" "ps_state p' = SBodyChunked" "oc \<in> {KBodyPending, KSend100}"
      by (auto split: option.splits)
    with te' True show ?thesis by (simp add: framing_def Let_def)
  next
    case False
    show ?thesis
    proof (cases len)
      case None
      with False rest te' cl' show ?thesis by (simp add: framing_def Let_def)
    next
      case (Some n)
      have end_: "if unat n = 0 then oc = KRequestReady
          else oc \<in> {KBodyPending, KSend100} \<and> ps_state p' = SBodyFixed \<and> ps_body_remaining p' = unat n"
        using rest False Some finish_expect_body [of _ oc p' err] finish_expect_outcome [of _ oc p' err] assms(2)
        by (auto simp: word_less_nat_alt split: if_splits)
      from cl' Some obtain v where v: "header_all ''Content-Length'' ?r = [v]" "split_list v = [show_nat (unat n)]"
        and le: "unat n \<le> max_body_bytes (ps_limits p)" "unat n \<le> 2 ^ 52" by auto
      have "header_all ''Transfer-Encoding'' ?r = []" using te' False by simp
      with v le end_ show ?thesis unfolding framing_def Let_def by (intro disjI2 disjI1 conjI exI [of _ v] exI [of _ "unat n"])
    qed
  qed
qed

end
