(* ===== verification/Parser_Roundtrip.thy ===== *)
theory Parser_Roundtrip
  imports Parser_Resume
begin

text \<open>
  The parser reads back what a client writes.  \<open>render\<close> writes a request: the request line, the fields, and a
  body with no framing, with \<^verbatim>\<open>Content-Length\<close>, or in chunks.  \<open>parse_render\<close> shows that \<open>parse\<close> of the
  written bytes, whatever follows them, is that request, and that what follows is left in the buffer.
\<close>

section \<open>What a client writes\<close>

text \<open>A body and the way it is framed; a chunked body is the list of its chunks.\<close>

datatype payload = NoBody | FixedBody bytes | ChunkedBody "bytes list"

fun hex_char :: "nat \<Rightarrow> byte" where
  "hex_char d = ''0123456789abcdef'' ! d"

fun show_hex :: "nat \<Rightarrow> bytes" where
  "show_hex n = (if n < 16 then [hex_char n] else show_hex (n div 16) @ [hex_char (n mod 16)])"

declare show_hex.simps [simp del]

definition header_text :: "header \<Rightarrow> bytes" where
  "header_text h = hdr_name h @ '': '' @ hdr_value h"

fun payload_bytes :: "payload \<Rightarrow> bytes" where
  "payload_bytes NoBody = []"
| "payload_bytes (FixedBody bs) = bs"
| "payload_bytes (ChunkedBody cs) = concat cs"

fun framing_headers :: "payload \<Rightarrow> header list" where
  "framing_headers NoBody = []"
| "framing_headers (FixedBody bs) = [\<lparr>hdr_name = ''Content-Length'', hdr_value = show_nat (length bs)\<rparr>]"
| "framing_headers (ChunkedBody cs) = [\<lparr>hdr_name = ''Transfer-Encoding'', hdr_value = ''chunked''\<rparr>]"

definition chunk_text :: "bytes \<Rightarrow> bytes" where
  "chunk_text c = show_hex (length c) @ CRLF @ c @ CRLF"

fun payload_text :: "payload \<Rightarrow> bytes" where
  "payload_text NoBody = []"
| "payload_text (FixedBody bs) = bs"
| "payload_text (ChunkedBody cs) = concat (map chunk_text cs) @ ''0'' @ CRLF @ CRLF"

definition request_line_text :: "bytes \<Rightarrow> bytes \<Rightarrow> int \<Rightarrow> bytes" where
  "request_line_text m t minor = m @ SP # t @ SP # (if minor = 0 then ''HTTP/1.0'' else ''HTTP/1.1'')"

definition header_block :: "header list \<Rightarrow> bytes" where
  "header_block hs = wire_lines (map header_text hs) @ CRLF"

definition render :: "bytes \<Rightarrow> bytes \<Rightarrow> int \<Rightarrow> header list \<Rightarrow> payload \<Rightarrow> bytes" where
  "render m t minor hs pl =
     request_line_text m t minor @ CRLF @ header_block (hs @ framing_headers pl) @ payload_text pl"

text \<open>
  What the client must keep to: a valid request line; fields that are valid and have no white space around their
  values, none of them one of the four the parser acts on; no chunked body on HTTP/1.0 and no empty chunk; everything
  within the limits.
\<close>

definition plain_header :: "header \<Rightarrow> bool" where
  "plain_header h =
     (header_ok h \<and> trim_ows (hdr_value h) = hdr_value h \<and>
      list_all (\<lambda>n. \<not> equals_ignore_case (hdr_name h) n)
        [''Connection'', ''Transfer-Encoding'', ''Content-Length'', ''Expect''])"

fun payload_ok :: "int \<Rightarrow> payload \<Rightarrow> bool" where
  "payload_ok minor NoBody = True"
| "payload_ok minor (FixedBody bs) = True"
| "payload_ok minor (ChunkedBody cs) = (minor = 1 \<and> list_all (\<lambda>c. c \<noteq> []) cs)"

definition request_shape :: "bytes \<Rightarrow> bytes \<Rightarrow> int \<Rightarrow> request" where
  "request_shape m t minor = request_init\<lparr>rq_method := method_from m, rq_method_name := m, rq_target := t, rq_minor := minor\<rparr>"

definition sendable :: "parser_limits \<Rightarrow> bytes \<Rightarrow> bytes \<Rightarrow> int \<Rightarrow> header list \<Rightarrow> payload \<Rightarrow> bool" where
  "sendable lim m t minor hs pl =
     (line_ok (request_shape m t minor) \<and> list_all plain_header hs \<and> payload_ok minor pl \<and>
      length (request_line_text m t minor) \<le> max_request_line_bytes lim \<and>
      length (header_block (hs @ framing_headers pl)) \<le> max_header_bytes lim \<and>
      length (hs @ framing_headers pl) \<le> max_header_fields lim \<and>
      length (payload_bytes pl) \<le> max_body_bytes lim \<and> length (payload_bytes pl) \<le> 2 ^ 52)"

section \<open>Hexadecimal numbers\<close>

lemma hex_digit_less: "hex_digit c = Some d \<Longrightarrow> d < 16"
  by (auto simp: hex_digit_def split: if_splits)

lemma hex_digit_hex_char: "d < 16 \<Longrightarrow> hex_digit (hex_char d) = Some d"
proof -
  have "list_all (\<lambda>d. hex_digit (hex_char d) = Some d) [0..<16]" by code_simp
  moreover assume "d < 16"
  ultimately show ?thesis by (simp add: list_all_iff del: hex_char.simps)
qed

text \<open>The loop over a chunk size is one of the capped accumulators.\<close>

definition chunk_size_opt :: "u64 \<Rightarrow> bytes \<Rightarrow> u64 option" where
  "chunk_size_opt v s = (case chunk_size_loop v s of Inl _ \<Rightarrow> None | Inr w \<Rightarrow> Some w)"

interpretation cs: capped_numeral 16 hex_digit "2 ^ 52" chunk_size_opt
  by unfold_locales
     (auto simp: chunk_size_opt_def hex_digit_less Let_def split: option.split)

lemma numval_show_hex: "numval 16 hex_digit 0 (show_hex n) = Some n"
proof (induction n rule: show_hex.induct)
  case (1 n)
  then show ?case
    by (simp add: show_hex.simps [of n] numval_append hex_digit_hex_char del: hex_char.simps)
qed

lemma set_show_hex: "c \<in> set (show_hex n) \<Longrightarrow> hex_digit c \<noteq> None"
proof (induction n rule: show_hex.induct)
  case (1 n)
  then show ?case
    by (auto simp: show_hex.simps [of n] hex_digit_hex_char simp del: hex_char.simps split: if_splits)
qed

lemma length_show_hex: "n < 16 ^ k \<Longrightarrow> 0 < k \<Longrightarrow> length (show_hex n) \<le> k"
proof (induction k arbitrary: n)
  case (Suc k)
  show ?case
  proof (cases "n < 16")
    case False
    then have "0 < k" using Suc.prems(1) by (cases k) auto
    moreover have "n div 16 < 16 ^ k" using Suc.prems(1) by (simp add: less_mult_imp_div_less mult.commute)
    ultimately show ?thesis using Suc.IH [of "n div 16"] False by (simp add: show_hex.simps [of n])
  qed (simp add: show_hex.simps [of n])
qed simp

lemma parse_chunk_size_show_hex:
  assumes "n \<le> 2 ^ 52"
  shows "parse_chunk_size (show_hex n) = Inr (of_nat n)"
proof -
  have "CHR '';'' \<notin> set (show_hex n)" using set_show_hex [of "CHR '';''" n] by (auto simp: hex_digit_def byte_of_def)
  then have f: "sv_find CHR '';'' 0 (show_hex n) = None" by (simp add: sv_find_None)
  have len: "length (show_hex n) \<le> 16" by (rule length_show_hex) (use assms in auto)
  have ne: "show_hex n \<noteq> []" by (simp add: show_hex.simps [of n])
  have "chunk_size_opt 0 (show_hex n) = Some (of_nat n)"
    using assms by (subst cs.loop_eq_numval) (auto simp: numval_show_hex)
  then have "chunk_size_loop 0 (show_hex n) = Inr (of_nat n)" by (auto simp: chunk_size_opt_def split: sum.splits)
  with f len ne show ?thesis by (simp add: parse_chunk_size_def Let_def)
qed

section \<open>One line at a time\<close>

lemma tchar_plain: "is_tchar c \<Longrightarrow> c \<noteq> SP \<and> c \<noteq> HTAB \<and> c \<noteq> CHR '':'' \<and> c \<noteq> LF \<and> \<not> is_ctl c"
  by (auto simp: is_tchar_def is_ctl_def byte_of_def)

lemma token_plain:
  "valid_token s \<Longrightarrow> s \<noteq> [] \<and> SP \<notin> set s \<and> CHR '':'' \<notin> set s \<and> LF \<notin> set s \<and> hd s \<noteq> SP \<and> hd s \<noteq> HTAB \<and>
     list_all (\<lambda>c. \<not> is_ctl c) s"
  using tchar_plain by (cases s) (auto simp: valid_token_def list_all_iff split: if_splits)

lemma line_ready_line:
  assumes "bb_view b = l @ CRLF @ v" and "LF \<notin> set l" and "ps_scan p = 0"
  shows "line_ready p b = (LineReady (length l), p\<lparr>ps_scan := length l + 2\<rparr>)"
proof -
  have "index_of LF (l @ [CR] @ LF # v) = Some (length (l @ [CR]))"
    using index_of_split [of LF "l @ [CR]" v] assms(2) by simp
  then have "sv_find LF 0 (bb_view b) = Some (length l + 1)" by (simp add: sv_find_def assms(1))
  moreover have "scan_pos p (length (bb_view b)) = 0" by (simp add: scan_pos_def assms(3))
  ultimately show ?thesis by (simp add: line_ready_eq assms(1))
qed

lemma consume_line: "bb_view b = l @ CRLF @ v \<Longrightarrow> bb_view (bb_consume (length l + 2) b) = v"
  by (simp add: bb_view_consume)

text \<open>A step of the loop that does not exceed the size limit, and what is then in the buffer.\<close>

definition reads_to :: "parser \<Rightarrow> bytebuf \<Rightarrow> request \<Rightarrow> parser \<Rightarrow> bytes \<Rightarrow> bool" where
  "reads_to p b out p' v =
     (\<exists>b'. parse_loop p b out = parse_loop p' b' out \<and> bb_view b' = v \<and> \<not> oversized p' b')"

lemma reads_toI:
  assumes "\<not> oversized p b" and "steps_to (flat_step p b out) p' b'" and "bb_view b' = v"
  shows "reads_to p b out p' v"
proof -
  have "\<not> oversized p' b'" using oversized_balanced [OF flat_step_balanced [OF assms(2)]] assms(1) by simp
  moreover have "parse_loop p b out = parse_loop p' b' out"
    using assms(1,2) by (auto simp: parse_loop_flat [of p b] steps_to_def)
  ultimately show ?thesis using assms(3) by (auto simp: reads_to_def)
qed

lemma reads_to_refl: "\<not> oversized p b \<Longrightarrow> reads_to p b out p (bb_view b)"
  by (auto simp: reads_to_def)

lemma reads_to_trans:
  assumes "reads_to p b out p' v"
    and "\<And>b'. bb_view b' = v \<Longrightarrow> \<not> oversized p' b' \<Longrightarrow> reads_to p' b' out p'' v''"
  shows "reads_to p b out p'' v''"
  using assms by (metis reads_to_def)

section \<open>The request line and the fields\<close>

lemma split_request_line_text:
  assumes "valid_token m" and "t \<noteq> []" and "list_all (\<lambda>c. \<not> is_ctl c \<and> c \<noteq> SP) t"
  shows "split_request_line (request_line_text m t minor) =
    Inr (m, t, if minor = 0 then ''HTTP/1.0'' else ''HTTP/1.1'')"
proof -
  define v where "v = (if minor = 0 then ''HTTP/1.0'' else ''HTTP/1.1'' :: bytes)"
  have v: "SP \<notin> set v" "v \<noteq> []" "v = ''HTTP/1.0'' \<or> v = ''HTTP/1.1''" "list_all (\<lambda>c. \<not> is_ctl c) v"
    by (auto simp: v_def is_ctl_def byte_of_def)
  note m = token_plain [OF assms(1)]
  have tsp: "SP \<notin> set t" using assms(3) by (auto simp: list_all_iff)
  let ?l = "m @ SP # t @ SP # v"
  have ctl: "\<not> list_ex (\<lambda>c. byte_of c < 32 \<or> byte_of c = 127) ?l"
    using m assms(3) v(4) by (auto simp: list_ex_iff list_all_iff is_ctl_def byte_of_def)
  have f1: "sv_find SP 0 ?l = Some (length m)"
    using m by (simp add: sv_find_def index_of_split)
  have f2: "sv_find SP (length m + 1) ?l = Some (length m + 1 + length t)"
    using tsp by (simp add: sv_find_def index_of_split)
  have d3: "drop (length m + 1 + length t + 1) ?l = v" by simp
  have f3: "sv_find SP (length m + 1 + length t + 1) ?l = None"
    unfolding sv_find_None d3 using v(1) .
  show ?thesis
    unfolding request_line_text_def v_def [symmetric] split_request_line_def
    using m assms(1,2) v ctl f1 f2 f3 d3 by (simp add: sv_substr_def Let_def)
qed

lemma store_request_line_text:
  assumes "line_ok (request_shape m t minor)" and "length t \<le> max_request_line_bytes (ps_limits p)"
  shows "store_request_line p m t (if minor = 0 then ''HTTP/1.0'' else ''HTTP/1.1'') =
    (True, p\<lparr>ps_cur := (ps_cur p)\<lparr>rq_method := method_from m, rq_method_name := m, rq_major := 1, rq_minor := minor,
       rq_target := t\<rparr>\<rparr>, [])"
proof -
  have minor: "(if last (if minor = 0 then ''HTTP/1.0'' else ''HTTP/1.1'') = CHR ''0'' then 0 else 1) = minor"
    using assms(1) by (auto simp: line_ok_def request_shape_def)
  show ?thesis
    unfolding store_request_line_def minor
    using assms by (auto simp: line_ok_def target_ok_def request_shape_def Let_def sv_find_None)
qed

definition after_line :: "bytes \<Rightarrow> bytes \<Rightarrow> int \<Rightarrow> parser \<Rightarrow> parser" where
  "after_line m t minor p =
     (advance (length (request_line_text m t minor) + 2)
       (p\<lparr>ps_cur := (ps_cur p)\<lparr>rq_method := method_from m, rq_method_name := m, rq_major := 1, rq_minor := minor,
         rq_target := t\<rparr>\<rparr>))\<lparr>ps_state := SHeaders\<rparr>"

lemma request_line_read:
  assumes "line_ok (request_shape m t minor)" and "length (request_line_text m t minor) \<le> max_request_line_bytes (ps_limits p)"
    and "ps_state p = SRequestLine" and "ps_scan p = 0" and "\<not> oversized p b"
    and "bb_view b = request_line_text m t minor @ CRLF @ v"
  shows "reads_to p b out (after_line m t minor p) v"
proof -
  let ?l = "request_line_text m t minor"
  have ok: "valid_token m" "t \<noteq> []" "list_all (\<lambda>c. \<not> is_ctl c \<and> c \<noteq> SP) t"
    using assms(1) by (auto simp: line_ok_def target_ok_def request_shape_def)
  have tlf: "LF \<notin> set t" using ok(3) is_ctl_LF unfolding list_all_iff by blast
  have lf: "LF \<notin> set ?l" using token_plain [OF ok(1), THEN conjunct2, THEN conjunct2, THEN conjunct2, THEN conjunct1] tlf
    by (auto simp: request_line_text_def)
  have tl: "length t \<le> max_request_line_bytes (ps_limits (p\<lparr>ps_scan := length ?l + 2\<rparr>))"
    using assms(2) by (simp add: request_line_text_def)
  define q where "q = (p\<lparr>ps_scan := length ?l + 2\<rparr>)\<lparr>ps_cur := (ps_cur p)\<lparr>rq_method := method_from m, rq_method_name := m,
    rq_major := 1, rq_minor := minor, rq_target := t\<rparr>\<rparr>"
  note lr = line_ready_line [OF assms(6) lf assms(4)]
  have prl: "parse_request_line (p\<lparr>ps_scan := length ?l + 2\<rparr>) ?l = (True, q, [])"
    unfolding parse_request_line_def split_request_line_text [OF ok] sum.case prod.case
      store_request_line_text [OF assms(1) tl] q_def by simp
  have tk: "take (length ?l) (bb_view b) = ?l" by (simp add: assms(6))
  have q: "(advance (length ?l + 2) q)\<lparr>ps_state := SHeaders\<rparr> = after_line m t minor p"
    by (simp add: q_def after_line_def advance_def)
  have "flat_step p b out = Continue (after_line m t minor p) (bb_consume (length ?l + 2) b)"
    unfolding flat_step_def assms(3) parser_state.case request_line_case_def lr prod.case line_result.case tk Let_def prl
    using assms(2) by (simp only: q not_less simp_thms if_False prod.case line_result.case parser.simps parser.update_convs)
       (simp add: q)
  then have "steps_to (flat_step p b out) (after_line m t minor p) (bb_consume (length ?l + 2) b)" by simp
  from reads_toI [OF assms(5) this consume_line [OF assms(6)]] show ?thesis .
qed

lemma parse_header_line_text:
  assumes "header_ok h" and "trim_ows (hdr_value h) = hdr_value h"
    and "length (rq_headers (ps_cur p)) < max_header_fields (ps_limits p)"
  shows "parse_header_line p (header_text h) =
    (True, p\<lparr>ps_cur := (ps_cur p)\<lparr>rq_headers := rq_headers (ps_cur p) @ [h]\<rparr>\<rparr>, [])"
proof -
  let ?n = "hdr_name h" and ?l = "header_text h"
  have vt: "valid_token ?n" "valid_header_value (hdr_value h)" using assms(1) by (auto simp: header_ok_def)
  note n = token_plain [OF vt(1)]
  have h: "hd ?l = hd ?n" using n by (simp add: header_text_def)
  have f: "sv_find CHR '':'' 0 ?l = Some (length ?n)"
    using n by (simp add: sv_find_def header_text_def index_of_split)
  have t: "trim_ows (drop (Suc (length ?n)) ?l) = hdr_value h"
    using assms(2) by (simp add: header_text_def trim_ows_Cons is_ows_def)
  have s: "sv_substr 0 (length ?n) ?l = ?n" by (simp add: sv_substr_def header_text_def)
  show ?thesis
    using assms(3) n vt by (simp add: parse_header_line_def h f t s Let_def)
qed

definition after_headers :: "header list \<Rightarrow> parser \<Rightarrow> parser" where
  "after_headers hs p =
     (let n = length (wire_lines (map header_text hs))
      in p\<lparr>ps_cur := (ps_cur p)\<lparr>rq_headers := rq_headers (ps_cur p) @ hs\<rparr>, ps_consumed := ps_consumed p + n,
           ps_header_bytes := ps_header_bytes p + n, ps_scan := 0\<rparr>)"

lemma header_read:
  assumes "header_ok h" and "trim_ows (hdr_value h) = hdr_value h"
    and "length (rq_headers (ps_cur p)) < max_header_fields (ps_limits p)"
    and "ps_header_bytes p + length (header_text h) + 2 \<le> max_header_bytes (ps_limits p)"
    and "ps_state p = SHeaders" and "ps_scan p = 0" and "\<not> oversized p b"
    and "bb_view b = header_text h @ CRLF @ v"
  shows "reads_to p b out (after_headers [h] p) v"
proof -
  let ?l = "header_text h"
  have ok: "valid_token (hdr_name h)" "valid_header_value (hdr_value h)" using assms(1) by (auto simp: header_ok_def)
  have lf: "LF \<notin> set ?l"
    using token_plain [OF ok(1)] ok(2) by (auto simp: header_text_def valid_header_value_def list_all_iff byte_of_def)
  have ne: "?l \<noteq> []" by (simp add: header_text_def)
  note lr = line_ready_line [OF assms(8) lf assms(6)]
  have "parse_header_line (p\<lparr>ps_scan := length ?l + 2\<rparr>) ?l = (True, p\<lparr>ps_scan := length ?l + 2,
      ps_cur := (ps_cur p)\<lparr>rq_headers := rq_headers (ps_cur p) @ [h]\<rparr>\<rparr>, [])"
    using parse_header_line_text [OF assms(1,2), of "p\<lparr>ps_scan := length ?l + 2\<rparr>"] assms(3) by simp
  then have "flat_step p b out = Continue (after_headers [h] p) (bb_consume (length ?l + 2) b)"
    using assms(4,5) ne
    by (simp add: flat_step_def headers_case_def lr Let_def assms(8) after_headers_def advance_header_def add.assoc)
  then have "steps_to (flat_step p b out) (after_headers [h] p) (bb_consume (length ?l + 2) b)" by simp
  from reads_toI [OF assms(7) this consume_line [OF assms(8)]] show ?thesis .
qed

lemma after_headers_Cons: "after_headers hs (after_headers [h] p) = after_headers (h # hs) p"
  by (simp add: after_headers_def Let_def)

lemma headers_read:
  assumes "list_all (\<lambda>h. header_ok h \<and> trim_ows (hdr_value h) = hdr_value h) hs"
    and "length (rq_headers (ps_cur p)) + length hs \<le> max_header_fields (ps_limits p)"
    and "ps_header_bytes p + length (wire_lines (map header_text hs)) \<le> max_header_bytes (ps_limits p)"
    and "ps_state p = SHeaders" and "ps_scan p = 0" and "\<not> oversized p b"
    and "bb_view b = wire_lines (map header_text hs) @ v"
  shows "reads_to p b out (after_headers hs p) v"
  using assms
proof (induction hs arbitrary: p b)
  case Nil
  have "after_headers [] p = p" using Nil.prems(5) by (cases p) (simp add: after_headers_def)
  with reads_to_refl [of p b out] Nil.prems show ?case by simp
next
  case (Cons h hs)
  have "reads_to p b out (after_headers [h] p) (wire_lines (map header_text hs) @ v)"
    by (rule header_read) (use Cons.prems in simp_all)
  then show ?case
  proof (rule reads_to_trans)
    fix b' assume "bb_view b' = wire_lines (map header_text hs) @ v" "\<not> oversized (after_headers [h] p) b'"
    with Cons.prems show "reads_to (after_headers [h] p) b' out (after_headers (h # hs) p) v"
      by (subst after_headers_Cons [symmetric], intro Cons.IH) (simp_all add: after_headers_def Let_def)
  qed
qed

section \<open>The end of the header block\<close>

lemma split_list_single: "list_all (\<lambda>c. \<not> is_ows c \<and> c \<noteq> CHR '','') s \<Longrightarrow> split_list s = [s]"
proof -
  assume s: "list_all (\<lambda>c. \<not> is_ows c \<and> c \<noteq> CHR '','') s"
  then have "list_all (\<lambda>c. \<not> is_ows c) s" "CHR '','' \<notin> set s" by (simp_all add: list_all_iff) blast
  then show ?thesis by (simp add: split_list_eq split_on_notin trim_ows_clean)
qed

lemma split_list_show_nat: "split_list (show_nat n) = [show_nat n]"
proof (rule split_list_single, unfold list_all_iff, rule ballI)
  fix c assume "c \<in> set (show_nat n)"
  then have "48 \<le> byte_of c" by (rule set_show_nat [THEN conjunct1])
  then show "\<not> is_ows c \<and> c \<noteq> CHR '',''" by (auto simp: is_ows_def byte_of_def)
qed

lemma plain_all:
  assumes "list_all plain_header hs" and "name \<in> {''Connection'', ''Transfer-Encoding'', ''Content-Length'', ''Expect''}"
  shows "filter (\<lambda>h. equals_ignore_case (hdr_name h) name) hs = []"
  using assms by (induction hs) (auto simp: plain_header_def)

lemma framing_names:
  "map hdr_value (filter (\<lambda>h. equals_ignore_case (hdr_name h) ''Connection'') (framing_headers pl)) = []"
  "map hdr_value (filter (\<lambda>h. equals_ignore_case (hdr_name h) ''Expect'') (framing_headers pl)) = []"
  "map hdr_value (filter (\<lambda>h. equals_ignore_case (hdr_name h) ''Transfer-Encoding'') (framing_headers pl)) =
     (case pl of ChunkedBody cs \<Rightarrow> [''chunked''] | _ \<Rightarrow> [])"
  "map hdr_value (filter (\<lambda>h. equals_ignore_case (hdr_name h) ''Content-Length'') (framing_headers pl)) =
     (case pl of FixedBody bs \<Rightarrow> [show_nat (length bs)] | _ \<Rightarrow> [])"
  by (cases pl; simp add: equals_ignore_case_def tolower_def byte_of_def)+

lemma rendered_fields:
  assumes "list_all plain_header hs" and "rq_headers r = hs @ framing_headers pl"
  shows "header_all ''Connection'' r = []" "request_header ''Expect'' r = []"
    "header_all ''Transfer-Encoding'' r = (case pl of ChunkedBody cs \<Rightarrow> [''chunked''] | _ \<Rightarrow> [])"
    "header_all ''Content-Length'' r = (case pl of FixedBody bs \<Rightarrow> [show_nat (length bs)] | _ \<Rightarrow> [])"
  using plain_all [OF assms(1)] framing_names [of pl]
  by (simp_all add: request_header_eq_hd_header_all header_all_def assms(2))

lemma content_length_show_nat:
  assumes "n \<le> max_body" and "n \<le> 2 ^ 52"
  shows "content_length max_body False [show_nat n] = Inr (Some (of_nat n))"
proof -
  have "unat (of_nat n :: u64) = n" by (rule u64_unat_of_nat) (use assms(2) in simp)
  with assms show ?thesis by (simp add: content_length_def split_list_show_nat parse_content_length_complete)
qed

lemma transfer_encoding_chunked: "transfer_encoding 1 [''chunked''] = Inr True"
proof -
  have "split_list ''chunked'' = [''chunked'']" by (rule split_list_single) (simp add: is_ows_def)
  then show ?thesis by (simp add: transfer_encoding_def equals_ignore_case_def)
qed

text \<open>The parser after the empty line.\<close>

fun after_head :: "payload \<Rightarrow> parser \<Rightarrow> parser" where
  "after_head NoBody p = p"
| "after_head (FixedBody bs) p = (if bs = [] then p else p\<lparr>ps_body_remaining := length bs, ps_state := SBodyFixed\<rparr>)"
| "after_head (ChunkedBody cs) p =
     p\<lparr>ps_chunked := True, ps_chunk_remaining := 0, ps_expect_chunk_crlf := False, ps_state := SBodyChunked\<rparr>"

definition bodiless :: "payload \<Rightarrow> bool" where
  "bodiless pl = (pl = NoBody \<or> pl = FixedBody [])"

definition accept_head :: "int \<Rightarrow> parser \<Rightarrow> parser" where
  "accept_head minor p = p\<lparr>ps_too_large := False, ps_cur := (ps_cur p)\<lparr>rq_keep_alive := (minor = 1)\<rparr>\<rparr>"

lemma finish_headers_rendered:
  assumes "list_all plain_header hs" and "rq_headers (ps_cur p) = hs @ framing_headers pl"
    and "rq_minor (ps_cur p) = minor" and "minor = 0 \<or> minor = 1" and "payload_ok minor pl"
    and "length (payload_bytes pl) \<le> max_body_bytes (ps_limits p)" and "length (payload_bytes pl) \<le> 2 ^ 52"
  shows "finish_headers p =
    (if bodiless pl then KRequestReady else KBodyPending, after_head pl (accept_head minor p), [])"
proof -
  have r: "rq_headers ((ps_cur p)\<lparr>rq_keep_alive := k\<rparr>) = hs @ framing_headers pl" for k using assms(2) by simp
  note f = rendered_fields [OF assms(1,2)] and fk = rendered_fields [OF assms(1) r]
  have keep: "(\<not> False \<and> (if 1 \<le> minor then True else False)) = (minor = 1)" using assms(4) by auto
  show ?thesis
  proof (cases pl)
    case NoBody
    with f fk keep assms(3) show ?thesis
      by (simp add: finish_headers_def transfer_encoding_def content_length_def bodiless_def accept_head_def Let_def)
  next
    case (FixedBody bs)
    have z: "(of_nat (length bs) :: u64) > 0 \<longleftrightarrow> bs \<noteq> []" "unat (of_nat (length bs) :: u64) = length bs"
      using u64_unat_of_nat [of "length bs"] assms(7) FixedBody by (auto simp: word_less_nat_alt)
    from f fk keep assms(3,6,7) FixedBody z show ?thesis
      by (simp add: finish_headers_def transfer_encoding_def content_length_show_nat bodiless_def accept_head_def
          finish_expect_def Let_def)
  next
    case (ChunkedBody cs)
    with assms(5) have "minor = 1" by simp
    with f fk assms(3) ChunkedBody show ?thesis
      by (simp add: finish_headers_def transfer_encoding_chunked content_length_def bodiless_def accept_head_def
          finish_expect_def Let_def)
  qed
qed

section \<open>Bodies\<close>

text \<open>The loop ends with the request \<open>r\<close>, a fresh parser, and \<open>v\<close> left in the buffer.\<close>

definition gives :: "parser \<Rightarrow> bytebuf \<Rightarrow> request \<Rightarrow> request \<Rightarrow> bytes \<Rightarrow> bool" where
  "gives p b out r v =
     (\<exists>b'. parse_loop p b out = \<lparr>pr_status = KRequest, pr_out = r, pr_err = [], pr_parser = parser_init (ps_limits p),
        pr_buf = b'\<rparr> \<and> bb_view b' = v)"

definition finished_request :: "parser \<Rightarrow> request" where
  "finished_request p = (ps_cur p)\<lparr>rq_body := ps_body p, rq_header_bytes := ps_header_bytes p, rq_total_bytes := ps_consumed p\<rparr>"

lemma givesI:
  assumes "\<not> oversized p b" and "flat_step p b out = emit_request q b'" and "ps_limits q = ps_limits p" and "bb_view b' = v"
  shows "gives p b out (finished_request q) v"
proof -
  have "parser_reset q = parser_init (ps_limits p)" using assms(3) by (simp add: parser_reset_def parser_init_def)
  with assms show ?thesis
    by (auto simp: gives_def finished_request_def parse_loop_flat [of p b] emit_request_emitted emitted_def)
qed

lemma reads_to_gives:
  assumes "reads_to p b out p' v" and "\<And>b'. bb_view b' = v \<Longrightarrow> \<not> oversized p' b' \<Longrightarrow> gives p' b' out r v'"
    and "ps_limits p' = ps_limits p"
  shows "gives p b out r v'"
proof -
  from assms(1) obtain b' where b': "parse_loop p b out = parse_loop p' b' out" "bb_view b' = v" "\<not> oversized p' b'"
    by (auto simp: reads_to_def)
  from assms(2) [OF b'(2,3)] show ?thesis by (simp add: gives_def b'(1) assms(3))
qed

lemma fixed_body_read:
  assumes "ps_state p = SBodyFixed" and "ps_body_remaining p = length bs" and "bs \<noteq> []" and "ps_body p = []"
    and "\<not> oversized p b" and "bb_view b = bs @ v"
  shows "gives p b out ((finished_request p)\<lparr>rq_body := bs, rq_total_bytes := ps_consumed p + length bs\<rparr>) v"
proof -
  let ?q = "p\<lparr>ps_body := bs, ps_consumed := ps_consumed p + length bs, ps_body_remaining := 0, ps_scan := 0\<rparr>"
  have "bb_size b = length bs + length v" using assms(6) by (simp flip: length_bb_view)
  with assms(1-4,6) have "flat_step p b out = emit_request ?q (bb_consume (length bs) b)"
    by (simp add: flat_step_def body_fixed_case_def Let_def)
  from givesI [OF assms(5) this _ refl] have "gives p b out (finished_request ?q) v"
    by (simp add: bb_view_consume assms(6))
  moreover have "finished_request ?q = (finished_request p)\<lparr>rq_body := bs, rq_total_bytes := ps_consumed p + length bs\<rparr>"
    by (cases "ps_cur p") (simp add: finished_request_def)
  ultimately show ?thesis by simp
qed

definition chunk_idle :: "parser \<Rightarrow> bool" where
  "chunk_idle p = (ps_state p = SBodyChunked \<and> \<not> ps_expect_chunk_crlf p \<and> ps_chunk_remaining p = 0 \<and> ps_scan p = 0)"

lemma show_hex_no_LF: "LF \<notin> set (show_hex n)"
  using set_show_hex [of LF n] by (auto simp: hex_digit_def byte_of_def)

lemma chunk_size_read:
  assumes "chunk_idle p" and "0 < n" and "n \<le> 2 ^ 52" and "length (ps_body p) + n \<le> max_body_bytes (ps_limits p)"
    and "\<not> oversized p b" and "bb_view b = show_hex n @ CRLF @ v"
  shows "reads_to p b out (p\<lparr>ps_consumed := ps_consumed p + length (show_hex n) + 2, ps_chunk_remaining := n\<rparr>) v"
proof -
  let ?l = "show_hex n" and ?p' = "p\<lparr>ps_consumed := ps_consumed p + length (show_hex n) + 2, ps_chunk_remaining := n\<rparr>"
  have st: "ps_state p = SBodyChunked" "\<not> ps_expect_chunk_crlf p" "ps_chunk_remaining p = 0" "ps_scan p = 0"
    using assms(1) by (simp_all add: chunk_idle_def)
  have n: "unat (of_nat n :: u64) = n" by (rule u64_unat_of_nat) (use assms(3) in simp)
  then have nz: "(of_nat n :: u64) \<noteq> 0" using assms(2) by (metis neq0_conv unat_0)
  have same: "(advance (length ?l + 2) (p\<lparr>ps_scan := length ?l + 2\<rparr>))\<lparr>ps_chunk_remaining := n\<rparr> = ?p'"
    using st(4) by (simp add: advance_def)
  note lr = line_ready_line [OF assms(6) show_hex_no_LF st(4)]
  have tk: "take (length ?l) (bb_view b) = ?l" by (simp add: assms(6))
  have "flat_step p b out = Continue ?p' (bb_consume (length ?l + 2) b)"
    using st assms(4) n nz same
    by (simp add: flat_step_def body_chunked_iter_def lr tk parse_chunk_size_show_hex [OF assms(3)] Let_def frame_simps)
  then have "steps_to (flat_step p b out) ?p' (bb_consume (length ?l + 2) b)" by simp
  from reads_toI [OF assms(5) this consume_line [OF assms(6)]] show ?thesis .
qed

lemma chunk_data_read:
  assumes "ps_state p = SBodyChunked" "\<not> ps_expect_chunk_crlf p" "ps_chunk_remaining p = length c" "c \<noteq> []" "ps_scan p = 0"
    and "length (ps_body p) + length c \<le> max_body_bytes (ps_limits p)"
    and "\<not> oversized p b" and "bb_view b = c @ v"
  shows "reads_to p b out (p\<lparr>ps_body := ps_body p @ c, ps_consumed := ps_consumed p + length c, ps_chunk_remaining := 0,
    ps_expect_chunk_crlf := True\<rparr>) v"
proof -
  let ?p' = "p\<lparr>ps_body := ps_body p @ c, ps_consumed := ps_consumed p + length c, ps_chunk_remaining := 0, ps_expect_chunk_crlf := True\<rparr>"
  have "chunk_take c p = ?p'" using assms(3,5) by (simp add: chunk_take_def Let_def)
  then have "steps_to (flat_step p b out) ?p' (bb_consume (length c) b)"
    using assms by (simp add: flat_step_def chunk_data_iter Let_def)
  from reads_toI [OF assms(7) this, of v] show ?thesis by (simp add: bb_view_consume assms(8))
qed

lemma chunk_end_read:
  assumes "ps_state p = SBodyChunked" "ps_expect_chunk_crlf p" "ps_scan p = 0" "\<not> oversized p b" "bb_view b = CRLF @ v"
  shows "reads_to p b out (p\<lparr>ps_expect_chunk_crlf := False, ps_consumed := ps_consumed p + 2\<rparr>) v"
proof -
  let ?p' = "p\<lparr>ps_expect_chunk_crlf := False, ps_consumed := ps_consumed p + 2\<rparr>"
  have e: "bb_view b = [] @ CRLF @ v" using assms(5) by simp
  have lr: "line_ready p b = (LineReady 0, p\<lparr>ps_scan := 2\<rparr>)"
    using line_ready_line [OF e _ assms(3)] by simp
  have same: "(advance 2 (p\<lparr>ps_scan := 2\<rparr>))\<lparr>ps_expect_chunk_crlf := False\<rparr> = ?p'"
    using assms(3) by (simp add: advance_def)
  have "steps_to (flat_step p b out) ?p' (bb_consume 2 b)"
    using assms(1,2) same by (simp add: flat_step_def body_chunked_iter_def lr)
  from reads_toI [OF assms(4) this, of v] show ?thesis by (simp add: bb_view_consume assms(5))
qed

definition after_chunks :: "bytes list \<Rightarrow> parser \<Rightarrow> parser" where
  "after_chunks cs p = p\<lparr>ps_body := ps_body p @ concat cs,
     ps_consumed := ps_consumed p + length (concat (map chunk_text cs))\<rparr>"

lemma after_chunks_Cons: "after_chunks cs (after_chunks [c] p) = after_chunks (c # cs) p"
  by (simp add: after_chunks_def)

lemma after_chunks_idle: "chunk_idle p \<Longrightarrow> chunk_idle (after_chunks cs p)"
  by (simp add: chunk_idle_def after_chunks_def)

lemma chunk_read:
  assumes "chunk_idle p" and "c \<noteq> []" and "length c \<le> 2 ^ 52" and "length (ps_body p) + length c \<le> max_body_bytes (ps_limits p)"
    and "\<not> oversized p b" and "bb_view b = chunk_text c @ v"
  shows "reads_to p b out (after_chunks [c] p) v"
proof -
  let ?p1 = "p\<lparr>ps_consumed := ps_consumed p + length (show_hex (length c)) + 2, ps_chunk_remaining := length c\<rparr>"
  let ?p2 = "?p1\<lparr>ps_body := ps_body ?p1 @ c, ps_consumed := ps_consumed ?p1 + length c, ps_chunk_remaining := 0,
    ps_expect_chunk_crlf := True\<rparr>"
  have idle: "ps_state p = SBodyChunked" "\<not> ps_expect_chunk_crlf p" "ps_chunk_remaining p = 0" "ps_scan p = 0"
    using assms(1) by (simp_all add: chunk_idle_def)
  have same: "?p2\<lparr>ps_expect_chunk_crlf := False, ps_consumed := ps_consumed ?p2 + 2\<rparr> = after_chunks [c] p"
    using idle by (cases p) (simp add: after_chunks_def chunk_text_def)
  have "reads_to p b out ?p1 (c @ CRLF @ v)"
    by (rule chunk_size_read) (use assms in \<open>simp_all add: chunk_text_def\<close>)
  moreover have "reads_to ?p1 b1 out ?p2 (CRLF @ v)" if "bb_view b1 = c @ CRLF @ v" "\<not> oversized ?p1 b1" for b1
    by (rule chunk_data_read) (use that idle assms(2,4) in simp_all)
  moreover have "reads_to ?p2 b2 out (after_chunks [c] p) v" if "bb_view b2 = CRLF @ v" "\<not> oversized ?p2 b2" for b2
    using chunk_end_read [of ?p2 b2 v out] that idle same by simp
  ultimately show ?thesis by (meson reads_to_trans)
qed

lemma chunks_read:
  assumes "chunk_idle p" and "list_all (\<lambda>c. c \<noteq> []) cs" and "length (concat cs) \<le> 2 ^ 52"
    and "length (ps_body p) + length (concat cs) \<le> max_body_bytes (ps_limits p)"
    and "\<not> oversized p b" and "bb_view b = concat (map chunk_text cs) @ v"
  shows "reads_to p b out (after_chunks cs p) v"
  using assms
proof (induction cs arbitrary: p b)
  case Nil
  have "after_chunks [] p = p" by (simp add: after_chunks_def)
  with reads_to_refl [of p b out] Nil.prems show ?case by simp
next
  case (Cons c cs)
  have "reads_to p b out (after_chunks [c] p) (concat (map chunk_text cs) @ v)"
    by (rule chunk_read) (use Cons.prems in simp_all)
  then show ?case
  proof (rule reads_to_trans)
    fix b' assume "bb_view b' = concat (map chunk_text cs) @ v" "\<not> oversized (after_chunks [c] p) b'"
    with Cons.prems show "reads_to (after_chunks [c] p) b' out (after_chunks (c # cs) p) v"
      by (subst after_chunks_Cons [symmetric], intro Cons.IH) (simp_all add: after_chunks_idle, simp_all add: after_chunks_def)
  qed
qed

lemma last_chunk_read:
  assumes "chunk_idle p" and "\<not> oversized p b" and "bb_view b = ''0'' @ CRLF @ v"
  shows "reads_to p b out (p\<lparr>ps_consumed := ps_consumed p + 3, ps_state := SChunkTrailer\<rparr>) v"
proof -
  let ?p' = "p\<lparr>ps_consumed := ps_consumed p + 3, ps_state := SChunkTrailer\<rparr>"
  have st: "ps_state p = SBodyChunked" "\<not> ps_expect_chunk_crlf p" "ps_chunk_remaining p = 0" "ps_scan p = 0"
    using assms(1) by (simp_all add: chunk_idle_def)
  have zero: "parse_chunk_size ''0'' = Inr 0" using parse_chunk_size_show_hex [of 0] by (simp add: show_hex.simps [of 0])
  have lr: "line_ready p b = (LineReady 1, p\<lparr>ps_scan := 3\<rparr>)" using line_ready_line [OF assms(3) _ st(4)] by simp
  have same: "(advance 3 (p\<lparr>ps_scan := 3\<rparr>))\<lparr>ps_state := SChunkTrailer\<rparr> = ?p'" using st(4) by (simp add: advance_def)
  have tk: "take 1 (bb_view b) = ''0''" by (simp add: assms(3))
  have "steps_to (flat_step p b out) ?p' (bb_consume 3 b)"
    using st same unfolding flat_step_def body_chunked_iter_def lr prod.case line_result.case tk zero
    by (simp add: numeral_3_eq_3)
  from reads_toI [OF assms(2) this, of v] show ?thesis by (simp add: bb_view_consume assms(3))
qed

lemma trailer_end_read:
  assumes "ps_state p = SChunkTrailer" and "ps_scan p = 0" and "\<not> oversized p b" and "bb_view b = CRLF @ v"
  shows "gives p b out ((finished_request p)\<lparr>rq_total_bytes := ps_consumed p + 2\<rparr>) v"
proof -
  have e: "bb_view b = [] @ CRLF @ v" using assms(4) by simp
  have lr: "line_ready p b = (LineReady 0, p\<lparr>ps_scan := 2\<rparr>)" using line_ready_line [OF e _ assms(2)] by simp
  have "flat_step p b out = emit_request (advance 2 (p\<lparr>ps_scan := 2\<rparr>)) (bb_consume 2 b)"
    using assms(1) by (simp add: flat_step_def trailer_iter_def lr numeral_2_eq_2)
  from givesI [OF assms(3) this _ refl] show ?thesis
    by (simp add: finished_request_def frame_simps bb_view_consume assms(4))
qed

lemma chunked_body_read:
  assumes "chunk_idle p" and "list_all (\<lambda>c. c \<noteq> []) cs" and "length (concat cs) \<le> 2 ^ 52" and "ps_body p = []"
    and "length (concat cs) \<le> max_body_bytes (ps_limits p)"
    and "\<not> oversized p b" and "bb_view b = payload_text (ChunkedBody cs) @ v"
  shows "gives p b out ((finished_request p)\<lparr>rq_body := concat cs,
    rq_total_bytes := ps_consumed p + length (payload_text (ChunkedBody cs))\<rparr>) v"
proof -
  let ?p1 = "after_chunks cs p"
  let ?p2 = "?p1\<lparr>ps_consumed := ps_consumed ?p1 + 3, ps_state := SChunkTrailer\<rparr>"
  have "reads_to p b out ?p1 (''0'' @ CRLF @ CRLF @ v)"
    by (rule chunks_read) (use assms in simp_all)
  moreover have "reads_to ?p1 b1 out ?p2 (CRLF @ v)" if "bb_view b1 = ''0'' @ CRLF @ CRLF @ v" "\<not> oversized ?p1 b1" for b1
    by (rule last_chunk_read) (use that assms(1) in \<open>simp_all add: after_chunks_idle\<close>)
  ultimately have r: "reads_to p b out ?p2 (CRLF @ v)" by (rule reads_to_trans)
  have "ps_scan p = 0" using assms(1) by (simp add: chunk_idle_def)
  then have "gives ?p2 b2 out ((finished_request ?p2)\<lparr>rq_total_bytes := ps_consumed ?p2 + 2\<rparr>) v"
    if "bb_view b2 = CRLF @ v" "\<not> oversized ?p2 b2" for b2
    using trailer_end_read [of ?p2 b2 v out] that by (simp add: after_chunks_def)
  from reads_to_gives [OF r this] have "gives p b out ((finished_request ?p2)\<lparr>rq_total_bytes := ps_consumed ?p2 + 2\<rparr>) v"
    by (simp add: after_chunks_def)
  moreover have "(finished_request ?p2)\<lparr>rq_total_bytes := ps_consumed ?p2 + 2\<rparr> = (finished_request p)\<lparr>rq_body := concat cs,
      rq_total_bytes := ps_consumed p + length (payload_text (ChunkedBody cs))\<rparr>"
    by (cases "ps_cur p") (simp add: finished_request_def after_chunks_def assms(4))
  ultimately show ?thesis by simp
qed

section \<open>The whole request\<close>

definition rendered_request :: "bytes \<Rightarrow> bytes \<Rightarrow> int \<Rightarrow> header list \<Rightarrow> payload \<Rightarrow> request" where
  "rendered_request m t minor hs pl =
     (request_shape m t minor)\<lparr>rq_headers := hs @ framing_headers pl, rq_body := payload_bytes pl,
       rq_keep_alive := (minor = 1), rq_header_bytes := length (header_block (hs @ framing_headers pl)),
       rq_total_bytes := length (render m t minor hs pl)\<rparr>"

lemma framing_headers_ok:
  "list_all (\<lambda>h. header_ok h \<and> trim_ows (hdr_value h) = hdr_value h) (framing_headers pl)"
proof -
  have "valid_token ''Content-Length''" "valid_token ''Transfer-Encoding''" "valid_header_value ''chunked''"
    by (simp_all add: valid_token_def valid_header_value_def is_tchar_def byte_of_def)
  moreover have "valid_header_value (show_nat n)" for n
    using set_show_nat [of _ n] by (fastforce simp: valid_header_value_def list_all_iff)
  moreover have "trim_ows ''chunked'' = ''chunked''" by (rule trim_ows_clean) (simp add: is_ows_def)
  ultimately show ?thesis by (cases pl) (simp_all add: header_ok_def)
qed

text \<open>The parser in front of the body: the head of the request has been read.\<close>

definition head_read :: "bytes \<Rightarrow> bytes \<Rightarrow> int \<Rightarrow> header list \<Rightarrow> payload \<Rightarrow> parser_limits \<Rightarrow> parser" where
  "head_read m t minor hs pl lim =
     accept_head minor (advance_header 2 ((after_headers (hs @ framing_headers pl) (after_line m t minor (parser_init lim)))
       \<lparr>ps_scan := 2\<rparr>))"

lemma head_read_fields:
  "ps_limits (head_read m t minor hs pl lim) = lim" "ps_scan (head_read m t minor hs pl lim) = 0"
  "ps_body (head_read m t minor hs pl lim) = []" "ps_state (head_read m t minor hs pl lim) = SHeaders"
  "ps_header_bytes (head_read m t minor hs pl lim) = length (header_block (hs @ framing_headers pl))"
  "ps_consumed (head_read m t minor hs pl lim) + length (payload_text pl) = length (render m t minor hs pl)"
  "ps_cur (head_read m t minor hs pl lim) =
     (request_shape m t minor)\<lparr>rq_headers := hs @ framing_headers pl, rq_keep_alive := (minor = 1)\<rparr>"
  by (simp_all add: head_read_def accept_head_def advance_header_def after_headers_def after_line_def advance_def
      parser_init_def Let_def header_block_def render_def request_shape_def request_init_def)

lemma after_head_fields:
  "ps_limits (after_head pl p) = ps_limits p" "ps_scan (after_head pl p) = ps_scan p" "ps_body (after_head pl p) = ps_body p"
  "ps_header_bytes (after_head pl p) = ps_header_bytes p" "ps_consumed (after_head pl p) = ps_consumed p"
  "ps_cur (after_head pl p) = ps_cur p"
  by (cases pl; simp)+

lemma body_read:
  assumes "p = head_read m t minor hs pl lim" and "sendable lim m t minor hs pl" and "\<not> bodiless pl"
    and "\<not> oversized (after_head pl p) b" and "bb_view b = payload_text pl @ v"
  shows "gives (after_head pl p) b out (rendered_request m t minor hs pl) v"
proof -
  note hf = head_read_fields [of m t minor hs pl lim, folded assms(1)]
  have req: "(finished_request (after_head pl p))\<lparr>rq_body := payload_bytes pl,
      rq_total_bytes := ps_consumed p + length (payload_text pl)\<rparr> = rendered_request m t minor hs pl"
    by (simp add: finished_request_def after_head_fields hf rendered_request_def request_shape_def)
  show ?thesis
  proof (cases pl)
    case NoBody
    with assms(3) show ?thesis by (simp add: bodiless_def)
  next
    case (FixedBody bs)
    with fixed_body_read [of "after_head pl p" bs b v out] assms hf req show ?thesis
      by (simp add: bodiless_def after_head_fields)
  next
    case (ChunkedBody cs)
    with chunked_body_read [of "after_head pl p" cs b v out] assms hf req show ?thesis
      by (simp add: sendable_def chunk_idle_def after_head_fields)
  qed
qed

lemma head_end_read:
  assumes "sendable lim m t minor hs pl" and "q = after_headers (hs @ framing_headers pl) (after_line m t minor (parser_init lim))"
    and "\<not> oversized q b" and "bb_view b = CRLF @ payload_text pl @ v"
  shows "gives q b out (rendered_request m t minor hs pl) v"
proof -
  define p where "p = head_read m t minor hs pl lim"
  note hf = head_read_fields [of m t minor hs pl lim, folded p_def]
  have qf: "ps_state q = SHeaders" "ps_scan q = 0" "ps_limits q = lim"
    by (simp_all add: assms(2) after_headers_def after_line_def advance_def Let_def parser_init_def)
  have e: "bb_view b = [] @ CRLF @ payload_text pl @ v" using assms(4) by simp
  have lr: "line_ready q b = (LineReady 0, q\<lparr>ps_scan := 2\<rparr>)" using line_ready_line [OF e _ qf(2)] by simp
  have acc: "accept_head minor (advance_header 2 (q\<lparr>ps_scan := 2\<rparr>)) = p" by (simp add: p_def head_read_def assms(2))
  have fin: "finish_headers (advance_header 2 (q\<lparr>ps_scan := 2\<rparr>)) =
      (if bodiless pl then KRequestReady else KBodyPending, after_head pl p, [])"
    unfolding acc [symmetric]
  proof (rule finish_headers_rendered)
    show "minor = 0 \<or> minor = 1" using assms(1) by (auto simp: sendable_def line_ok_def request_shape_def)
  qed (use assms(1) qf in \<open>simp_all add: sendable_def assms(2) frame_simps after_headers_def after_line_def Let_def\<close>,
      simp_all add: parser_init_def request_init_def advance_def)
  have st: "flat_step q b out = (if bodiless pl then emit_request (after_head pl p) (bb_consume 2 b)
      else Continue (after_head pl p) (bb_consume 2 b))"
    using fin by (simp add: flat_step_def qf headers_case_def lr numeral_2_eq_2)
  have v: "bb_view (bb_consume 2 b) = payload_text pl @ v" by (simp add: bb_view_consume assms(4))
  show ?thesis
  proof (cases "bodiless pl")
    case True
    have none: "payload_text pl = []" "payload_bytes pl = []" using True by (auto simp: bodiless_def)
    have "finished_request (after_head pl p) = rendered_request m t minor hs pl"
      using hf(6) none by (simp add: finished_request_def after_head_fields hf rendered_request_def request_shape_def request_init_def)
    with none show ?thesis
      using givesI [OF assms(3), of out "after_head pl p" "bb_consume 2 b" v] st True v
      by (simp add: after_head_fields hf qf)
  next
    case False
    with st have "steps_to (flat_step q b out) (after_head pl p) (bb_consume 2 b)" by simp
    from reads_toI [OF assms(3) this v] have "reads_to q b out (after_head pl p) (payload_text pl @ v)" .
    from reads_to_gives [OF this body_read [OF p_def assms(1) False]] show ?thesis
      by (simp add: after_head_fields hf qf)
  qed
qed

lemma parse_render:
  assumes "sendable lim m t minor hs pl" and "length (render m t minor hs pl) + length v \<le> max_request_bytes lim"
    and "bb_view b = render m t minor hs pl @ v"
  shows "\<exists>b'. parse (parser_init lim) b out = \<lparr>pr_status = KRequest, pr_out = rendered_request m t minor hs pl, pr_err = [],
    pr_parser = parser_init lim, pr_buf = b'\<rparr> \<and> bb_view b' = v"
proof -
  let ?p0 = "parser_init lim" and ?p1 = "after_line m t minor (parser_init lim)" and ?hs = "hs @ framing_headers pl"
  have p0: "ps_limits ?p0 = lim" "ps_state ?p0 = SRequestLine" "ps_scan ?p0 = 0" by (simp_all add: parser_init_def)
  have p1: "ps_limits ?p1 = lim" "ps_state ?p1 = SHeaders" "ps_scan ?p1 = 0" "ps_header_bytes ?p1 = 0" "rq_headers (ps_cur ?p1) = []"
    by (simp_all add: after_line_def advance_def parser_init_def request_init_def)
  have hsok: "list_all (\<lambda>h. header_ok h \<and> trim_ows (hdr_value h) = hdr_value h) ?hs"
    using assms(1) framing_headers_ok [of pl] by (auto simp: sendable_def plain_header_def list_all_iff)
  have over: "\<not> oversized ?p0 b" using assms(2,3) by (simp add: oversized_def parser_init_def)
  have "reads_to ?p0 b out ?p1 (wire_lines (map header_text ?hs) @ CRLF @ payload_text pl @ v)"
    by (rule request_line_read)
       (use assms(1,3) over p0 in \<open>simp_all add: sendable_def render_def header_block_def\<close>)
  moreover have "reads_to ?p1 b1 out (after_headers ?hs ?p1) (CRLF @ payload_text pl @ v)"
    if "bb_view b1 = wire_lines (map header_text ?hs) @ CRLF @ payload_text pl @ v" "\<not> oversized ?p1 b1" for b1
    by (rule headers_read [OF hsok]) (use that assms(1) p1 in \<open>simp_all add: sendable_def header_block_def\<close>)
  ultimately have "reads_to ?p0 b out (after_headers ?hs ?p1) (CRLF @ payload_text pl @ v)" by (rule reads_to_trans)
  from reads_to_gives [OF this head_end_read [OF assms(1) refl]] have "gives ?p0 b out (rendered_request m t minor hs pl) v"
    using p0 p1 by (simp add: after_headers_def Let_def)
  then show ?thesis by (simp add: gives_def parse_def p0)
qed

end
