(* ===== verification/Config.thy ===== *)
theory Config
  imports Http_Common Complex_Main
begin

text \<open>
  The runtime configuration of \<^verbatim>\<open>src/src/config.h\<close> and \<^verbatim>\<open>src/src/config.cpp\<close>: the struct
  \<^verbatim>\<open>Config\<close>, the readers for numbers on the command line, and \<^verbatim>\<open>parse_args\<close>.  A \<^verbatim>\<open>std::size_t\<close>
  member is a \<open>64 word\<close>, so sums wrap the way they do in the code.

  Two library functions are parameters: \<^verbatim>\<open>getopt_long\<close>, whose successive results are the list of
  option codes with their arguments, and \<^verbatim>\<open>strtod\<close>.  \<^verbatim>\<open>strtoull\<close> is modelled.
\<close>

section \<open>The struct\<close>

text \<open>A \<^verbatim>\<open>double\<close>: the code only compares it with 0 and converts it to a number of clock ticks.\<close>

datatype double = NaN | PosInf | NegInf | Finite rat

definition double_less_zero :: "double \<Rightarrow> bool" where
  "double_less_zero d = (case d of NaN \<Rightarrow> False | PosInf \<Rightarrow> False | NegInf \<Rightarrow> True | Finite r \<Rightarrow> r < 0)"

definition double_le_zero :: "double \<Rightarrow> bool" where
  "double_le_zero d = (case d of NaN \<Rightarrow> False | PosInf \<Rightarrow> False | NegInf \<Rightarrow> True | Finite r \<Rightarrow> r \<le> 0)"

record config =
  cf_bind :: bytes
  cf_port :: u16
  cf_port_file :: bytes
  cf_backlog :: int
  cf_workers :: u64
  cf_max_queue :: u64
  cf_max_connections :: u64
  cf_max_request_line_bytes :: u64
  cf_max_header_bytes :: u64
  cf_max_body_bytes :: u64
  cf_max_request_bytes :: u64
  cf_max_output_bytes :: u64
  cf_max_response_bytes :: u64
  cf_idle_timeout_sec :: double
  cf_shutdown_timeout_sec :: double
  cf_tick_ms :: int
  cf_verbose :: bool

definition config_init :: config where
  "config_init = \<lparr>cf_bind = ''::'', cf_port = 8080, cf_port_file = [], cf_backlog = 1024,
     cf_workers = 4, cf_max_queue = 1024, cf_max_connections = 4096,
     cf_max_request_line_bytes = 8 * 1024, cf_max_header_bytes = 64 * 1024,
     cf_max_body_bytes = 8 * 1024 * 1024, cf_max_request_bytes = 9 * 1024 * 1024,
     cf_max_output_bytes = 16 * 1024 * 1024, cf_max_response_bytes = 8 * 1024 * 1024,
     cf_idle_timeout_sec = Finite 15, cf_shutdown_timeout_sec = Finite 5, cf_tick_ms = 200,
     cf_verbose = False\<rparr>"

section \<open>Reading numbers\<close>

text \<open>
  \<^verbatim>\<open>strtoull\<close> in base 10: white space, an optional sign, digits.  The result is the value, the
  text \<^verbatim>\<open>end\<close> points at, and whether \<^verbatim>\<open>errno\<close> was set.  A minus sign negates modulo \<open>2 ^ 64\<close>;
  a value out of range gives \<^verbatim>\<open>ULLONG_MAX\<close> and \<^verbatim>\<open>ERANGE\<close>.
\<close>

definition is_space :: "byte \<Rightarrow> bool" where
  "is_space c = (c = SP \<or> (9 \<le> byte_of c \<and> byte_of c \<le> 13))"

definition strip_sign :: "bytes \<Rightarrow> bool \<times> bytes" where
  "strip_sign s = (case s of [] \<Rightarrow> (False, s)
     | c # cs \<Rightarrow> if c = CHR ''-'' then (True, cs) else if c = CHR ''+'' then (False, cs) else (False, s))"

definition strtoull :: "bytes \<Rightarrow> u64 \<times> bytes \<times> bool" where
  "strtoull s =
     (let (neg, t) = strip_sign (dropWhile is_space s);
          ds = takeWhile (\<lambda>c. dec_digit c \<noteq> None) t
      in if ds = [] then (0, s, False)
         else case numval 10 dec_digit 0 ds of
             None \<Rightarrow> (0, s, False)
           | Some n \<Rightarrow>
               let rest = dropWhile (\<lambda>c. dec_digit c \<noteq> None) t
               in if n \<ge> 2 ^ 64 then (- 1, rest, True)
                  else (if neg then - of_nat n else of_nat n, rest, False))"

text \<open>A C string argument: \<open>None\<close> is \<^verbatim>\<open>nullptr\<close>.\<close>

definition parse_size :: "bytes option \<Rightarrow> u64 option" where
  "parse_size s =
     (case s of
        None \<Rightarrow> None
      | Some s \<Rightarrow>
        if s = [] then None
        else case strtoull s of (v, rest, err) \<Rightarrow>
          if err \<or> rest = s \<or> rest \<noteq> [] then None else Some v)"

type_synonym strtod_fun = "bytes \<Rightarrow> double \<times> bytes \<times> bool"

definition parse_double :: "strtod_fun \<Rightarrow> bytes option \<Rightarrow> double option" where
  "parse_double strtod s =
     (case s of
        None \<Rightarrow> None
      | Some s \<Rightarrow>
        if s = [] then None
        else case strtod s of (v, rest, err) \<Rightarrow>
          if err \<or> rest = s \<or> rest \<noteq> [] then None else Some v)"

definition parse_port :: "bytes option \<Rightarrow> u16 option" where
  "parse_port s =
     (case parse_size s of None \<Rightarrow> None | Some v \<Rightarrow> if v > 65535 then None else Some (ucast v))"

section \<open>The command line\<close>

definition usage :: "config \<Rightarrow> bytes" where
  "usage cfg =
     ''usage: http_server [options]'' @ [LF]
     @ ''  -b, --bind <addr>        bind address (default '' @ [CHR 0x22] @ ''::'' @ [CHR 0x22]
     @ '' = dual-stack IPv6+IPv4)'' @ [LF]
     @ ''  -p, --port <port>        port, 0 = ephemeral (default 8080)'' @ [LF]
     @ ''      --port-file <path>   write the actual bound port to <path>'' @ [LF]
     @ ''      --backlog <n>        listen backlog (default 1024)'' @ [LF]
     @ ''  -w, --workers <n>        worker threads (default min(nproc,8)='' @ show_nat (unat (cf_workers cfg))
     @ '')'' @ [LF]
     @ ''      --queue-size <n>     bounded worker queue (default 1024)'' @ [LF]
     @ ''      --max-connections <n> concurrent connection limit (default 4096)'' @ [LF]
     @ ''      --max-request-line <bytes>  (default 8192)'' @ [LF]
     @ ''      --max-headers <bytes>       (default 65536)'' @ [LF]
     @ ''      --max-body <bytes>          (default 8388608)'' @ [LF]
     @ ''      --max-request <bytes>       line+headers+body cap (auto-raised)'' @ [LF]
     @ ''      --max-output <bytes>        per-connection output cap (default 16MiB)'' @ [LF]
     @ ''      --max-response <bytes>      handler body cap (default 8MiB)'' @ [LF]
     @ ''      --idle-timeout <sec>        408 after this much client silence (default 15)'' @ [LF]
     @ ''      --shutdown-timeout <sec>    graceful drain budget (default 5)'' @ [LF]
     @ ''      --tick-ms <ms>              timeout scan interval (default 200)'' @ [LF]
     @ ''  -v, --verbose            log per-request and per-connection detail'' @ [LF]
     @ ''  -h, --help               this text'' @ [LF]"

text \<open>\<^verbatim>\<open>Config::describe\<close>; \<open>show_double\<close> is the stream output of a \<^verbatim>\<open>double\<close>.\<close>

definition describe :: "(double \<Rightarrow> bytes) \<Rightarrow> config \<Rightarrow> bytes" where
  "describe show_double cfg =
     ''bind='' @ cf_bind cfg @ '':'' @ show_nat (unat (cf_port cfg)) @ '' workers='' @ show_nat (unat (cf_workers cfg))
     @ '' queue='' @ show_nat (unat (cf_max_queue cfg)) @ '' max_conn='' @ show_nat (unat (cf_max_connections cfg))
     @ '' idle='' @ show_double (cf_idle_timeout_sec cfg) @ ''s''
     @ '' shutdown='' @ show_double (cf_shutdown_timeout_sec cfg) @ ''s''
     @ '' max_req='' @ show_nat (unat (cf_max_request_bytes cfg))
     @ ''B max_headers='' @ show_nat (unat (cf_max_header_bytes cfg))
     @ ''B max_body='' @ show_nat (unat (cf_max_body_bytes cfg))
     @ ''B max_out='' @ show_nat (unat (cf_max_output_bytes cfg)) @ ''B''"

text \<open>
  The options: the values \<^verbatim>\<open>getopt_long\<close> returns, with \<open>OptBad\<close> for any other value (the
  \<^verbatim>\<open>default\<close> case).
\<close>

datatype opt = OptBind | OptPort | OptPortFile | OptBacklog | OptWorkers | OptQueueSize
  | OptMaxConnections | OptMaxRequestLine | OptMaxHeaders | OptMaxBody | OptMaxRequest | OptMaxOutput
  | OptMaxResponse | OptIdleTimeout | OptShutdownTimeout | OptTickMs | OptVerbose | OptHelp | OptBad

text \<open>The state of the loop: the configuration, the messages of \<^verbatim>\<open>bad\<close>, the flag \<^verbatim>\<open>failed\<close>.\<close>

record args_state =
  as_cfg :: config
  as_bad :: bytes
  as_failed :: bool

definition args_fail :: "bytes \<Rightarrow> bytes option \<Rightarrow> args_state \<Rightarrow> args_state" where
  "args_fail name val s = s\<lparr>as_bad := as_bad s @ ''invalid value for '' @ name @ '': '' @ [CHR 0x27]
       @ (case val of None \<Rightarrow> [] | Some v \<Rightarrow> v) @ [CHR 0x27, LF], as_failed := True\<rparr>"

text \<open>
  A size option that is stored before it is checked: \<^verbatim>\<open>!parse_size(optarg, cfg.f) || bad(cfg.f)\<close>.
\<close>

definition size_option :: "bytes \<Rightarrow> bytes option \<Rightarrow> ((u64 \<Rightarrow> u64) \<Rightarrow> config \<Rightarrow> config) \<Rightarrow> (u64 \<Rightarrow> bool)
    \<Rightarrow> args_state \<Rightarrow> args_state" where
  "size_option name arg upd bad s =
     (case parse_size arg of
        None \<Rightarrow> args_fail name arg s
      | Some v \<Rightarrow> let s = s\<lparr>as_cfg := upd (\<lambda>_. v) (as_cfg s)\<rparr>
                 in if bad v then args_fail name arg s else s)"

definition double_option :: "strtod_fun \<Rightarrow> bytes \<Rightarrow> bytes option \<Rightarrow> ((double \<Rightarrow> double) \<Rightarrow> config \<Rightarrow> config)
    \<Rightarrow> args_state \<Rightarrow> args_state" where
  "double_option strtod name arg upd s =
     (case parse_double strtod arg of
        None \<Rightarrow> args_fail name arg s
      | Some v \<Rightarrow> let s = s\<lparr>as_cfg := upd (\<lambda>_. v) (as_cfg s)\<rparr>
                 in if double_less_zero v then args_fail name arg s else s)"

text \<open>One pass through the loop: \<open>None\<close> is the early return for \<^verbatim>\<open>-h\<close>.\<close>

definition args_step :: "strtod_fun \<Rightarrow> opt \<Rightarrow> bytes option \<Rightarrow> args_state \<Rightarrow> args_state option" where
  "args_step strtod c optarg s =
     (case c of
        OptBind \<Rightarrow> Some (s\<lparr>as_cfg := (as_cfg s)\<lparr>cf_bind := (case optarg of None \<Rightarrow> [] | Some a \<Rightarrow> a)\<rparr>\<rparr>)
      | OptPort \<Rightarrow>
          (case parse_port optarg of
             None \<Rightarrow> Some (args_fail ''--port'' optarg s)
           | Some v \<Rightarrow> Some (s\<lparr>as_cfg := (as_cfg s)\<lparr>cf_port := v\<rparr>\<rparr>))
      | OptPortFile \<Rightarrow> Some (s\<lparr>as_cfg := (as_cfg s)\<lparr>cf_port_file := (case optarg of None \<Rightarrow> [] | Some a \<Rightarrow> a)\<rparr>\<rparr>)
      | OptBacklog \<Rightarrow>
          (case parse_size optarg of
             None \<Rightarrow> Some (args_fail ''--backlog'' optarg s)
           | Some v \<Rightarrow> if v = 0 \<or> v > 65535 then Some (args_fail ''--backlog'' optarg s)
                      else Some (s\<lparr>as_cfg := (as_cfg s)\<lparr>cf_backlog := uint v\<rparr>\<rparr>))
      | OptWorkers \<Rightarrow> Some (size_option ''--workers'' optarg cf_workers_update (\<lambda>v. v = 0) s)
      | OptQueueSize \<Rightarrow> Some (size_option ''--queue-size'' optarg cf_max_queue_update (\<lambda>v. v = 0) s)
      | OptMaxConnections \<Rightarrow>
          Some (size_option ''--max-connections'' optarg cf_max_connections_update (\<lambda>v. v = 0) s)
      | OptMaxRequestLine \<Rightarrow>
          Some (size_option ''--max-request-line'' optarg cf_max_request_line_bytes_update (\<lambda>v. v < 16) s)
      | OptMaxHeaders \<Rightarrow> Some (size_option ''--max-headers'' optarg cf_max_header_bytes_update (\<lambda>v. v < 64) s)
      | OptMaxBody \<Rightarrow> Some (size_option ''--max-body'' optarg cf_max_body_bytes_update (\<lambda>v. False) s)
      | OptMaxRequest \<Rightarrow> Some (size_option ''--max-request'' optarg cf_max_request_bytes_update (\<lambda>v. False) s)
      | OptMaxOutput \<Rightarrow> Some (size_option ''--max-output'' optarg cf_max_output_bytes_update (\<lambda>v. v < 1024) s)
      | OptMaxResponse \<Rightarrow>
          Some (size_option ''--max-response'' optarg cf_max_response_bytes_update (\<lambda>v. v < 1) s)
      | OptIdleTimeout \<Rightarrow> Some (double_option strtod ''--idle-timeout'' optarg cf_idle_timeout_sec_update s)
      | OptShutdownTimeout \<Rightarrow>
          Some (double_option strtod ''--shutdown-timeout'' optarg cf_shutdown_timeout_sec_update s)
      | OptTickMs \<Rightarrow>
          (case parse_size optarg of
             None \<Rightarrow> Some (args_fail ''--tick-ms'' optarg s)
           | Some v \<Rightarrow> if v < 10 \<or> v > 5000 then Some (args_fail ''--tick-ms'' optarg s)
                      else Some (s\<lparr>as_cfg := (as_cfg s)\<lparr>cf_tick_ms := uint v\<rparr>\<rparr>))
      | OptVerbose \<Rightarrow> Some (s\<lparr>as_cfg := (as_cfg s)\<lparr>cf_verbose := True\<rparr>\<rparr>)
      | OptHelp \<Rightarrow> None
      | OptBad \<Rightarrow> Some (s\<lparr>as_bad := as_bad s @ ''unrecognised option (see --help)'' @ [LF], as_failed := True\<rparr>))"

text \<open>The loop: \<open>Inl\<close> is the state at the early return.\<close>

fun args_loop :: "strtod_fun \<Rightarrow> (opt \<times> bytes option) list \<Rightarrow> args_state \<Rightarrow> args_state + args_state" where
  "args_loop strtod [] s = Inr s"
| "args_loop strtod ((c, arg) # opts) s =
     (case args_step strtod c arg s of None \<Rightarrow> Inl s | Some s' \<Rightarrow> args_loop strtod opts s')"

record args_result =
  ar_ok :: bool
  ar_cfg :: config
  ar_err :: bytes
  ar_wants_exit_success :: bool

text \<open>
  \<^verbatim>\<open>parse_args\<close>: \<open>hw\<close> is \<^verbatim>\<open>hardware_concurrency()\<close>, \<open>opts\<close> the options in order, \<open>positional\<close>
  the argument \<^verbatim>\<open>argv[optind]\<close> if there is one.
\<close>

definition parse_args :: "strtod_fun \<Rightarrow> u64 \<Rightarrow> (opt \<times> bytes option) list \<Rightarrow> bytes option \<Rightarrow> config \<Rightarrow> args_result" where
  "parse_args strtod hw opts positional cfg =
     (let cfg = cfg\<lparr>cf_workers := (if hw > 0 then min hw 8 else 4)\<rparr>
      in case args_loop strtod opts \<lparr>as_cfg = cfg, as_bad = [], as_failed = False\<rparr> of
           Inl s \<Rightarrow> \<lparr>ar_ok = False, ar_cfg = as_cfg s, ar_err = usage (as_cfg s), ar_wants_exit_success = True\<rparr>
         | Inr s \<Rightarrow>
           let s = (case positional of
                      None \<Rightarrow> s
                    | Some a \<Rightarrow> s\<lparr>as_bad := as_bad s @ ''unexpected positional argument: '' @ [CHR 0x27] @ a
                                    @ [CHR 0x27, LF], as_failed := True\<rparr>);
               cfg = as_cfg s;
               cfg = (if cf_max_request_bytes cfg < cf_max_body_bytes cfg + cf_max_header_bytes cfg
                      then cfg\<lparr>cf_max_request_bytes := cf_max_body_bytes cfg + cf_max_header_bytes cfg\<rparr>
                      else cfg)
           in if as_failed s
              then \<lparr>ar_ok = False, ar_cfg = cfg, ar_err = as_bad s @ usage cfg, ar_wants_exit_success = False\<rparr>
              else \<lparr>ar_ok = True, ar_cfg = cfg, ar_err = [], ar_wants_exit_success = False\<rparr>)"

section \<open>Reading back printed numbers\<close>

lemma dec_digit_show_nat: "c \<in> set (show_nat n) \<Longrightarrow> dec_digit c \<noteq> None"
  using set_show_nat [of c n] by (auto simp: dec_digit_def)

lemma show_nat_not_space: "\<not> is_space (hd (show_nat n)) \<and> hd (show_nat n) \<noteq> CHR ''-'' \<and> hd (show_nat n) \<noteq> CHR ''+''"
proof -
  have "48 \<le> byte_of (hd (show_nat n)) \<and> byte_of (hd (show_nat n)) \<le> 57"
    using set_show_nat [of "hd (show_nat n)" n] by simp
  then show ?thesis by (auto simp: is_space_def byte_of_def)
qed

lemma parse_size_signed:
  assumes "n < 2 ^ 64" and "sign = [] \<or> sign = ''+'' \<or> sign = ''-''" and "list_all is_space ws"
  shows "parse_size (Some (ws @ sign @ show_nat n)) = Some (if sign = ''-'' then - of_nat n else of_nat n)"
proof -
  let ?P = "\<lambda>c. dec_digit c \<noteq> None"
  obtain d ds where n: "show_nat n = d # ds" using show_nat_not_Nil [of n] by (meson neq_Nil_conv)
  have d: "\<not> is_space d" "d \<noteq> CHR ''-''" "d \<noteq> CHR ''+''" using show_nat_not_space [of n] by (simp_all add: n)
  have all: "list_all ?P (d # ds)" using dec_digit_show_nat [of _ n] by (auto simp: n list_all_iff)
  have ws: "dropWhile is_space (ws @ t) = dropWhile is_space t" for t
    using assms(3) by (induction ws) simp_all
  have sign: "strip_sign (dropWhile is_space (ws @ sign @ d # ds)) = (sign = ''-'', d # ds)"
    unfolding ws using assms(2) d by (auto simp: strip_sign_def is_space_def byte_of_def)
  have tw: "takeWhile ?P (d # ds) = d # ds" "dropWhile ?P (d # ds) = []"
    using all by (simp_all add: takeWhile_eq_all_conv list_all_iff)
  have nv: "numval 10 dec_digit 0 (d # ds) = Some n" using numval_show_nat [of n] by (simp only: n)
  have "strtoull (ws @ sign @ d # ds) = (if sign = ''-'' then - of_nat n else of_nat n, [], False)"
    unfolding strtoull_def sign Let_def prod.case tw nv using assms(1) by simp
  then show ?thesis by (simp add: parse_size_def n)
qed

section \<open>What an accepted command line guarantees\<close>

definition config_ok :: "config \<Rightarrow> bool" where
  "config_ok cfg =
     (1 \<le> cf_workers cfg \<and> 1 \<le> cf_max_queue cfg \<and> 1 \<le> cf_max_connections cfg \<and>
      16 \<le> cf_max_request_line_bytes cfg \<and> 64 \<le> cf_max_header_bytes cfg \<and>
      1024 \<le> cf_max_output_bytes cfg \<and> 1 \<le> cf_max_response_bytes cfg \<and>
      1 \<le> cf_backlog cfg \<and> cf_backlog cfg \<le> 65535 \<and>
      \<not> double_less_zero (cf_idle_timeout_sec cfg) \<and> \<not> double_less_zero (cf_shutdown_timeout_sec cfg) \<and>
      10 \<le> cf_tick_ms cfg \<and> cf_tick_ms cfg \<le> 5000)"

definition args_ok :: "args_state \<Rightarrow> bool" where
  "args_ok s = (\<not> as_failed s \<longrightarrow> config_ok (as_cfg s))"

lemma args_fail_ok [simp]: "args_ok (args_fail name arg s)" "as_failed (args_fail name arg s)"
  by (simp_all add: args_ok_def args_fail_def)

definition args_kept :: "args_state \<Rightarrow> args_state \<Rightarrow> bool" where
  "args_kept s s' = (args_ok s' \<and> (as_failed s \<longrightarrow> as_failed s'))"

lemma args_kept_fail: "args_kept s (args_fail name arg s)"
  by (simp add: args_kept_def)

lemma args_kept_update:
  "args_ok s \<Longrightarrow> (\<And>cfg. config_ok cfg \<Longrightarrow> config_ok (f cfg)) \<Longrightarrow> args_kept s (s\<lparr>as_cfg := f (as_cfg s)\<rparr>)"
  by (simp add: args_kept_def args_ok_def)

lemma args_kept_size:
  assumes "args_ok s" and "\<And>v cfg. \<not> bad v \<Longrightarrow> config_ok cfg \<Longrightarrow> config_ok (upd (\<lambda>_. v) cfg)"
  shows "args_kept s (size_option name arg upd bad s)"
  using assms by (auto simp: size_option_def args_kept_def args_ok_def Let_def split: option.splits)

lemma args_kept_double:
  assumes "args_ok s" and "\<And>v cfg. \<not> double_less_zero v \<Longrightarrow> config_ok cfg \<Longrightarrow> config_ok (upd (\<lambda>_. v) cfg)"
  shows "args_kept s (double_option strtod name arg upd s)"
  using assms by (auto simp: double_option_def args_kept_def args_ok_def Let_def split: option.splits)

lemma u64_pos: "v \<noteq> 0 \<Longrightarrow> 1 \<le> (v :: u64)" "0 < v \<Longrightarrow> 1 \<le> (v :: u64)"
  by (simp_all add: word_le_nat_alt unat_gt_0 Suc_le_eq)

lemma size_range: "\<not> (v < 10 \<or> 5000 < (v :: u64)) \<Longrightarrow> 10 \<le> uint v \<and> uint v \<le> 5000"
  "\<not> (v = 0 \<or> 65535 < (v :: u64)) \<Longrightarrow> 1 \<le> uint v \<and> uint v \<le> 65535"
  using u64_pos(1) [of v] by (auto simp: word_less_def word_le_def)

text \<open>Each option keeps a usable configuration usable if its own check passes.\<close>

lemma config_ok_fields:
  "config_ok cfg \<Longrightarrow> config_ok (cfg\<lparr>cf_bind := b\<rparr>)" "config_ok cfg \<Longrightarrow> config_ok (cfg\<lparr>cf_port := p\<rparr>)"
  "config_ok cfg \<Longrightarrow> config_ok (cfg\<lparr>cf_port_file := b\<rparr>)" "config_ok cfg \<Longrightarrow> config_ok (cfg\<lparr>cf_verbose := vb\<rparr>)"
  "config_ok cfg \<Longrightarrow> config_ok (cfg\<lparr>cf_max_body_bytes := v\<rparr>)" "config_ok cfg \<Longrightarrow> config_ok (cfg\<lparr>cf_max_request_bytes := v\<rparr>)"
  "config_ok cfg \<Longrightarrow> v \<noteq> 0 \<Longrightarrow> config_ok (cfg\<lparr>cf_workers := v\<rparr>)"
  "config_ok cfg \<Longrightarrow> v \<noteq> 0 \<Longrightarrow> config_ok (cfg\<lparr>cf_max_queue := v\<rparr>)"
  "config_ok cfg \<Longrightarrow> v \<noteq> 0 \<Longrightarrow> config_ok (cfg\<lparr>cf_max_connections := v\<rparr>)"
  "config_ok cfg \<Longrightarrow> \<not> v < 16 \<Longrightarrow> config_ok (cfg\<lparr>cf_max_request_line_bytes := v\<rparr>)"
  "config_ok cfg \<Longrightarrow> \<not> v < 64 \<Longrightarrow> config_ok (cfg\<lparr>cf_max_header_bytes := v\<rparr>)"
  "config_ok cfg \<Longrightarrow> \<not> v < 1024 \<Longrightarrow> config_ok (cfg\<lparr>cf_max_output_bytes := v\<rparr>)"
  "config_ok cfg \<Longrightarrow> \<not> v < 1 \<Longrightarrow> config_ok (cfg\<lparr>cf_max_response_bytes := v\<rparr>)"
  "config_ok cfg \<Longrightarrow> \<not> double_less_zero d \<Longrightarrow> config_ok (cfg\<lparr>cf_idle_timeout_sec := d\<rparr>)"
  "config_ok cfg \<Longrightarrow> \<not> double_less_zero d \<Longrightarrow> config_ok (cfg\<lparr>cf_shutdown_timeout_sec := d\<rparr>)"
  "config_ok cfg \<Longrightarrow> \<not> (v = 0 \<or> 65535 < v) \<Longrightarrow> config_ok (cfg\<lparr>cf_backlog := uint v\<rparr>)"
  "config_ok cfg \<Longrightarrow> \<not> (v < 10 \<or> 5000 < v) \<Longrightarrow> config_ok (cfg\<lparr>cf_tick_ms := uint v\<rparr>)"
  using size_range [of v] by (simp_all add: config_ok_def u64_pos not_less)

lemma args_step_ok:
  assumes "args_ok s" and "args_step strtod c arg s = Some s'"
  shows "args_kept s s'"
proof -
  note size = args_kept_size [OF assms(1)] and double = args_kept_double [OF assms(1)]
    and update = args_kept_update [OF assms(1)]
  from assms(2) show ?thesis
    by (cases c)
       (auto simp: args_step_def args_kept_fail config_ok_fields split: option.splits if_splits
         intro!: size double update, auto simp: args_kept_def args_ok_def)
qed

lemma args_loop_ok:
  "args_ok s \<Longrightarrow> args_loop strtod opts s = Inr s' \<Longrightarrow> args_ok s'"
  by (induction strtod opts s rule: args_loop.induct) (auto split: option.splits dest: args_step_ok [unfolded args_kept_def])

lemma parse_args_ok:
  assumes "config_ok cfg" and "parse_args strtod hw opts positional cfg = r" and "ar_ok r"
  shows "config_ok (ar_cfg r) \<and> cf_max_request_bytes (ar_cfg r) \<ge> cf_max_body_bytes (ar_cfg r) + cf_max_header_bytes (ar_cfg r)"
proof -
  let ?s0 = "\<lparr>as_cfg = cfg\<lparr>cf_workers := (if hw > 0 then min hw 8 else 4)\<rparr>, as_bad = [], as_failed = False\<rparr>"
  have "args_ok ?s0" using assms(1) by (auto simp: args_ok_def config_ok_def min_def u64_pos(2))
  with assms(2,3) obtain s where s: "args_loop strtod opts ?s0 = Inr s" "args_ok s" "positional = None" "\<not> as_failed s"
    by (auto simp: parse_args_def Let_def args_loop_ok split: sum.splits option.splits if_splits)
  define cfg' where "cfg' = as_cfg s"
  from s assms(2) have r: "ar_cfg r = (if cf_max_request_bytes cfg' < cf_max_body_bytes cfg' + cf_max_header_bytes cfg'
      then cfg'\<lparr>cf_max_request_bytes := cf_max_body_bytes cfg' + cf_max_header_bytes cfg'\<rparr> else cfg')"
    by (auto simp: parse_args_def Let_def cfg'_def)
  have "config_ok cfg'" using s by (simp add: args_ok_def cfg'_def)
  then show ?thesis unfolding r by (auto simp: config_ok_def)
qed

end
