(* ===== verification/Handler.thy ===== *)
theory Handler
  imports Http_Common Config
begin

text \<open>
  The application of \<^verbatim>\<open>src/src/handler.cpp\<close>: the routes, the JSON escaping of what a client sent
  and \<^verbatim>\<open>handle_request\<close>.  Besides the response, \<open>handle_request\<close> gives the milliseconds the call
  slept (\<^verbatim>\<open>sleep_for\<close> is the only effect a handler has).
\<close>

section \<open>Building responses\<close>

definition kAllow :: bytes where
  "kAllow = ''GET, HEAD, POST, OPTIONS''"

definition kMaxSleepMs :: u64 where
  "kMaxSleepMs = 10000"

definition finalize :: "response \<Rightarrow> request \<Rightarrow> response" where
  "finalize res req =
     (let res = res\<lparr>rs_req_major := rq_major req, rs_req_minor := rq_minor req,
                    rs_keep_alive := rq_keep_alive req\<rparr>
      in if is_head req then res\<lparr>rs_send_body := False\<rparr> else res)"

definition kTextPlain :: bytes where
  "kTextPlain = ''text/plain; charset=utf-8''"

definition text_response :: "request \<Rightarrow> int \<Rightarrow> bytes \<Rightarrow> bytes \<Rightarrow> response" where
  "text_response req status body content_type =
     finalize (rs_set ''Content-Type'' content_type (response_init\<lparr>rs_status := status, rs_body := body\<rparr>)) req"

definition error_response :: "request \<Rightarrow> int \<Rightarrow> bytes \<Rightarrow> response" where
  "error_response req status detail =
     (let res = (make_error_response status detail (rq_keep_alive req))
                  \<lparr>rs_req_major := rq_major req, rs_req_minor := rq_minor req\<rparr>
      in if is_head req then res\<lparr>rs_send_body := False\<rparr> else res)"

definition options_response :: "request \<Rightarrow> response" where
  "options_response req =
     (rs_set ''Content-Type'' ''text/plain; charset=utf-8'' (rs_set ''Allow'' kAllow (response_init\<lparr>rs_status := 204\<rparr>)))
       \<lparr>rs_no_body_framing := True, rs_send_body := False, rs_keep_alive := rq_keep_alive req,
        rs_req_major := rq_major req, rs_req_minor := rq_minor req\<rparr>"

section \<open>Numbers in targets\<close>

text \<open>The loop over the digits, with its early exit at \<^verbatim>\<open>1ull << 40\<close>.\<close>

primrec extract_loop :: "u64 \<Rightarrow> bytes \<Rightarrow> u64" where
  "extract_loop v [] = v"
| "extract_loop v (c # cs) =
     (let v' = v * 10 + of_nat (byte_of c - 48) in if v' > 2 ^ 40 then 2 ^ 40 else extract_loop v' cs)"

definition is_digit :: "byte \<Rightarrow> bool" where
  "is_digit c = (48 \<le> byte_of c \<and> byte_of c \<le> 57)"

definition extract_number :: "bytes \<Rightarrow> bytes \<Rightarrow> u64 option" where
  "extract_number target pre =
     (if length target < length pre \<or> take (length pre) target \<noteq> pre then None
      else let rest = drop (length pre) target;
               digits = takeWhile is_digit (dropWhile (\<lambda>c. \<not> is_digit c) rest)
           in if digits = [] then None else Some (extract_loop 0 digits))"

section \<open>JSON\<close>

definition kHex :: bytes where
  "kHex = ''0123456789abcdef''"

definition json_escape_char :: "byte \<Rightarrow> bytes" where
  "json_escape_char c =
     (let uc = byte_of c
      in if c = CHR 0x22 then [CHR 0x5C, CHR 0x22]
         else if c = CHR 0x5C then [CHR 0x5C, CHR 0x5C]
         else if c = LF then CHR 0x5C # ''n''
         else if c = CR then CHR 0x5C # ''r''
         else if c = HTAB then CHR 0x5C # ''t''
         else if uc < 32 \<or> uc \<ge> 127
           then CHR 0x5C # ''u00'' @ [kHex ! (uc div 16 mod 16), kHex ! (uc mod 16)]
         else [c])"

definition json_escape :: "bytes \<Rightarrow> bytes" where
  "json_escape s = concat (map json_escape_char s)"

abbreviation DQ :: bytes where "DQ \<equiv> [CHR 0x22]"

definition body_preview :: "request \<Rightarrow> nat \<Rightarrow> bytes" where
  "body_preview req limit =
     ''{'' @ DQ @ ''method'' @ DQ @ '':'' @ DQ @ json_escape (rq_method_name req)
     @ DQ @ '','' @ DQ @ ''target'' @ DQ @ '':'' @ DQ @ json_escape (rq_target req)
     @ DQ @ '','' @ DQ @ ''version'' @ DQ @ '':'' @ DQ @ ''1.''
     @ (if rq_minor req = 0 then ''0'' else ''1'')
     @ DQ @ '','' @ DQ @ ''headers'' @ DQ @ '':'' @ show_nat (length (rq_headers req))
     @ '','' @ DQ @ ''body_bytes'' @ DQ @ '':'' @ show_nat (length (rq_body req))
     @ (if rq_body req \<noteq> []
        then '','' @ DQ @ ''body_preview'' @ DQ @ '':'' @ DQ @ json_escape (take limit (rq_body req)) @ DQ
        else [])
     @ ''}'' @ [LF]"

section \<open>Routes\<close>

definition path_of :: "bytes \<Rightarrow> bytes" where
  "path_of t = (case sv_find CHR ''?'' 0 t of None \<Rightarrow> t | Some i \<Rightarrow> take i t)"

definition index_body :: bytes where
  "index_body = ''{'' @ DQ @ ''status'' @ DQ @ '':'' @ DQ @ ''ok'' @ DQ @ '','' @ DQ @ ''server'' @ DQ @ '':''
     @ DQ @ ''cpp-http'' @ DQ @ '','' @ DQ @ ''path'' @ DQ @ '':'' @ DQ @ ''/'' @ DQ @ ''}'' @ [LF]"

text \<open>The result of a handler: the response and the milliseconds slept.\<close>

type_synonym handled = "response \<times> nat"

definition slow_response :: "request \<Rightarrow> u64 \<Rightarrow> handled" where
  "slow_response req ms =
     (let capped_ms = min ms kMaxSleepMs
      in (text_response req 200 (''slept '' @ show_nat (unat capped_ms) @ ''ms'' @ [LF]) kTextPlain, unat capped_ms))"

definition handle_get_head :: "request \<Rightarrow> config \<Rightarrow> handled" where
  "handle_get_head req cfg =
     (let t = rq_target req; path = path_of t
      in if path = ''/'' \<or> path = ''/index.html'' then (text_response req 200 index_body ''application/json'', 0)
         else if path = ''/health'' then (text_response req 200 (''ok'' @ [LF]) kTextPlain, 0)
         else if path = ''/info'' then (text_response req 200 (body_preview req 256) ''application/json'', 0)
         else if path = ''/echo'' then
           (let ctype = request_header ''Content-Type'' req;
                ctype = (if ctype = [] \<or> \<not> valid_header_value ctype then ''text/plain; charset=utf-8'' else ctype)
            in (text_response req 200 (rq_body req) ctype, 0))
         else if path = ''/boom'' then (error_response req 500 ''simulated handler failure'', 0)
         else if path = ''/close'' then
           ((text_response req 200 (''closing'' @ [LF]) kTextPlain)\<lparr>rs_close_after := True, rs_keep_alive := False\<rparr>, 0)
         else case extract_number t ''/big'' of
             Some n \<Rightarrow> (text_response req 200
                          (replicate (unat (min n (cf_max_response_bytes cfg))) CHR ''x'') kTextPlain, 0)
           | None \<Rightarrow>
               (case extract_number t ''/slow'' of
                  Some ms \<Rightarrow> slow_response req ms
                | None \<Rightarrow> (error_response req 404 ''no such resource'', 0)))"

definition handle_post :: "request \<Rightarrow> config \<Rightarrow> handled" where
  "handle_post req cfg =
     (let t = rq_target req; path = path_of t
      in if path = ''/info'' then (text_response req 200 (body_preview req 256) ''application/json'', 0)
         else if path = ''/health'' then (text_response req 200 (''ok'' @ [LF]) kTextPlain, 0)
         else if path = ''/'' then (text_response req 200 index_body ''application/json'', 0)
         else case extract_number t ''/slow'' of
             Some ms \<Rightarrow> slow_response req ms
           | None \<Rightarrow>
               if path = ''/echo'' then
                 (let ctype = request_header ''Content-Type'' req;
                      ctype = (if ctype = [] \<or> \<not> valid_header_value ctype then ''application/octet-stream'' else ctype)
                  in (text_response req 200 (rq_body req) ctype, 0))
               else if path = ''/upload'' then
                 (text_response req 200
                    (''{'' @ DQ @ ''received'' @ DQ @ '':'' @ show_nat (length (rq_body req)) @ '','' @ DQ @ ''sha_hint''
                     @ DQ @ '':'' @ show_nat (length (rq_body req) mod 1000003) @ ''}'' @ [LF]) ''application/json'', 0)
               else if path = ''/boom'' then (error_response req 500 ''simulated handler failure'', 0)
               else (error_response req 404 ''no such resource'', 0))"

definition handle_request :: "request \<Rightarrow> config \<Rightarrow> handled" where
  "handle_request req cfg =
     (if is_star_target req
      then (if is_options req then (options_response req, 0)
            else (error_response req 400 ([CHR 0x27] @ ''*'' @ [CHR 0x27] @ '' target is only valid for OPTIONS''), 0))
      else case rq_method req of
          Get \<Rightarrow> handle_get_head req cfg
        | Head \<Rightarrow> handle_get_head req cfg
        | Post \<Rightarrow> handle_post req cfg
        | Options \<Rightarrow> (options_response req, 0)
        | Unknown \<Rightarrow> (error_response req 405 ''method not allowed'', 0))"

section \<open>Numbers stay below their caps\<close>

text \<open>The digit loop with its overflow reported: it fits the interface of the capped accumulators.\<close>

primrec extract_checked :: "u64 \<Rightarrow> bytes \<Rightarrow> u64 option" where
  "extract_checked v [] = Some v"
| "extract_checked v (c # cs) =
     (case dec_digit c of None \<Rightarrow> None
      | Some d \<Rightarrow> let v' = v * 10 + of_nat d in if v' > 2 ^ 40 then None else extract_checked v' cs)"

lemma is_digit_dec_digit: "is_digit c \<longleftrightarrow> dec_digit c = Some (byte_of c - 48)"
  by (auto simp: is_digit_def dec_digit_def)

lemma extract_loop_checked:
  "list_all is_digit s \<Longrightarrow> extract_loop v s = (case extract_checked v s of None \<Rightarrow> 2 ^ 40 | Some w \<Rightarrow> w)"
  by (induction s arbitrary: v) (auto simp: is_digit_dec_digit Let_def)

interpretation ex: capped_numeral 10 dec_digit "2 ^ 40" extract_checked
  by unfold_locales (simp_all add: dec_digit_less Let_def split: option.split)

lemma numval_digits: "list_all is_digit s \<Longrightarrow> \<exists>n. numval 10 dec_digit v s = Some n"
  by (induction s arbitrary: v) (auto simp: is_digit_dec_digit)

lemma extract_loop_exact:
  assumes "list_all is_digit s" and "numval 10 dec_digit 0 s = Some n"
  shows "unat (extract_loop 0 s) = min n (2 ^ 40)"
proof -
  have "extract_checked 0 s = (if n \<le> unat (2 ^ 40 :: u64) then Some (of_nat n) else None)"
    using ex.loop_eq_numval [of 0 s] assms(2) by simp
  moreover have "unat (2 ^ 40 :: u64) = 2 ^ 40" by simp
  ultimately show ?thesis
    using extract_loop_checked [OF assms(1), of 0] u64_unat_of_nat [of n] by auto
qed

lemma extract_numberD:
  assumes "extract_number target pre = Some v"
  shows "\<exists>skip digits rest n. target = pre @ skip @ digits @ rest \<and> list_all (\<lambda>c. \<not> is_digit c) skip \<and>
    digits \<noteq> [] \<and> list_all is_digit digits \<and> (rest \<noteq> [] \<longrightarrow> \<not> is_digit (hd rest)) \<and>
    numval 10 dec_digit 0 digits = Some n \<and> unat v = min n (2 ^ 40)"
proof -
  let ?rest = "drop (length pre) target"
  let ?skip = "takeWhile (\<lambda>c. \<not> is_digit c) ?rest" and ?from = "dropWhile (\<lambda>c. \<not> is_digit c) ?rest"
  let ?digits = "takeWhile is_digit ?from"
  from assms have pre: "take (length pre) target = pre" and ne: "?digits \<noteq> []"
    and v: "v = extract_loop 0 ?digits"
    by (auto simp: extract_number_def Let_def split: if_splits)
  have all: "list_all is_digit ?digits" by (auto simp: list_all_iff dest: set_takeWhileD)
  then obtain n where n: "numval 10 dec_digit 0 ?digits = Some n" using numval_digits by blast
  have "target = pre @ ?rest" using append_take_drop_id [of "length pre" target] pre by simp
  then have "target = pre @ ?skip @ ?digits @ dropWhile is_digit ?from" by simp
  moreover have "list_all (\<lambda>c. \<not> is_digit c) ?skip" by (auto simp: list_all_iff dest: set_takeWhileD)
  moreover have "dropWhile is_digit ?from \<noteq> [] \<longrightarrow> \<not> is_digit (hd (dropWhile is_digit ?from))"
    using hd_dropWhile by blast
  ultimately show ?thesis using all ne n v extract_loop_exact [OF all n] by blast
qed

section \<open>Escaped text is printable and can be read back\<close>

definition printable :: "byte \<Rightarrow> bool" where
  "printable c = (32 \<le> byte_of c \<and> byte_of c < 127)"

lemma kHex_nth: "i < 16 \<Longrightarrow> printable (kHex ! i)"
proof -
  have "list_all printable kHex" by (simp add: kHex_def printable_def byte_of_def)
  moreover assume "i < 16"
  ultimately show ?thesis by (simp add: list_all_length kHex_def)
qed

lemma json_escape_char_printable: "list_all printable (json_escape_char c)"
proof -
  have "printable (kHex ! (byte_of c div 16 mod 16))" "printable (kHex ! (byte_of c mod 16))"
    by (simp_all add: kHex_nth)
  then show ?thesis by (auto simp: json_escape_char_def Let_def printable_def byte_of_def not_less)
qed

lemma json_escape_printable: "list_all printable (json_escape s)"
  using json_escape_char_printable by (induction s) (simp_all add: json_escape_def)

text \<open>A reader for escaped text, for the escapes the server writes.\<close>

definition hex_value :: "byte \<Rightarrow> nat option" where
  "hex_value c = index_of c kHex"

fun json_unescape :: "bytes \<Rightarrow> bytes option" where
  "json_unescape [] = Some []"
| "json_unescape (c # cs) =
     (if c = CHR 0x22 then None
      else if c \<noteq> CHR 0x5C then map_option ((#) c) (json_unescape cs)
      else case cs of
          [] \<Rightarrow> None
        | e # r \<Rightarrow>
          if e = CHR 0x22 \<or> e = CHR 0x5C then map_option ((#) e) (json_unescape r)
          else if e = CHR ''n'' then map_option ((#) LF) (json_unescape r)
          else if e = CHR ''r'' then map_option ((#) CR) (json_unescape r)
          else if e = CHR ''t'' then map_option ((#) HTAB) (json_unescape r)
          else if e = CHR ''u'' then
            (case r of
               z1 # z2 # a # b # r' \<Rightarrow>
                 if z1 = CHR ''0'' \<and> z2 = CHR ''0''
                 then (case (hex_value a, hex_value b) of
                         (Some x, Some y) \<Rightarrow> map_option ((#) (char_of (16 * x + y))) (json_unescape r')
                       | _ \<Rightarrow> None)
                 else None
             | _ \<Rightarrow> None)
          else None)"

lemma hex_value_nth: "i < 16 \<Longrightarrow> hex_value (kHex ! i) = Some i"
proof -
  have "list_all (\<lambda>i. hex_value (kHex ! i) = Some i) [0..<16]" by code_simp
  moreover assume "i < 16"
  ultimately show ?thesis by (simp add: list_all_iff)
qed

lemma json_unescape_char: "json_unescape (json_escape_char c @ s) = map_option ((#) c) (json_unescape s)"
proof -
  have uc: "16 * (byte_of c div 16 mod 16) + byte_of c mod 16 = byte_of c"
    by (simp add: mod_less div_less_iff_less_mult less_mult_imp_div_less)
  have c: "char_of (byte_of c) = c" by (simp add: byte_of_def)
  show ?thesis
    by (auto simp: json_escape_char_def Let_def hex_value_nth uc c simp del: char_of_nat_def)
qed

lemma json_unescape_escape: "json_unescape (json_escape s) = Some s"
  by (induction s) (simp_all add: json_escape_def json_unescape_char)

section \<open>What every response looks like\<close>

named_theorems response_simps \<open>fields of the responses the handlers build\<close>

lemma text_response_fields [response_simps]:
  "rs_status (text_response req st body ct) = st" "rs_body (text_response req st body ct) = body"
  "rs_keep_alive (text_response req st body ct) = rq_keep_alive req"
  "rs_req_major (text_response req st body ct) = rq_major req"
  "rs_req_minor (text_response req st body ct) = rq_minor req"
  "rs_send_body (text_response req st body ct) = (\<not> is_head req)"
  "rs_no_body_framing (text_response req st body ct) = False"
  "rs_close_after (text_response req st body ct) = False"
  "rs_headers (text_response req st body ct) = [\<lparr>hdr_name = ''Content-Type'', hdr_value = ct\<rparr>]"
  by (simp_all add: text_response_def finalize_def rs_set_def response_init_def Let_def)

lemma error_response_fields [response_simps]:
  "rs_status (error_response req st d) = st"
  "rs_keep_alive (error_response req st d) = rq_keep_alive req"
  "rs_req_major (error_response req st d) = rq_major req"
  "rs_req_minor (error_response req st d) = rq_minor req"
  "rs_send_body (error_response req st d) = (\<not> is_head req \<and> st \<noteq> 204 \<and> st \<noteq> 304)"
  "rs_no_body_framing (error_response req st d) = (st = 204 \<or> st = 304)"
  "rs_close_after (error_response req st d) = False"
  "st \<noteq> 204 \<Longrightarrow> st \<noteq> 304 \<Longrightarrow> rs_body (error_response req st d) = status_reason st @ '': '' @ d @ [LF]"
  by (simp_all add: error_response_def make_error_response_def rs_set_def response_init_def Let_def)

lemma options_response_fields [response_simps]:
  "rs_status (options_response req) = 204" "rs_body (options_response req) = []"
  "rs_keep_alive (options_response req) = rq_keep_alive req"
  "rs_req_major (options_response req) = rq_major req" "rs_req_minor (options_response req) = rq_minor req"
  "rs_send_body (options_response req) = False" "rs_no_body_framing (options_response req) = True"
  "rs_close_after (options_response req) = False"
  by (simp_all add: options_response_def rs_set_def response_init_def)

text \<open>
  The contract of a handler: the request's version, a connection kept alive only if the request
  allows it, no body for \<^verbatim>\<open>HEAD\<close>, no length on 204 only, a bounded sleep, a known status.
\<close>

definition handled_ok :: "request \<Rightarrow> handled \<Rightarrow> bool" where
  "handled_ok req h =
     (let res = fst h
      in rs_req_major res = rq_major req \<and> rs_req_minor res = rq_minor req \<and>
         (rs_keep_alive res \<longrightarrow> rq_keep_alive req) \<and> (rs_close_after res \<longrightarrow> \<not> rs_keep_alive res) \<and>
         (is_head req \<longrightarrow> \<not> rs_send_body res) \<and> (rs_no_body_framing res \<longleftrightarrow> rs_status res = 204) \<and>
         (rs_no_body_framing res \<longrightarrow> \<not> rs_send_body res \<and> rs_body res = []) \<and>
         rs_status res \<in> {200, 204, 400, 404, 405, 500} \<and> snd h \<le> 10000)"

lemma slow_bound: "unat (min ms kMaxSleepMs) \<le> 10000"
proof -
  have "min ms kMaxSleepMs \<le> kMaxSleepMs" by simp
  then have "unat (min ms kMaxSleepMs) \<le> unat kMaxSleepMs" by (simp only: word_le_nat_alt)
  then show ?thesis by (simp add: kMaxSleepMs_def)
qed

lemma text_ok: "handled_ok req (text_response req 200 body ct, 0)"
  by (simp add: handled_ok_def response_simps Let_def)

lemma error_ok: "st \<in> {400, 404, 405, 500} \<Longrightarrow> handled_ok req (error_response req st d, 0)"
  by (auto simp: handled_ok_def response_simps Let_def)

lemma options_ok: "handled_ok req (options_response req, 0)"
  by (simp add: handled_ok_def response_simps Let_def)

lemma slow_ok: "handled_ok req (slow_response req ms)"
  using slow_bound by (simp add: handled_ok_def slow_response_def response_simps Let_def)

lemma close_ok:
  "handled_ok req ((text_response req 200 body ct)\<lparr>rs_close_after := True, rs_keep_alive := False\<rparr>, 0)"
  by (simp add: handled_ok_def response_simps Let_def)

lemmas route_ok = text_ok error_ok options_ok slow_ok close_ok

lemma handle_get_head_ok: "handled_ok req (handle_get_head req cfg)"
  by (auto simp: handle_get_head_def Let_def route_ok split: option.split)

lemma handle_post_ok: "handled_ok req (handle_post req cfg)"
  by (auto simp: handle_post_def Let_def route_ok split: option.split)

lemma handle_request_ok: "handled_ok req (handle_request req cfg)"
  by (cases "rq_method req")
     (simp_all add: handle_request_def handle_get_head_ok handle_post_ok route_ok)

section \<open>HEAD answers like GET, without the body\<close>

definition as_method :: "http_method \<Rightarrow> request \<Rightarrow> request" where
  "as_method m req = req\<lparr>rq_method := m\<rparr>"

lemma as_method_same:
  "text_response (as_method Head req) st body ct = (text_response (as_method Get req) st body ct)\<lparr>rs_send_body := False\<rparr>"
  "error_response (as_method Head req) st' d = (error_response (as_method Get req) st' d)\<lparr>rs_send_body := False\<rparr>"
  "rq_target (as_method m req) = rq_target req" "rq_body (as_method m req) = rq_body req"
  "request_header name (as_method m req) = request_header name req"
  "body_preview (as_method m req) l = body_preview req l" "rq_method (as_method m req) = m"
  "is_star_target (as_method m req) = is_star_target req"
  by (simp_all add: as_method_def text_response_def error_response_def finalize_def rs_set_def is_head_def
      request_header_def body_preview_def is_star_target_def Let_def)

lemma update_commute:
  "res\<lparr>rs_send_body := a, rs_close_after := b, rs_keep_alive := c\<rparr> =
   res\<lparr>rs_close_after := b, rs_keep_alive := c, rs_send_body := a\<rparr>"
  by simp

lemma handle_head_like_get:
  assumes "\<not> is_star_target req"
  shows "handle_request (as_method Head req) cfg =
    (let (res, ms) = handle_request (as_method Get req) cfg in (res\<lparr>rs_send_body := False\<rparr>, ms))"
  using assms
  by (auto simp: handle_request_def handle_get_head_def slow_response_def as_method_same Let_def
      split: option.split)

section \<open>Bounded bodies\<close>

lemma length_json_escape: "length (json_escape s) \<le> 6 * length s"
  by (induction s) (auto simp: json_escape_def json_escape_char_def Let_def)

lemma big_bound:
  assumes "extract_number (rq_target req) ''/big'' = Some n"
  shows "unat (min n (cf_max_response_bytes cfg)) \<le> unat (cf_max_response_bytes cfg)"
proof -
  have "min n (cf_max_response_bytes cfg) \<le> cf_max_response_bytes cfg" by simp
  then show ?thesis by (simp only: word_le_nat_alt)
qed

end
