(* ===== verification/Thread_Pool.thy ===== *)
theory Thread_Pool
  imports Http_Prelude "HOL-Library.Multiset"
begin

text \<open>
  The worker pool of \<^verbatim>\<open>src/src/thread_pool.h\<close> and \<^verbatim>\<open>src/src/thread_pool.cpp\<close>.  The members are the
  record \<open>pool\<close>; every critical section (the code between taking and releasing \<^verbatim>\<open>mu_\<close>) is one
  function on it.  The threads interleave at the critical sections, which \<open>pool_step\<close> describes:
  a worker sleeps on the condition variable, is awake, runs a job or has left \<^verbatim>\<open>run()\<close>;
  notifications are sent after the mutex is released, as in the code, and wake-ups may be spurious.
\<close>

section \<open>The critical sections\<close>

text \<open>A job is of any type \<open>'j\<close>; a thread handle is a number.\<close>

record 'j pool =
  tp_queue :: "'j list"
  tp_max_queue :: nat
  tp_stopping :: bool
  tp_joined :: bool
  tp_threads :: "nat list"

text \<open>
  The constructor: \<open>created i\<close> tells whether the \<open>i\<close>-th \<^verbatim>\<open>pthread_create\<close> succeeds; the first
  failure ends the loop.
\<close>

definition pool_init :: "nat \<Rightarrow> nat \<Rightarrow> (nat \<Rightarrow> bool) \<Rightarrow> 'j pool" where
  "pool_init threads max_queue created =
     \<lparr>tp_queue = [], tp_max_queue = (if max_queue = 0 then 1 else max_queue), tp_stopping = False,
      tp_joined = False, tp_threads = takeWhile created [0..<(if threads = 0 then 1 else threads)]\<rparr>"

text \<open>\<^verbatim>\<open>try_submit\<close>; the job is \<open>None\<close> for an empty \<^verbatim>\<open>std::function\<close>.\<close>

definition try_submit :: "'j option \<Rightarrow> 'j pool \<Rightarrow> bool \<times> 'j pool" where
  "try_submit job p =
     (case job of
        None \<Rightarrow> (False, p)
      | Some j \<Rightarrow>
        if tp_stopping p \<or> tp_threads p = [] then (False, p)
        else if length (tp_queue p) \<ge> tp_max_queue p then (False, p)
        else (True, p\<lparr>tp_queue := tp_queue p @ [j]\<rparr>))"

text \<open>The critical section of \<^verbatim>\<open>run()\<close>: wait again, leave, or take the front job.\<close>

datatype 'j taken = Wait | Leave | Take 'j

definition run_section :: "'j pool \<Rightarrow> 'j taken \<times> 'j pool" where
  "run_section p =
     (if \<not> (tp_stopping p \<or> tp_queue p \<noteq> []) then (Wait, p)
      else case tp_queue p of
          [] \<Rightarrow> (Leave, p)
        | j # js \<Rightarrow> (Take j, p\<lparr>tp_queue := js\<rparr>))"

text \<open>
  The critical sections of \<^verbatim>\<open>stop()\<close> and \<^verbatim>\<open>stop_forced()\<close>: the threads to join and the new state;
  \<open>None\<close> is the early return of \<^verbatim>\<open>stop()\<close>.
\<close>

definition stop_section :: "'j pool \<Rightarrow> (nat list \<times> 'j pool) option" where
  "stop_section p =
     (if tp_stopping p \<and> tp_joined p then None
      else Some (tp_threads p, p\<lparr>tp_stopping := True, tp_threads := [], tp_joined := True\<rparr>))"

definition stop_forced_section :: "'j pool \<Rightarrow> nat list \<times> 'j pool" where
  "stop_forced_section p = (tp_threads p, p\<lparr>tp_stopping := True, tp_threads := [], tp_joined := True\<rparr>)"

definition queue_size :: "'j pool \<Rightarrow> nat" where
  "queue_size p = length (tp_queue p)"

definition worker_count :: "'j pool \<Rightarrow> nat" where
  "worker_count p = length (tp_threads p)"

definition stopping :: "'j pool \<Rightarrow> bool" where
  "stopping p = tp_stopping p"

text \<open>
  The join loop of \<^verbatim>\<open>stop_forced\<close> for one thread: what \<^verbatim>\<open>pthread_tryjoin_np\<close> returns and the clock
  reading after it, poll by poll.  \<open>None\<close> means that the polls given were not enough.
\<close>

definition EBUSY :: int where
  "EBUSY = 16"

fun join_poll :: "int \<Rightarrow> (int \<times> int) list \<Rightarrow> bool option" where
  "join_poll deadline [] = None"
| "join_poll deadline ((rc, now) # polls) =
     (if rc = 0 \<or> rc \<noteq> EBUSY then Some True
      else if now \<ge> deadline then Some False
      else join_poll deadline polls)"

fun join_all :: "int \<Rightarrow> (int \<times> int) list list \<Rightarrow> bool option" where
  "join_all deadline [] = Some True"
| "join_all deadline (polls # rest) =
     (case join_poll deadline polls of
        None \<Rightarrow> None
      | Some joined \<Rightarrow> (case join_all deadline rest of None \<Rightarrow> None | Some b \<Rightarrow> Some (joined \<and> b)))"

definition stop_forced :: "int \<Rightarrow> int \<Rightarrow> (nat \<Rightarrow> (int \<times> int) list) \<Rightarrow> 'j pool \<Rightarrow> bool option \<times> 'j pool" where
  "stop_forced now wait_ms polls p =
     (let (to_join, p) = stop_forced_section p
      in (join_all (now + wait_ms * 1000000) (map polls to_join), p))"

section \<open>The interface the event loop uses\<close>

text \<open>
  A bounded queue of jobs: a submission is refused, without any change, exactly when the queue is
  closed or full, and is otherwise put at the end.
\<close>

fun submit_all :: "('j \<Rightarrow> 'q \<Rightarrow> bool \<times> 'q) \<Rightarrow> 'j list \<Rightarrow> 'q \<Rightarrow> bool list \<times> 'q" where
  "submit_all submit [] q = ([], q)"
| "submit_all submit (j # js) q =
     (let (b, q') = submit j q; (bs, q'') = submit_all submit js q' in (b # bs, q''))"

locale bounded_queue =
  fixes jobs :: "'q \<Rightarrow> 'j list" and cap :: "'q \<Rightarrow> nat" and closed :: "'q \<Rightarrow> bool"
    and submit :: "'j \<Rightarrow> 'q \<Rightarrow> bool \<times> 'q"
  assumes submit_refused: "closed q \<or> length (jobs q) \<ge> cap q \<Longrightarrow> submit j q = (False, q)"
    and submit_accepted: "\<not> closed q \<Longrightarrow> length (jobs q) < cap q \<Longrightarrow>
      \<exists>q'. submit j q = (True, q') \<and> jobs q' = jobs q @ [j] \<and> cap q' = cap q \<and> closed q' = closed q"
begin

lemma submit_all_closed: "closed q \<Longrightarrow> submit_all submit js q = (replicate (length js) False, q)"
  by (induction js) (simp_all add: submit_refused)

lemma submit_all_full: "length (jobs q) \<ge> cap q \<Longrightarrow> submit_all submit js q = (replicate (length js) False, q)"
  by (induction js) (simp_all add: submit_refused)

lemma submit_all_open:
  assumes "\<not> closed q" and "length (jobs q) \<le> cap q"
  shows "\<exists>q'. submit_all submit js q =
      (replicate (min (length js) (cap q - length (jobs q))) True @
       replicate (length js - (cap q - length (jobs q))) False, q') \<and>
    jobs q' = jobs q @ take (cap q - length (jobs q)) js \<and> length (jobs q') \<le> cap q' \<and> cap q' = cap q"
  using assms
proof (induction js arbitrary: q)
  case Nil
  then show ?case by simp
next
  case (Cons j js)
  show ?case
  proof (cases "length (jobs q) = cap q")
    case True
    then show ?thesis using submit_all_full [of q "j # js"] by simp
  next
    case False
    with Cons.prems submit_accepted [of q j] obtain q1 where q1: "submit j q = (True, q1)"
      "jobs q1 = jobs q @ [j]" "cap q1 = cap q" "closed q1 = closed q" by auto
    with Cons.IH [of q1] Cons.prems False obtain q' where "submit_all submit js q1 =
        (replicate (min (length js) (cap q - length (jobs q) - 1)) True @
         replicate (length js - (cap q - length (jobs q) - 1)) False, q')"
      "jobs q' = jobs q @ j # take (cap q - length (jobs q) - 1) js" "length (jobs q') \<le> cap q'" "cap q' = cap q"
      by auto
    moreover obtain f where "cap q - length (jobs q) = Suc f"
      using False Cons.prems by (metis Suc_diff_Suc le_neq_implies_less)
    ultimately show ?thesis using q1(1) by simp
  qed
qed

end

text \<open>The pool provides it: the queue is closed when it is stopping or has no thread.\<close>

definition pool_closed :: "'j pool \<Rightarrow> bool" where
  "pool_closed p = (tp_stopping p \<or> tp_threads p = [])"

interpretation tp: bounded_queue tp_queue tp_max_queue pool_closed "\<lambda>j. try_submit (Some j)"
  by unfold_locales (auto simp: try_submit_def pool_closed_def)

section \<open>The threads\<close>

datatype 'j phase = Sleeping | Awake | Running 'j | Exited

text \<open>
  The system: the pool, the workers, the notifications that are due but not sent yet (one per
  submission after its critical section, and that of \<^verbatim>\<open>stop\<close>), and three histories: the jobs
  accepted, the jobs started and the jobs finished, each in order.
\<close>

record 'j pool_sys =
  sys_pool :: "'j pool"
  sys_workers :: "'j phase list"
  sys_notify :: nat
  sys_notify_all :: bool
  sys_accepted :: "'j list"
  sys_started :: "'j list"
  sys_finished :: "'j list"

definition sys_init :: "nat \<Rightarrow> nat \<Rightarrow> (nat \<Rightarrow> bool) \<Rightarrow> 'j pool_sys" where
  "sys_init threads max_queue created =
     (let p = pool_init threads max_queue created
      in \<lparr>sys_pool = p, sys_workers = replicate (length (tp_threads p)) Awake, sys_notify = 0,
          sys_notify_all = False, sys_accepted = [], sys_started = [], sys_finished = []\<rparr>)"

definition wake_all :: "'j phase list \<Rightarrow> 'j phase list" where
  "wake_all ws = map (\<lambda>w. case w of Sleeping \<Rightarrow> Awake | _ \<Rightarrow> w) ws"

text \<open>
  The steps of the pool itself: due notifications, and the workers going through \<^verbatim>\<open>run()\<close>.
\<close>

inductive worker_step :: "'j pool_sys \<Rightarrow> 'j pool_sys \<Rightarrow> bool" where
  notify_one: "sys_notify s > 0 \<Longrightarrow> i < length (sys_workers s) \<Longrightarrow> sys_workers s ! i = Sleeping \<Longrightarrow>
    worker_step s (s\<lparr>sys_notify := sys_notify s - 1, sys_workers := (sys_workers s)[i := Awake]\<rparr>)"
| notify_none: "sys_notify s > 0 \<Longrightarrow> Sleeping \<notin> set (sys_workers s) \<Longrightarrow>
    worker_step s (s\<lparr>sys_notify := sys_notify s - 1\<rparr>)"
| notify_all: "sys_notify_all s \<Longrightarrow>
    worker_step s (s\<lparr>sys_notify_all := False, sys_workers := wake_all (sys_workers s)\<rparr>)"
| sleep: "i < length (sys_workers s) \<Longrightarrow> sys_workers s ! i = Awake \<Longrightarrow> run_section (sys_pool s) = (Wait, p) \<Longrightarrow>
    worker_step s (s\<lparr>sys_pool := p, sys_workers := (sys_workers s)[i := Sleeping]\<rparr>)"
| leave: "i < length (sys_workers s) \<Longrightarrow> sys_workers s ! i = Awake \<Longrightarrow> run_section (sys_pool s) = (Leave, p) \<Longrightarrow>
    worker_step s (s\<lparr>sys_pool := p, sys_workers := (sys_workers s)[i := Exited]\<rparr>)"
| take: "i < length (sys_workers s) \<Longrightarrow> sys_workers s ! i = Awake \<Longrightarrow> run_section (sys_pool s) = (Take j, p) \<Longrightarrow>
    worker_step s (s\<lparr>sys_pool := p, sys_workers := (sys_workers s)[i := Running j],
                     sys_started := sys_started s @ [j]\<rparr>)"
| finish: "i < length (sys_workers s) \<Longrightarrow> sys_workers s ! i = Running j \<Longrightarrow>
    worker_step s (s\<lparr>sys_workers := (sys_workers s)[i := Awake], sys_finished := sys_finished s @ [j]\<rparr>)"

text \<open>All steps: those, and what other threads and the operating system do.\<close>

inductive pool_step :: "'j pool_sys \<Rightarrow> 'j pool_sys \<Rightarrow> bool" where
  internal: "worker_step s s' \<Longrightarrow> pool_step s s'"
| submit: "try_submit (Some j) (sys_pool s) = (True, p) \<Longrightarrow>
    pool_step s (s\<lparr>sys_pool := p, sys_notify := Suc (sys_notify s), sys_accepted := sys_accepted s @ [j]\<rparr>)"
| spurious: "i < length (sys_workers s) \<Longrightarrow> sys_workers s ! i = Sleeping \<Longrightarrow>
    pool_step s (s\<lparr>sys_workers := (sys_workers s)[i := Awake]\<rparr>)"
| stop: "stop_section (sys_pool s) = Some (ts, p) \<Longrightarrow>
    pool_step s (s\<lparr>sys_pool := p, sys_notify_all := True\<rparr>)"
| stop_forced: "stop_forced_section (sys_pool s) = (ts, p) \<Longrightarrow>
    pool_step s (s\<lparr>sys_pool := p, sys_notify_all := True\<rparr>)"

inductive_cases pool_stepE: "pool_step s s'"
inductive_cases worker_stepE: "worker_step s s'"

inductive pool_reachable :: "'j pool_sys \<Rightarrow> 'j pool_sys \<Rightarrow> bool" for s0 where
  start: "pool_reachable s0 s0"
| step: "pool_reachable s0 s \<Longrightarrow> pool_step s s' \<Longrightarrow> pool_reachable s0 s'"

section \<open>The invariant\<close>

definition phase_job :: "'j phase \<Rightarrow> 'j multiset" where
  "phase_job w = (case w of Running j \<Rightarrow> {#j#} | _ \<Rightarrow> {#})"

definition running_jobs :: "'j phase list \<Rightarrow> 'j multiset" where
  "running_jobs ws = sum_list (map phase_job ws)"

lemma phase_job_simps [simp]:
  "phase_job Sleeping = {#}" "phase_job Awake = {#}" "phase_job Exited = {#}" "phase_job (Running j) = {#j#}"
  by (simp_all add: phase_job_def)

lemma running_jobs_update:
  assumes "i < length ws"
  shows "running_jobs (ws[i := w]) + phase_job (ws ! i) = running_jobs ws + phase_job w"
proof -
  have "running_jobs ws = running_jobs (take i ws @ ws ! i # drop (Suc i) ws)"
    using id_take_nth_drop [OF assms] by simp
  then show ?thesis
    by (simp add: upd_conv_take_nth_drop [OF assms] running_jobs_def)
qed

lemma running_jobs_idle:
  assumes "i < length ws" "phase_job (ws ! i) = {#}" "phase_job w = {#}"
  shows "running_jobs (ws[i := w]) = running_jobs ws"
  using running_jobs_update [OF assms(1), of w] assms(2,3) by simp

lemma running_jobs_wake_all [simp]: "running_jobs (wake_all ws) = running_jobs ws"
  by (induction ws) (auto simp: running_jobs_def wake_all_def phase_job_def split: phase.splits)

lemma wake_all_set:
  "Sleeping \<notin> set (wake_all ws)" "Exited \<in> set (wake_all ws) \<longleftrightarrow> Exited \<in> set ws" "wake_all ws = [] \<longleftrightarrow> ws = []"
  by (induction ws) (auto simp: wake_all_def split: phase.splits)

text \<open>
  The work: the queue is bounded; accepted jobs are started in the order in which they were
  accepted; a started job is running or finished.
\<close>

definition work_inv :: "'j pool_sys \<Rightarrow> bool" where
  "work_inv s =
     (length (tp_queue (sys_pool s)) \<le> tp_max_queue (sys_pool s) \<and>
      sys_accepted s = sys_started s @ tp_queue (sys_pool s) \<and>
      mset (sys_started s) = mset (sys_finished s) + running_jobs (sys_workers s))"

text \<open>
  The wake-ups: a worker has left only if the pool is stopping and the queue is empty; while it is
  stopping, nobody sleeps unless the notification of \<^verbatim>\<open>stop\<close> is due; otherwise, while there is a
  job, a notification is due or some worker is awake or running.
\<close>

definition active :: "'j phase \<Rightarrow> bool" where
  "active w = (w \<noteq> Sleeping \<and> w \<noteq> Exited)"

definition wake_inv :: "'j pool_sys \<Rightarrow> bool" where
  "wake_inv s =
     (let p = sys_pool s; ws = sys_workers s
      in (Exited \<in> set ws \<longrightarrow> tp_stopping p \<and> tp_queue p = []) \<and>
         (tp_stopping p \<longrightarrow> sys_notify_all s \<or> Sleeping \<notin> set ws) \<and>
         (\<not> tp_stopping p \<longrightarrow> tp_queue p \<noteq> [] \<longrightarrow> sys_notify s > 0 \<or> list_ex active ws) \<and>
         (tp_threads p \<noteq> [] \<or> tp_queue p \<noteq> [] \<longrightarrow> ws \<noteq> []))"

definition pool_inv :: "'j pool_sys \<Rightarrow> bool" where
  "pool_inv s = (work_inv s \<and> wake_inv s)"

lemma run_section_cases:
  "run_section p = (Wait, p') \<longleftrightarrow> \<not> tp_stopping p \<and> tp_queue p = [] \<and> p' = p"
  "run_section p = (Leave, p') \<longleftrightarrow> tp_stopping p \<and> tp_queue p = [] \<and> p' = p"
  "run_section p = (Take j, p') \<longleftrightarrow> (\<exists>js. tp_queue p = j # js \<and> p' = p\<lparr>tp_queue := js\<rparr>)"
  by (auto simp: run_section_def split: list.splits)

lemma try_submit_True:
  "try_submit (Some j) p = (True, p') \<longleftrightarrow> \<not> tp_stopping p \<and> tp_threads p \<noteq> [] \<and>
     length (tp_queue p) < tp_max_queue p \<and> p' = p\<lparr>tp_queue := tp_queue p @ [j]\<rparr>"
  by (auto simp: try_submit_def)

lemma work_inv_worker: "worker_step s s' \<Longrightarrow> work_inv s \<Longrightarrow> work_inv s'"
proof (induction rule: worker_step.induct)
  case (take i s j p)
  with running_jobs_update [of i "sys_workers s" "Running j"] show ?case
    by (auto simp: work_inv_def run_section_cases)
next
  case (finish i s j)
  with running_jobs_update [of i "sys_workers s" Awake] show ?case
    by (auto simp: work_inv_def)
qed (auto simp: work_inv_def run_section_cases running_jobs_idle split: if_splits)

lemma work_inv_step: "pool_step s s' \<Longrightarrow> work_inv s \<Longrightarrow> work_inv s'"
  by (induction rule: pool_step.induct)
     (auto simp: work_inv_worker, auto simp: work_inv_def try_submit_True stop_section_def
      stop_forced_section_def running_jobs_idle split: if_splits)

lemma list_ex_update: "i < length xs \<Longrightarrow> P x \<Longrightarrow> list_ex P (xs[i := x])"
  by (auto simp: list_ex_iff intro: set_update_memI)

lemma set_update_shrink: "y \<in> set (xs[i := x]) \<Longrightarrow> y \<noteq> x \<Longrightarrow> y \<in> set xs"
  using set_update_subset_insert [of xs i x] by auto

lemma update_eq_Nil [simp]: "xs[i := x] = [] \<longleftrightarrow> xs = []"
  by (cases xs) (auto split: nat.splits)

lemma all_active:
  assumes "ws \<noteq> []" "Sleeping \<notin> set ws" "Exited \<notin> set ws"
  shows "list_ex active ws"
  using assms by (cases ws) (auto simp: active_def)

lemma wake_inv_worker: "worker_step s s' \<Longrightarrow> wake_inv s \<Longrightarrow> wake_inv s'"
proof (induction rule: worker_step.induct)
  case (notify_one s i)
  then have "Sleeping \<in> set (sys_workers s)" using nth_mem by metis
  with notify_one show ?case
    by (auto simp: wake_inv_def Let_def active_def intro: list_ex_update dest: set_update_shrink)
next
  case (notify_none s)
  then show ?case by (auto simp: wake_inv_def Let_def intro: all_active)
next
  case (notify_all s)
  then show ?case using all_active [of "wake_all (sys_workers s)"]
    by (auto simp: wake_inv_def Let_def wake_all_set)
next
  case (take i s j p)
  then show ?case
    by (auto simp: wake_inv_def Let_def run_section_cases active_def intro: list_ex_update dest: set_update_shrink)
next
  case (finish i s j)
  then show ?case
    by (auto simp: wake_inv_def Let_def active_def intro: list_ex_update dest: set_update_shrink)
qed (auto simp: wake_inv_def Let_def run_section_cases dest: set_update_shrink)

lemma wake_inv_step: "pool_step s s' \<Longrightarrow> wake_inv s \<Longrightarrow> wake_inv s'"
proof (induction rule: pool_step.induct)
  case (submit j s p)
  then show ?case by (auto simp: wake_inv_def Let_def try_submit_True)
next
  case (spurious i s)
  then have "Sleeping \<in> set (sys_workers s)" using nth_mem by metis
  with spurious show ?case
    by (auto simp: wake_inv_def Let_def active_def intro: list_ex_update dest: set_update_shrink)
qed (auto simp: wake_inv_worker, auto simp: wake_inv_def Let_def stop_section_def stop_forced_section_def split: if_splits)

lemma running_jobs_fresh [simp]: "running_jobs (replicate n Awake) = {#}"
  by (induction n) (simp_all add: running_jobs_def)

lemma pool_inv_init: "pool_inv (sys_init threads max_queue created)"
  by (auto simp: pool_inv_def work_inv_def wake_inv_def sys_init_def pool_init_def Let_def)

lemma pool_inv_reachable: "pool_reachable (sys_init threads max_queue created) s \<Longrightarrow> pool_inv s"
  by (induction rule: pool_reachable.induct)
     (auto simp: pool_inv_init, auto simp: pool_inv_def work_inv_step wake_inv_step)

lemma worker_step_capacity: "worker_step s s' \<Longrightarrow> tp_max_queue (sys_pool s') = tp_max_queue (sys_pool s)"
  by (induction rule: worker_step.induct) (auto simp: run_section_cases)

lemma pool_step_capacity: "pool_step s s' \<Longrightarrow> tp_max_queue (sys_pool s') = tp_max_queue (sys_pool s)"
  by (induction rule: pool_step.induct)
     (auto simp: worker_step_capacity try_submit_True stop_section_def stop_forced_section_def split: if_splits)

lemma reachable_capacity: "pool_reachable s0 s \<Longrightarrow> tp_max_queue (sys_pool s) = tp_max_queue (sys_pool s0)"
  by (induction rule: pool_reachable.induct) (auto simp: pool_step_capacity)

section \<open>Nothing is lost, nobody waits for ever\<close>

lemma running_jobs_exited: "list_all (\<lambda>w. w = Exited) ws \<Longrightarrow> running_jobs ws = {#}"
  by (induction ws) (simp_all add: running_jobs_def)

text \<open>
  Internal steps lower a measure, so workers left to themselves come to rest; and a pool at rest
  has an empty queue, and no worker left in \<^verbatim>\<open>run()\<close> if it is stopping.
\<close>

definition phase_weight :: "'j phase \<Rightarrow> nat" where
  "phase_weight w = (case w of Running j \<Rightarrow> 2 | Awake \<Rightarrow> 1 | _ \<Rightarrow> 0)"

definition pool_measure :: "'j pool_sys \<Rightarrow> nat" where
  "pool_measure s = 3 * length (tp_queue (sys_pool s)) + 2 * sys_notify s
     + (if sys_notify_all s then length (sys_workers s) + 1 else 0)
     + sum_list (map phase_weight (sys_workers s))"

lemma phase_weight_simps [simp]:
  "phase_weight Sleeping = 0" "phase_weight Awake = 1" "phase_weight (Running j) = 2" "phase_weight Exited = 0"
  by (simp_all add: phase_weight_def)

lemma weight_update:
  assumes "i < length ws"
  shows "sum_list (map phase_weight (ws[i := w])) + phase_weight (ws ! i) =
    sum_list (map phase_weight ws) + phase_weight w"
proof -
  have "sum_list (map phase_weight ws) = sum_list (map phase_weight (take i ws @ ws ! i # drop (Suc i) ws))"
    using id_take_nth_drop [OF assms] by simp
  then show ?thesis by (simp add: upd_conv_take_nth_drop [OF assms])
qed

lemma weight_wake_all: "sum_list (map phase_weight (wake_all ws)) \<le> sum_list (map phase_weight ws) + length ws"
  by (induction ws) (auto simp: wake_all_def split: phase.splits)

lemma length_wake_all [simp]: "length (wake_all ws) = length ws"
  by (simp add: wake_all_def)

lemma worker_step_decreases: "worker_step s s' \<Longrightarrow> pool_measure s' < pool_measure s"
proof (induction rule: worker_step.induct)
  case (notify_one s i)
  with weight_update [of i "sys_workers s" Awake] show ?case by (auto simp: pool_measure_def)
next
  case (notify_all s)
  with weight_wake_all [of "sys_workers s"] show ?case by (auto simp: pool_measure_def)
next
  case (sleep i s p)
  with weight_update [of i "sys_workers s" Sleeping] show ?case by (auto simp: pool_measure_def run_section_cases)
next
  case (leave i s p)
  with weight_update [of i "sys_workers s" Exited] show ?case by (auto simp: pool_measure_def run_section_cases)
next
  case (take i s j p)
  with weight_update [of i "sys_workers s" "Running j"] show ?case by (auto simp: pool_measure_def run_section_cases)
next
  case (finish i s j)
  with weight_update [of i "sys_workers s" Awake] show ?case by (auto simp: pool_measure_def)
qed (auto simp: pool_measure_def)

lemma awake_can_step:
  assumes "i < length (sys_workers s)" and "active (sys_workers s ! i)"
  shows "\<exists>s'. worker_step s s'"
proof (cases "sys_workers s ! i")
  case (Running j)
  with worker_step.finish [OF assms(1) Running] show ?thesis by blast
next
  case Awake
  obtain t p where "run_section (sys_pool s) = (t, p)" by (cases "run_section (sys_pool s)")
  with assms(1) Awake show ?thesis
    using worker_step.sleep [of i s p] worker_step.leave [of i s p] worker_step.take [of i s _ p]
    by (cases t) blast+
qed (use assms(2) in \<open>simp_all add: active_def\<close>)

lemma at_rest:
  assumes "pool_inv s" and "\<And>s'. \<not> worker_step s s'"
  shows "tp_queue (sys_pool s) = [] \<and>
    (tp_stopping (sys_pool s) \<longrightarrow> list_all (\<lambda>w. w = Exited) (sys_workers s))"
proof -
  have na: "\<not> active w" if w: "w \<in> set (sys_workers s)" for w
  proof -
    obtain i where "i < length (sys_workers s)" "sys_workers s ! i = w" using w by (auto simp: in_set_conv_nth)
    with assms(2) awake_can_step [of i s] show ?thesis by auto
  qed
  then have idle: "\<not> list_ex active (sys_workers s)" by (auto simp: list_ex_iff)
  have n: "sys_notify s = 0"
  proof (rule ccontr)
    assume "sys_notify s \<noteq> 0"
    then show False
      using assms(2) worker_step.notify_one [of s] worker_step.notify_none [of s]
      by (cases "Sleeping \<in> set (sys_workers s)") (auto simp: in_set_conv_nth)
  qed
  have na2: "\<not> sys_notify_all s" using assms(2) worker_step.notify_all by blast
  show ?thesis
  proof (cases "tp_stopping (sys_pool s)")
    case True
    with assms(1) na2 have "Sleeping \<notin> set (sys_workers s)" by (simp add: pool_inv_def wake_inv_def Let_def)
    with na have ex: "\<forall>w \<in> set (sys_workers s). w = Exited" by (auto simp: active_def)
    with assms(1) have "tp_queue (sys_pool s) = []"
      by (cases "sys_workers s") (auto simp: pool_inv_def wake_inv_def Let_def)
    with ex show ?thesis by (simp add: list_all_iff)
  next
    case False
    with assms(1) idle n show ?thesis by (auto simp: pool_inv_def wake_inv_def Let_def)
  qed
qed

text \<open>So there is always a way to rest, by internal steps alone, whatever the state.\<close>

inductive worker_steps :: "'j pool_sys \<Rightarrow> 'j pool_sys \<Rightarrow> bool" where
  none: "worker_steps s s"
| more: "worker_step s s' \<Longrightarrow> worker_steps s' s'' \<Longrightarrow> worker_steps s s''"

lemma worker_step_keeps:
  "worker_step s s' \<Longrightarrow> tp_stopping (sys_pool s') = tp_stopping (sys_pool s) \<and>
     sys_accepted s' = sys_accepted s \<and> length (sys_workers s') = length (sys_workers s)"
  by (induction rule: worker_step.induct) (auto simp: run_section_cases)

lemma worker_steps_keeps:
  "worker_steps s s' \<Longrightarrow> pool_inv s \<Longrightarrow> pool_inv s' \<and> tp_stopping (sys_pool s') = tp_stopping (sys_pool s) \<and>
     sys_accepted s' = sys_accepted s \<and> length (sys_workers s') = length (sys_workers s)"
proof (induction rule: worker_steps.induct)
  case (more s s' s'')
  have "pool_inv s'" using more.hyps(1) more.prems by (auto simp: pool_inv_def work_inv_worker wake_inv_worker)
  with more worker_step_keeps [OF more.hyps(1)] show ?case by simp
qed simp

lemma worker_steps_rest: "\<exists>s'. worker_steps s s' \<and> (\<forall>s''. \<not> worker_step s' s'')"
proof (induction "pool_measure s" arbitrary: s rule: less_induct)
  case less
  show ?case
  proof (cases "\<exists>s1. worker_step s s1")
    case True
    then obtain s1 where s1: "worker_step s s1" by blast
    from less [OF worker_step_decreases [OF s1]] s1 show ?thesis by (blast intro: worker_steps.more)
  qed (blast intro: worker_steps.none)
qed

text \<open>A stopping pool that has come to rest: every worker has left, every accepted job has been finished.\<close>

lemma stopped_at_rest:
  assumes "pool_inv s" and "tp_stopping (sys_pool s)" and "\<And>s'. \<not> worker_step s s'"
  shows "list_all (\<lambda>w. w = Exited) (sys_workers s) \<and> mset (sys_finished s) = mset (sys_accepted s)"
proof -
  have ex: "list_all (\<lambda>w. w = Exited) (sys_workers s)" and q: "tp_queue (sys_pool s) = []"
    using at_rest [OF assms(1,3)] assms(2) by simp_all
  with running_jobs_exited [OF ex] assms(1) show ?thesis by (simp add: pool_inv_def work_inv_def)
qed

lemma worker_step_wf: "wfp (\<lambda>s' s. worker_step s s')"
  by (rule wfp_if_convertible_to_nat [of _ pool_measure]) (rule worker_step_decreases)

section \<open>The forced stop comes back\<close>

lemma join_poll_returns:
  "(\<exists>(rc, now) \<in> set polls. rc \<noteq> EBUSY \<or> now \<ge> deadline) \<Longrightarrow> \<exists>b. join_poll deadline polls = Some b"
  by (induction deadline polls rule: join_poll.induct) auto

lemma join_all_returns:
  "(\<forall>polls \<in> set ps. \<exists>(rc, now) \<in> set polls. rc \<noteq> EBUSY \<or> now \<ge> deadline) \<Longrightarrow> \<exists>b. join_all deadline ps = Some b"
proof (induction ps)
  case (Cons polls ps)
  then obtain b c where "join_poll deadline polls = Some b" "join_all deadline ps = Some c"
    using join_poll_returns [of polls deadline] by auto
  then show ?case by simp
qed auto

end
