(* ===== verification/Connection.thy ===== *)
theory Connection
  imports Parser_Resume Handler Thread_Pool
begin

unbundle bit_operations_syntax

text \<open>
  One client socket: the class \<^verbatim>\<open>Connection\<close> of \<^verbatim>\<open>src/src/connection.h\<close> and
  \<^verbatim>\<open>src/src/connection.cpp\<close>.  The members are the record \<open>connection\<close>; a member function maps a
  connection and the world it runs in to both updated.  The world holds what a connection reaches
  outside itself: its socket, the clocks, the worker pool, the counters and the log of the event loop.

  The kernel is a script per socket: what each successive \<^verbatim>\<open>recv\<close> and \<^verbatim>\<open>send\<close> will do.  A script
  that is used up stands for \<^verbatim>\<open>EAGAIN\<close>.  Every behaviour of a non-blocking stream socket is a script.
\<close>

section \<open>The world\<close>

definition EINTR :: int where "EINTR = 4"
definition EAGAIN :: int where "EAGAIN = 11"

text \<open>
  \<open>RecvBytes\<close>: bytes that have arrived, of which a call takes up to the size of its array
  (\<open>RecvBytes []\<close> is end of file).  \<open>SendRoom n\<close>: the socket takes up to \<open>n\<close> bytes.
\<close>

datatype recv_event = RecvBytes bytes | RecvErr int
datatype send_event = SendRoom nat | SendErr int

record sock =
  sk_recv :: "recv_event list"
  sk_send :: "send_event list"
  sk_sent :: bytes

text \<open>A line of the log, as the values that are formatted into it.\<close>

datatype log_entry = LogIo bytes bytes int | LogBadRequest bytes bytes | LogNote bytes
  | LogListening bytes u16 bytes | LogAccepted nat | LogClosing bytes u64 | LogDraining nat nat double
  | LogForcing nat | LogStats u64 u64 u64 u64 u64 nat

text \<open>What the closure given to the pool captures; \<open>jb_conn\<close> is the object its weak pointer names.\<close>

record job =
  jb_conn :: nat
  jb_cid :: u64
  jb_seq :: u64
  jb_req :: request

record world =
  w_socks :: "int \<Rightarrow> sock"
  w_clock :: "int list"
  w_clock_last :: int
  w_time :: int
  w_date :: date_cache
  w_pool :: "job pool"
  w_requests_received :: u64
  w_overload_rejections :: u64
  w_timeouts :: u64
  w_log :: "log_entry list"

text \<open>\<^verbatim>\<open>steady_clock::now()\<close>: the successive readings, in nanoseconds.\<close>

definition clock_now :: "world \<Rightarrow> int \<times> world" where
  "clock_now w = (case w_clock w of
     [] \<Rightarrow> (w_clock_last w, w)
   | t # ts \<Rightarrow> (t, w\<lparr>w_clock := ts, w_clock_last := t\<rparr>))"

definition sock_update :: "int \<Rightarrow> (sock \<Rightarrow> sock) \<Rightarrow> world \<Rightarrow> world" where
  "sock_update fd f w = w\<lparr>w_socks := (w_socks w)(fd := f (w_socks w fd))\<rparr>"

definition recv_buf_size :: nat where
  "recv_buf_size = 16 * 1024"

text \<open>\<^verbatim>\<open>recv\<close>: an error number, or the bytes received.\<close>

definition sys_recv :: "int \<Rightarrow> world \<Rightarrow> (int + bytes) \<times> world" where
  "sys_recv fd w =
     (case sk_recv (w_socks w fd) of
        [] \<Rightarrow> (Inl EAGAIN, w)
      | RecvErr e # es \<Rightarrow> (Inl e, sock_update fd (sk_recv_update (\<lambda>_. es)) w)
      | RecvBytes bs # es \<Rightarrow>
          if length bs \<le> recv_buf_size then (Inr bs, sock_update fd (sk_recv_update (\<lambda>_. es)) w)
          else (Inr (take recv_buf_size bs),
                sock_update fd (sk_recv_update (\<lambda>_. RecvBytes (drop recv_buf_size bs) # es)) w))"

text \<open>\<^verbatim>\<open>send\<close>: an error number, or how many of the bytes were taken.\<close>

definition sys_send :: "int \<Rightarrow> bytes \<Rightarrow> world \<Rightarrow> (int + nat) \<times> world" where
  "sys_send fd bs w =
     (case sk_send (w_socks w fd) of
        [] \<Rightarrow> (Inl EAGAIN, w)
      | SendErr e # es \<Rightarrow> (Inl e, sock_update fd (sk_send_update (\<lambda>_. es)) w)
      | SendRoom n # es \<Rightarrow>
          (Inr (min n (length bs)),
           sock_update fd (\<lambda>s. s\<lparr>sk_send := es, sk_sent := sk_sent s @ take n bs\<rparr>) w))"

definition log_io :: "bytes \<Rightarrow> bytes \<Rightarrow> int \<Rightarrow> world \<Rightarrow> world" where
  "log_io what peer err w = w\<lparr>w_log := w_log w @ [LogIo what peer err]\<rparr>"

definition log_bad_request :: "config \<Rightarrow> bytes \<Rightarrow> bytes \<Rightarrow> world \<Rightarrow> world" where
  "log_bad_request cfg peer why w =
     (if cf_verbose cfg then w\<lparr>w_log := w_log w @ [LogBadRequest peer why]\<rparr> else w)"

section \<open>The connection\<close>

record connection =
  cn_self :: nat
  cn_fd :: int
  cn_id :: u64
  cn_peer :: bytes
  cn_parser :: parser
  cn_in :: bytebuf
  cn_out :: bytebuf
  cn_alive :: bool
  cn_close_after :: bool
  cn_draining :: bool
  cn_peer_eof :: bool
  cn_in_flight :: bool
  cn_inflight_seq :: u64
  cn_next_seq :: u64
  cn_served :: u64
  cn_req_major :: int
  cn_req_minor :: int
  cn_last_head :: bool
  cn_applied_mask :: u32
  cn_last_activity :: int

record completion =
  cm_conn :: nat
  cm_conn_id :: u64
  cm_seq :: u64
  cm_response :: response

text \<open>\<^verbatim>\<open>format_peer\<close>: the result of \<^verbatim>\<open>getnameinfo\<close> is given.\<close>

definition format_peer :: "int \<Rightarrow> bool \<Rightarrow> bytes \<Rightarrow> bytes \<Rightarrow> bytes" where
  "format_peer rc inet6 host serv =
     (if rc \<noteq> 0 then ''unknown''
      else let h = (if inet6 \<and> take 7 host = ''::ffff:'' then drop 7 host else host)
           in h @ '':'' @ serv)"

definition limits_of :: "config \<Rightarrow> parser_limits" where
  "limits_of cfg = \<lparr>max_request_line_bytes = unat (cf_max_request_line_bytes cfg),
     max_header_bytes = unat (cf_max_header_bytes cfg), max_body_bytes = unat (cf_max_body_bytes cfg),
     max_request_bytes = unat (cf_max_request_bytes cfg), max_header_fields = 256\<rparr>"

definition connection_init :: "nat \<Rightarrow> int \<Rightarrow> u64 \<Rightarrow> bytes \<Rightarrow> config \<Rightarrow> int \<Rightarrow> connection" where
  "connection_init self fd cid peer cfg now =
     \<lparr>cn_self = self, cn_fd = fd, cn_id = cid, cn_peer = peer, cn_parser = parser_init (limits_of cfg),
      cn_in = bytebuf_init, cn_out = bytebuf_init, cn_alive = True, cn_close_after = False,
      cn_draining = False, cn_peer_eof = False, cn_in_flight = False, cn_inflight_seq = 0,
      cn_next_seq = 1, cn_served = 0, cn_req_major = 1, cn_req_minor = 1, cn_last_head = False,
      cn_applied_mask = 0, cn_last_activity = now\<rparr>"

definition begin_draining :: "connection \<Rightarrow> connection" where
  "begin_draining c =
     (let c = c\<lparr>cn_draining := True\<rparr>
      in if \<not> cn_in_flight c \<and> bb_empty (cn_out c) then c\<lparr>cn_close_after := True\<rparr> else c)"

definition want_read :: "config \<Rightarrow> connection \<Rightarrow> bool" where
  "want_read cfg c =
     (if \<not> cn_alive c \<or> cn_close_after c \<or> cn_peer_eof c \<or> cn_in_flight c \<or> cn_draining c then False
      else bb_size (cn_out c) < unat (cf_max_output_bytes cfg))"

definition want_write :: "connection \<Rightarrow> bool" where
  "want_write c = (cn_alive c \<and> \<not> bb_empty (cn_out c))"

definition EPOLLIN :: u32 where "EPOLLIN = 1"
definition EPOLLOUT :: u32 where "EPOLLOUT = 4"
definition EPOLLERR :: u32 where "EPOLLERR = 8"
definition EPOLLHUP :: u32 where "EPOLLHUP = 16"
definition EPOLLET :: u32 where "EPOLLET = push_bit 31 1"

definition interest_mask :: "config \<Rightarrow> connection \<Rightarrow> u32" where
  "interest_mask cfg c =
     (let mask = EPOLLET;
          mask = (if want_read cfg c then mask OR EPOLLIN else mask)
      in if want_write c then mask OR EPOLLOUT else mask)"

definition conn_finished :: "connection \<Rightarrow> bool" where
  "conn_finished c =
     (if \<not> cn_alive c then True else cn_close_after c \<and> bb_empty (cn_out c) \<and> \<not> cn_in_flight c)"

definition conn_kill :: "connection \<Rightarrow> connection" where
  "conn_kill c = c\<lparr>cn_alive := False, cn_in_flight := False, cn_close_after := True,
     cn_in := bb_clear (cn_in c), cn_out := bb_clear (cn_out c)\<rparr>"

definition note_activity :: "connection \<Rightarrow> world \<Rightarrow> connection \<times> world" where
  "note_activity c w = (let (t, w) = clock_now w in (c\<lparr>cn_last_activity := t\<rparr>, w))"

section \<open>Writing\<close>

text \<open>One pass through the loop of \<^verbatim>\<open>flush\<close>: whether to go round again, and the new state.\<close>

definition flush_iter :: "connection \<Rightarrow> world \<Rightarrow> bool \<times> connection \<times> world" where
  "flush_iter c w =
     (case sys_send (cn_fd c) (bb_view (cn_out c)) w of
        (Inr n, w) \<Rightarrow>
          if n > 0 then (True, note_activity (c\<lparr>cn_out := bb_consume n (cn_out c)\<rparr>) w)
          else (False, conn_kill c, log_io ''send failed'' (cn_peer c) 0 w)
      | (Inl e, w) \<Rightarrow>
          if e = EINTR then (True, c, w)
          else if e = EAGAIN then (False, c, w)
          else (False, conn_kill c, log_io ''send failed'' (cn_peer c) e w))"

lemma note_activity_eq [simp]:
  "note_activity c w = (c\<lparr>cn_last_activity := fst (clock_now w)\<rparr>, snd (clock_now w))"
  by (simp add: note_activity_def split: prod.split)

lemma clock_now_frames [simp]:
  "w_socks (snd (clock_now w)) = w_socks w" "w_pool (snd (clock_now w)) = w_pool w"
  "w_date (snd (clock_now w)) = w_date w" "w_time (snd (clock_now w)) = w_time w"
  "w_log (snd (clock_now w)) = w_log w" "w_requests_received (snd (clock_now w)) = w_requests_received w"
  "w_overload_rejections (snd (clock_now w)) = w_overload_rejections w"
  "w_timeouts (snd (clock_now w)) = w_timeouts w"
  by (simp_all add: clock_now_def split: list.split)

lemma sock_update_frames [simp]:
  "w_socks (sock_update fd f w) = (w_socks w)(fd := f (w_socks w fd))" "w_pool (sock_update fd f w) = w_pool w"
  "w_date (sock_update fd f w) = w_date w" "w_time (sock_update fd f w) = w_time w"
  by (simp_all add: sock_update_def)

lemma flush_iter_script:
  assumes "flush_iter c w = (True, c', w')"
  shows "cn_fd c' = cn_fd c \<and>
    length (sk_send (w_socks w' (cn_fd c))) < length (sk_send (w_socks w (cn_fd c)))"
proof (cases "sk_send (w_socks w (cn_fd c))")
  case Nil
  with assms show ?thesis by (simp add: flush_iter_def sys_send_def EINTR_def EAGAIN_def)
next
  case (Cons e es)
  with assms show ?thesis
    by (cases e) (auto simp: flush_iter_def sys_send_def split: if_splits)
qed

function flush :: "connection \<Rightarrow> world \<Rightarrow> connection \<times> world" where
  "flush c w =
     (if \<not> bb_empty (cn_out c) \<and> cn_alive c
      then (case flush_iter c w of (again, c', w') \<Rightarrow> if again then flush c' w' else (c', w'))
      else (c, w))"
  by pat_completeness auto
termination
  by (relation "measure (\<lambda>(c, w). length (sk_send (w_socks w (cn_fd c))))") (auto dest!: flush_iter_script [OF sym])

declare flush.simps [simp del]

definition queue_response :: "response \<Rightarrow> connection \<Rightarrow> world \<Rightarrow> connection \<times> world" where
  "queue_response res c w =
     (let res = (if cn_last_head c then res\<lparr>rs_send_body := False\<rparr> else res);
          (date, dc) = http_date_now (w_time w) (w_date w);
          w = w\<lparr>w_date := dc\<rparr>;
          c = c\<lparr>cn_out := bb_append_target (serialize_response date res) (cn_out c)\<rparr>;
          c = (if \<not> rs_keep_alive res \<or> rs_close_after res then c\<lparr>cn_close_after := True\<rparr> else c)
      in (c, w))"

definition queue_error :: "int \<Rightarrow> bytes \<Rightarrow> connection \<Rightarrow> world \<Rightarrow> connection \<times> world" where
  "queue_error status detail c w =
     (let res = (make_error_response status detail False)
                  \<lparr>rs_req_major := cn_req_major c, rs_req_minor := cn_req_minor c\<rparr>;
          (c, w) = queue_response res c w
      in (c\<lparr>cn_close_after := True\<rparr>, w))"

definition on_worker_result :: "response \<Rightarrow> u64 \<Rightarrow> connection \<Rightarrow> world \<Rightarrow> connection \<times> world" where
  "on_worker_result res seq c w =
     (if \<not> cn_alive c then (c, w)
      else if \<not> cn_in_flight c \<or> seq \<noteq> cn_inflight_seq c then (c, w)
      else let c = c\<lparr>cn_in_flight := False\<rparr>;
               (c, w) = queue_response res c w
           in flush c w)"

definition on_writable :: "connection \<Rightarrow> world \<Rightarrow> connection \<times> world" where
  "on_writable c w = flush c w"

definition on_hangup :: "u32 \<Rightarrow> connection \<Rightarrow> world \<Rightarrow> connection \<times> world" where
  "on_hangup events c w =
     (if events AND EPOLLERR \<noteq> 0 then (conn_kill c, w)
      else flush (c\<lparr>cn_peer_eof := True, cn_close_after := True\<rparr>) w)"

section \<open>Reading\<close>

text \<open>What the worker does with a job: \<open>throws\<close> tells whether the handler threw an exception.\<close>

definition run_job :: "config \<Rightarrow> bool \<Rightarrow> job \<Rightarrow> completion" where
  "run_job cfg throws j =
     (let req = jb_req j;
          res = (if throws then make_error_response 500 ''handler failed'' (rq_keep_alive req)
                 else fst (handle_request req cfg));
          res = res\<lparr>rs_req_major := rq_major req, rs_req_minor := rq_minor req\<rparr>;
          res = (if is_head req then res\<lparr>rs_send_body := False\<rparr> else res);
          res = (if \<not> rq_keep_alive req then res\<lparr>rs_keep_alive := False\<rparr> else res)
      in \<lparr>cm_conn = jb_conn j, cm_conn_id = jb_cid j, cm_seq = jb_seq j, cm_response = res\<rparr>)"

definition submit :: "request \<Rightarrow> connection \<Rightarrow> world \<Rightarrow> connection \<times> world" where
  "submit req c w =
     (let j = \<lparr>jb_conn = cn_self c, jb_cid = cn_id c, jb_seq = cn_inflight_seq c, jb_req = req\<rparr>;
          (queued, p) = try_submit (Some j) (w_pool w);
          w = w\<lparr>w_pool := p\<rparr>
      in if \<not> queued
         then queue_error 503 ''server is at capacity'' (c\<lparr>cn_in_flight := False\<rparr>)
                (w\<lparr>w_overload_rejections := w_overload_rejections w + 1\<rparr>)
         else (c, w))"

definition kContinue :: bytes where
  "kContinue = ''HTTP/1.1 100 Continue'' @ CRLF @ CRLF"

text \<open>A parse that asks for \<^verbatim>\<open>100 Continue\<close> has consumed the header block.\<close>

lemma flat_step_expect:
  assumes "flat_step p b out = Return r" "pr_status r = KExpect100"
  shows "length (bb_view (pr_buf r)) < length (bb_view b)"
proof -
  have on: "goes_on r" using assms(2) by (simp add: goes_on_def)
  show ?thesis
  proof (cases "ps_state p")
    case SRequestLine
    with assms request_line_returnE [of p b out r] on show ?thesis by (auto simp: flat_step_def)
  next
    case SHeaders
    with assms(1) have "headers_case p b out = Return r" by (simp add: flat_step_def)
    from this on show ?thesis
      by (cases rule: headers_returnE) (use assms(2) in \<open>auto simp: bb_view_consume emitted_def\<close>)
  next
    case SBodyFixed
    with assms show ?thesis
      by (auto simp: flat_step_def body_fixed_eq Let_def emit_request_emitted emitted_def split: if_splits)
  next
    case SBodyChunked
    with assms(1) have "body_chunked_iter p b out = Return r" by (simp add: flat_step_def)
    from this on show ?thesis by (cases rule: chunk_returnE) (use assms(2) in auto)
  next
    case SChunkTrailer
    with assms(1) have "trailer_iter p b out = Return r" by (simp add: flat_step_def)
    from this on show ?thesis by (cases rule: trailer_returnE) (use assms(2) in \<open>auto simp: emitted_def\<close>)
  qed
qed

lemma parse_expect_progress:
  assumes "pr_status (parse p b out) = KExpect100"
  shows "bb_size (pr_buf (parse p b out)) < bb_size b"
proof -
  have "pr_status (parse_loop p b out) = KExpect100 \<longrightarrow>
      length (bb_view (pr_buf (parse_loop p b out))) < length (bb_view b)"
  proof (rule parse_loop_rule [where I = "\<lambda>q c. length (bb_view c) \<le> length (bb_view b)"])
    fix q c q' c' assume "length (bb_view c) \<le> length (bb_view b)" "steps_to (flat_step q c out) q' c'"
    with flat_step_progress [of q c out q' c'] show "length (bb_view c') \<le> length (bb_view b)" by simp
  next
    fix q c r assume "length (bb_view c) \<le> length (bb_view b)" "flat_step q c out = Return r"
    with flat_step_expect [of q c out r]
    show "pr_status r = KExpect100 \<longrightarrow> length (bb_view (pr_buf r)) < length (bb_view b)" by auto
  qed (simp_all add: oversized_result_def)
  with assms show ?thesis by (simp add: parse_def length_bb_view)
qed

text \<open>Flushing leaves the input buffer alone, or empties it when it closes the connection.\<close>

lemma bb_size_clear [simp]: "bb_size (bb_clear b) = 0"
  by (simp add: bb_size_def bb_clear_def)

lemma flush_iter_in: "flush_iter c w = (again, c', w') \<Longrightarrow> bb_size (cn_in c') \<le> bb_size (cn_in c)"
  by (auto simp: flush_iter_def conn_kill_def split: prod.splits sum.splits if_splits)

lemma flush_in: "bb_size (cn_in (fst (flush c w))) \<le> bb_size (cn_in c)"
proof (induction c w rule: flush.induct)
  case (1 c w)
  show ?case
  proof (cases "\<not> bb_empty (cn_out c) \<and> cn_alive c")
    case True
    obtain again c' w' where it: "flush_iter c w = (again, c', w')" by (metis prod_cases3)
    show ?thesis
    proof (cases again)
      case again: True
      with 1 True it have "bb_size (cn_in (fst (flush c' w'))) \<le> bb_size (cn_in c')" by auto
      with flush_iter_in [OF it] again it True show ?thesis by (simp add: flush.simps [of c w])
    qed (use flush_iter_in [OF it] it True in \<open>simp add: flush.simps [of c w]\<close>)
  qed (simp only: flush.simps [of c w], simp)
qed

text \<open>
  One pass through the loop of \<^verbatim>\<open>drain_requests\<close> after its test: whether to go round again.
\<close>

definition drain_iter :: "config \<Rightarrow> connection \<Rightarrow> world \<Rightarrow> bool \<times> connection \<times> world" where
  "drain_iter cfg c w =
     (let r = parse (cn_parser c) (cn_in c) request_init;
          c = c\<lparr>cn_parser := pr_parser r, cn_in := pr_buf r\<rparr>
      in case pr_status r of
           KNeedMore \<Rightarrow> (False, c, w)
         | KExpect100 \<Rightarrow> (True, flush (c\<lparr>cn_out := bb_append kContinue (cn_out c)\<rparr>) w)
         | KBadRequest \<Rightarrow>
             let w = log_bad_request cfg (cn_peer c) (pr_err r) w;
                 (c, w) = queue_error 400 ''malformed request'' c w
             in (False, flush c w)
         | KTooLarge \<Rightarrow>
             let w = log_bad_request cfg (cn_peer c) (pr_err r) w;
                 (c, w) = queue_error 413 ''request too large'' c w
             in (False, flush c w)
         | KRequest \<Rightarrow>
             let req = pr_out r;
                 c = c\<lparr>cn_req_major := rq_major req, cn_req_minor := rq_minor req, cn_last_head := is_head req\<rparr>;
                 req = req\<lparr>rq_peer := cn_peer c\<rparr>;
                 c = c\<lparr>cn_in_flight := True, cn_inflight_seq := cn_next_seq c, cn_next_seq := cn_next_seq c + 1,
                       cn_served := cn_served c + 1\<rparr>;
                 w = w\<lparr>w_requests_received := w_requests_received w + 1\<rparr>
             in (False, submit req c w))"

lemma drain_iter_progress:
  assumes "drain_iter cfg c w = (True, c', w')"
  shows "bb_size (cn_in c') < bb_size (cn_in c)"
proof -
  let ?r = "parse (cn_parser c) (cn_in c) request_init"
  let ?c = "c\<lparr>cn_parser := pr_parser ?r, cn_in := pr_buf ?r, cn_out := bb_append kContinue (cn_out c)\<rparr>"
  from assms have st: "pr_status ?r = KExpect100" and fl: "flush ?c w = (c', w')"
    by (auto simp: drain_iter_def Let_def split: parse_status.splits prod.splits)
  have "bb_size (cn_in c') \<le> bb_size (cn_in ?c)" using flush_in [of ?c w] fl by simp
  also have "\<dots> < bb_size (cn_in c)" using parse_expect_progress [OF st] by simp
  finally show ?thesis .
qed

function drain_requests :: "config \<Rightarrow> connection \<Rightarrow> world \<Rightarrow> connection \<times> world" where
  "drain_requests cfg c w =
     (if \<not> cn_alive c \<or> cn_in_flight c \<or> cn_close_after c then (c, w)
      else case drain_iter cfg c w of (again, c', w') \<Rightarrow>
        if again then drain_requests cfg c' w' else (c', w'))"
  by pat_completeness auto
termination
  by (relation "measure (\<lambda>(cfg, c, w). bb_size (cn_in c))") (auto dest!: drain_iter_progress [OF sym])

declare drain_requests.simps [simp del]

text \<open>
  The loop of \<^verbatim>\<open>on_readable\<close>: what a pass does, and whether it goes round again, leaves the loop or
  returns from the function.
\<close>

datatype read_ctl = ReadMore | ReadBreak | ReadReturn

definition read_iter :: "config \<Rightarrow> connection \<Rightarrow> world \<Rightarrow> read_ctl \<times> connection \<times> world" where
  "read_iter cfg c w =
     (if \<not> want_read cfg c then (ReadBreak, c, w)
      else case sys_recv (cn_fd c) w of
          (Inr bs, w) \<Rightarrow>
            if bs \<noteq> [] then
              let (c, w) = note_activity (c\<lparr>cn_in := bb_append bs (cn_in c)\<rparr>) w
              in if bytes_consumed (cn_parser c) + bb_size (cn_in c) > unat (cf_max_request_bytes cfg)
                 then let (c, w) = queue_error 413 ''request exceeds the configured limit'' c w
                      in (ReadReturn, flush c w)
                 else (ReadMore, c, w)
            else (ReadBreak, c\<lparr>cn_peer_eof := True\<rparr>, w)
        | (Inl e, w) \<Rightarrow>
            if e = EINTR then (ReadMore, c, w)
            else if e = EAGAIN then (ReadBreak, c, w)
            else (ReadReturn, conn_kill c, log_io ''recv failed'' (cn_peer c) e w))"

fun recv_measure :: "recv_event list \<Rightarrow> nat" where
  "recv_measure [] = 0"
| "recv_measure (RecvBytes bs # es) = Suc (length bs) + recv_measure es"
| "recv_measure (RecvErr n # es) = Suc (recv_measure es)"

lemma read_iter_script:
  assumes "read_iter cfg c w = (ReadMore, c', w')"
  shows "cn_fd c' = cn_fd c \<and>
    recv_measure (sk_recv (w_socks w' (cn_fd c))) < recv_measure (sk_recv (w_socks w (cn_fd c)))"
proof (cases "sk_recv (w_socks w (cn_fd c))")
  case Nil
  with assms show ?thesis by (auto simp: read_iter_def sys_recv_def EINTR_def EAGAIN_def split: if_splits)
next
  case (Cons e es)
  with assms show ?thesis
    by (cases e) (auto simp: read_iter_def sys_recv_def recv_buf_size_def Let_def split: if_splits prod.splits)
qed

function read_loop :: "config \<Rightarrow> connection \<Rightarrow> world \<Rightarrow> read_ctl \<times> connection \<times> world" where
  "read_loop cfg c w =
     (case read_iter cfg c w of (ctl, c', w') \<Rightarrow> if ctl = ReadMore then read_loop cfg c' w' else (ctl, c', w'))"
  by pat_completeness auto
termination
  by (relation "measure (\<lambda>(cfg, c, w). recv_measure (sk_recv (w_socks w (cn_fd c))))")
     (auto dest!: read_iter_script [OF sym])

declare read_loop.simps [simp del]

definition on_readable :: "config \<Rightarrow> connection \<Rightarrow> world \<Rightarrow> connection \<times> world" where
  "on_readable cfg c w =
     (if \<not> cn_alive c \<or> \<not> want_read cfg c then (c, w)
      else case read_loop cfg c w of (ctl, c, w) \<Rightarrow>
        if ctl = ReadReturn then (c, w)
        else let (c, w) = drain_requests cfg c w
             in (if cn_peer_eof c \<and> \<not> cn_in_flight c \<and> bb_empty (cn_out c) then c\<lparr>cn_close_after := True\<rparr> else c, w))"

section \<open>Timeouts\<close>

text \<open>
  A number of seconds in clock ticks (nanoseconds).  The conversion of a value that does not fit is
  undefined in C++: \<open>oob\<close> is whatever it gives.  The product is taken exactly.
\<close>

definition to_ticks :: "(double \<Rightarrow> int) \<Rightarrow> double \<Rightarrow> int" where
  "to_ticks oob d =
     (case d of
        Finite r \<Rightarrow> let t = (if r < 0 then - \<lfloor>- r * 10 ^ 9\<rfloor> else \<lfloor>r * 10 ^ 9\<rfloor>)
                    in if - (2 ^ 63) \<le> t \<and> t < 2 ^ 63 then t else oob d
      | _ \<Rightarrow> oob d)"

definition on_tick :: "(double \<Rightarrow> int) \<Rightarrow> config \<Rightarrow> int \<Rightarrow> connection \<Rightarrow> world \<Rightarrow> connection \<times> world" where
  "on_tick oob cfg now c w =
     (if \<not> cn_alive c then (c, w)
      else if cn_draining c \<and> \<not> cn_in_flight c \<and> bb_empty (cn_out c) then (c\<lparr>cn_close_after := True\<rparr>, w)
      else if double_le_zero (cf_idle_timeout_sec cfg) then (c, w)
      else if now - cn_last_activity c \<le> to_ticks oob (cf_idle_timeout_sec cfg) then (c, w)
      else if cn_in_flight c then (c, w)
      else if \<not> bb_empty (cn_out c)
        then (conn_kill c, log_io ''write stall, closing'' (cn_peer c) 0 w)
      else let w = w\<lparr>w_timeouts := w_timeouts w + 1\<rparr>;
               (c, w) = queue_error 408 ''no request within the idle timeout'' c w
           in flush c w)"

end
