(* ===== verification/Connection_Props.thy ===== *)
theory Connection_Props
  imports Connection
begin

text \<open>
  Properties of a connection: an invariant that every handler keeps, the bytes on the wire, which
  requests are handed to the pool, and what becomes of late results.
\<close>

section \<open>The buffer a parse leaves behind\<close>

definition buf_le :: "bytebuf \<Rightarrow> bytebuf \<Rightarrow> bool" where
  "buf_le b' b = (length (bb_view b') \<le> length (bb_view b) \<and> (bb_wf b \<longrightarrow> bb_wf b'))"

lemma buf_le_refl [simp]: "buf_le b b"
  by (simp add: buf_le_def)

lemma buf_le_trans: "buf_le b'' b' \<Longrightarrow> buf_le b' b \<Longrightarrow> buf_le b'' b"
  by (auto simp: buf_le_def)

lemma buf_le_consume: "n \<le> bb_size b \<Longrightarrow> buf_le (bb_consume n b) b"
  by (auto simp: buf_le_def bb_view_consume bb_wf_consume length_bb_view)

fun ctl_buf :: "loop_ctl \<Rightarrow> bytebuf" where
  "ctl_buf (Continue p b) = b"
| "ctl_buf (Break p b) = b"
| "ctl_buf (Return r) = pr_buf r"

lemma ctl_buf_ret [simp]:
  "ctl_buf (ret st err out p b) = b" "ctl_buf (ret_rejected err out p b) = b" "ctl_buf (emit_request p b) = b"
  by (simp_all add: ret_def ret_rejected_def emit_request_def)

lemma flat_step_buf: "buf_le (ctl_buf (flat_step p b out)) b"
proof -
  obtain lr q where lr: "line_ready p b = (lr, q)" by (cases "line_ready p b")
  have line: "buf_le (bb_consume (Suc (Suc n)) b) b" "buf_le (bb_consume 2 b) b" if "lr = LineReady n" for n
    using line_readyD [OF lr [unfolded that]] by (auto intro: buf_le_consume)
  have taken: "buf_le (bb_consume (min k (bb_size b)) b) b" for k by (intro buf_le_consume) simp
  show ?thesis
    by (cases "ps_state p"; cases lr)
       (auto simp: flat_step_def step_defs lr Let_def line taken
        intro: buf_le_consume split: prod.split head_outcome.split sum.split)
qed

lemma parse_buf: "buf_le (pr_buf (parse p b out)) b"
proof -
  have "buf_le (pr_buf (parse_loop p b out)) b"
  proof (rule parse_loop_rule [where I = "\<lambda>q c. buf_le c b"])
    fix q c q' c' assume "buf_le c b" "steps_to (flat_step q c out) q' c'"
    moreover have "buf_le (ctl_buf (flat_step q c out)) c" by (rule flat_step_buf)
    ultimately show "buf_le c' b" by (auto simp: steps_to_def dest: buf_le_trans)
  next
    fix q c r assume "buf_le c b" "flat_step q c out = Return r"
    then show "buf_le (pr_buf r) b" using flat_step_buf [of q c out] by (auto dest: buf_le_trans)
  qed (simp_all add: oversized_result_def)
  then show ?thesis by (simp add: parse_def)
qed

section \<open>The invariant\<close>

lemma parser_init_simps [simp]:
  "ps_limits (parser_init l) = l" "ps_scan (parser_init l) = 0" "ps_consumed (parser_init l) = 0"
  by (simp_all add: parser_init_def)

text \<open>
  While a connection may still parse, its parser is well formed for the configured limits and the
  request under construction with what is buffered is within the configured size.  Once it has been
  killed it holds nothing.
\<close>

definition reading_ok :: "config \<Rightarrow> connection \<Rightarrow> bool" where
  "reading_ok cfg c =
     (parser_wf (cn_parser c) \<and> ps_limits (cn_parser c) = limits_of cfg \<and>
      ps_scan (cn_parser c) \<le> length (bb_view (cn_in c)) \<and>
      ps_consumed (cn_parser c) + length (bb_view (cn_in c)) \<le> unat (cf_max_request_bytes cfg))"

definition conn_inv :: "config \<Rightarrow> connection \<Rightarrow> bool" where
  "conn_inv cfg c =
     (bb_wf (cn_in c) \<and> bb_wf (cn_out c) \<and>
      length (bb_view (cn_in c)) \<le> unat (cf_max_request_bytes cfg) + recv_buf_size \<and>
      (\<not> cn_close_after c \<longrightarrow> reading_ok cfg c) \<and>
      (\<not> cn_alive c \<longrightarrow> cn_close_after c \<and> \<not> cn_in_flight c \<and> bb_view (cn_in c) = [] \<and> bb_view (cn_out c) = []))"

lemma conn_inv_init: "conn_inv cfg (connection_init self fd cid peer cfg now)"
  by (simp add: conn_inv_def reading_ok_def connection_init_def parser_wf_init view_simps)

lemma conn_inv_kill: "conn_inv cfg c \<Longrightarrow> conn_inv cfg (conn_kill c)"
  by (simp add: conn_inv_def conn_kill_def bb_wf_clear view_simps)

text \<open>The fields the invariant does not read.\<close>

lemma conn_inv_frames [simp]:
  "conn_inv cfg (c\<lparr>cn_last_activity := t\<rparr>) = conn_inv cfg c"
  "conn_inv cfg (c\<lparr>cn_peer_eof := e\<rparr>) = conn_inv cfg c"
  "conn_inv cfg (c\<lparr>cn_applied_mask := m\<rparr>) = conn_inv cfg c"
  "conn_inv cfg (c\<lparr>cn_draining := d\<rparr>) = conn_inv cfg c"
  by (simp_all add: conn_inv_def reading_ok_def)

lemma conn_inv_close [simp]: "conn_inv cfg c \<Longrightarrow> conn_inv cfg (c\<lparr>cn_close_after := True\<rparr>)"
  by (simp add: conn_inv_def)

text \<open>What a pass of \<^verbatim>\<open>flush\<close> does to the connection and to the bytes of the stream.\<close>

lemma flush_iterE:
  assumes "flush_iter c w = (again, c', w')"
  obtains (sent) n t where "again" "0 < n" "n \<le> length (bb_view (cn_out c))"
    "c' = c\<lparr>cn_out := bb_consume n (cn_out c), cn_last_activity := t\<rparr>"
    "sk_sent (w_socks w' (cn_fd c)) = sk_sent (w_socks w (cn_fd c)) @ take n (bb_view (cn_out c))"
  | (same) "c' = c" "sk_sent (w_socks w' (cn_fd c)) = sk_sent (w_socks w (cn_fd c))"
  | (dead) "\<not> again" "c' = conn_kill c"
    "sk_sent (w_socks w' (cn_fd c)) = sk_sent (w_socks w (cn_fd c))"
proof (cases "sk_send (w_socks w (cn_fd c))")
  case Nil
  with assms that(2) show ?thesis by (auto simp: flush_iter_def sys_send_def EINTR_def EAGAIN_def)
next
  case (Cons e es)
  show ?thesis
  proof (cases e)
    case (SendRoom n)
    let ?n = "min n (length (bb_view (cn_out c)))"
    have t: "take ?n (bb_view (cn_out c)) = take n (bb_view (cn_out c))" by (simp add: min_def)
    show ?thesis
    proof (cases "0 < ?n")
      case True
      have le: "?n \<le> length (bb_view (cn_out c))" by simp
      from assms have "flush_iter c w = (again, c', w')" .
      then have "again" "\<exists>t. c' = c\<lparr>cn_out := bb_consume ?n (cn_out c), cn_last_activity := t\<rparr>"
        "sk_sent (w_socks w' (cn_fd c)) = sk_sent (w_socks w (cn_fd c)) @ take n (bb_view (cn_out c))"
        unfolding flush_iter_def sys_send_def Cons SendRoom using True by auto
      with True le that(1) [of ?n] show ?thesis unfolding t by blast
    next
      case False
      then have "take n (bb_view (cn_out c)) = []" by auto
      with assms Cons SendRoom False that(3) show ?thesis
        by (auto simp: flush_iter_def sys_send_def log_io_def)
    qed
  next
    case (SendErr x)
    with assms Cons that(2,3) show ?thesis
      by (auto simp: flush_iter_def sys_send_def log_io_def split: if_splits)
  qed
qed

text \<open>The rule for \<^verbatim>\<open>flush\<close>: what every pass keeps, the whole call keeps.\<close>

lemma flush_rule:
  assumes "I c w"
    and "\<And>c w again c' w'. I c w \<Longrightarrow> \<not> bb_empty (cn_out c) \<Longrightarrow> cn_alive c \<Longrightarrow>
      flush_iter c w = (again, c', w') \<Longrightarrow> I c' w'"
    and "flush c w = (c', w')"
  shows "I c' w'"
  using assms(1,3)
proof (induction c w rule: flush.induct)
  case (1 c w)
  show ?case
  proof (cases "\<not> bb_empty (cn_out c) \<and> cn_alive c")
    case True
    obtain again d v where it: "flush_iter c w = (again, d, v)" by (metis prod_cases3)
    with assms(2) 1(2) True have I: "I d v" by blast
    show ?thesis
    proof (cases again)
      case again: True
      with True it 1(3) have "flush d v = (c', w')" by (simp add: flush.simps [of c w])
      with 1(1) [OF True it [symmetric] refl again I] show ?thesis by blast
    next
      case False
      with True it 1(3) I show ?thesis by (simp add: flush.simps [of c w])
    qed
  next
    case False
    with 1 show ?thesis by (simp add: flush.simps [of c w])
  qed
qed

lemma flush_iter_inv: "conn_inv cfg c \<Longrightarrow> flush_iter c w = (again, c', w') \<Longrightarrow> conn_inv cfg c'"
  by (erule flush_iterE) (auto simp: conn_inv_kill, auto simp: conn_inv_def reading_ok_def bb_wf_consume bb_view_consume)

lemma flush_inv: "conn_inv cfg c \<Longrightarrow> flush c w = (c', w') \<Longrightarrow> conn_inv cfg c'"
  by (rule flush_rule [where I = "\<lambda>c w. conn_inv cfg c"]) (auto intro: flush_iter_inv)

lemma flush_frames:
  "flush c w = (c', w') \<Longrightarrow> cn_fd c' = cn_fd c \<and> cn_self c' = cn_self c \<and> cn_id c' = cn_id c \<and> cn_peer c' = cn_peer c \<and>
     cn_inflight_seq c' = cn_inflight_seq c \<and> cn_next_seq c' = cn_next_seq c \<and> w_pool w' = w_pool w \<and>
     (cn_in_flight c' \<longrightarrow> cn_in_flight c) \<and> (cn_close_after c \<longrightarrow> cn_close_after c') \<and>
     (cn_alive c' \<longrightarrow> cn_alive c \<and> cn_in_flight c' = cn_in_flight c \<and> cn_close_after c' = cn_close_after c)"
proof (rule flush_rule [where I = "\<lambda>d v. cn_fd d = cn_fd c \<and> cn_self d = cn_self c \<and> cn_id d = cn_id c \<and>
     cn_peer d = cn_peer c \<and> cn_inflight_seq d = cn_inflight_seq c \<and> cn_next_seq d = cn_next_seq c \<and> w_pool v = w_pool w \<and>
     (cn_in_flight d \<longrightarrow> cn_in_flight c) \<and> (cn_close_after c \<longrightarrow> cn_close_after d) \<and>
     (cn_alive d \<longrightarrow> cn_alive c \<and> cn_in_flight d = cn_in_flight c \<and> cn_close_after d = cn_close_after c)"])
  fix d v again d' v' assume it: "flush_iter d v = (again, d', v')"
  have "w_pool v' = w_pool v"
    using it by (auto simp: flush_iter_def sys_send_def log_io_def
        split: list.splits send_event.splits if_splits)
  moreover assume "cn_fd d = cn_fd c \<and> cn_self d = cn_self c \<and> cn_id d = cn_id c \<and>
     cn_peer d = cn_peer c \<and> cn_inflight_seq d = cn_inflight_seq c \<and> cn_next_seq d = cn_next_seq c \<and> w_pool v = w_pool w \<and>
     (cn_in_flight d \<longrightarrow> cn_in_flight c) \<and> (cn_close_after c \<longrightarrow> cn_close_after d) \<and>
     (cn_alive d \<longrightarrow> cn_alive c \<and> cn_in_flight d = cn_in_flight c \<and> cn_close_after d = cn_close_after c)"
  ultimately show "cn_fd d' = cn_fd c \<and> cn_self d' = cn_self c \<and> cn_id d' = cn_id c \<and>
     cn_peer d' = cn_peer c \<and> cn_inflight_seq d' = cn_inflight_seq c \<and> cn_next_seq d' = cn_next_seq c \<and> w_pool v' = w_pool w \<and>
     (cn_in_flight d' \<longrightarrow> cn_in_flight c) \<and> (cn_close_after c \<longrightarrow> cn_close_after d') \<and>
     (cn_alive d' \<longrightarrow> cn_alive c \<and> cn_in_flight d' = cn_in_flight c \<and> cn_close_after d' = cn_close_after c)"
    using it by (elim flush_iterE) (auto simp: conn_kill_def)
qed simp_all

text \<open>The response that goes out, and what queueing it changes.\<close>

definition response_out :: "response \<Rightarrow> connection \<Rightarrow> world \<Rightarrow> bytes" where
  "response_out res c w =
     serialize_response (fst (http_date_now (w_time w) (w_date w)))
       (if cn_last_head c then res\<lparr>rs_send_body := False\<rparr> else res)"

lemma queue_response_eq:
  "queue_response res c w =
     (c\<lparr>cn_out := bb_append_target (response_out res c w) (cn_out c),
        cn_close_after := cn_close_after c \<or> \<not> rs_keep_alive res \<or> rs_close_after res\<rparr>,
      w\<lparr>w_date := snd (http_date_now (w_time w) (w_date w))\<rparr>)"
  by (auto simp: queue_response_def response_out_def Let_def split: prod.split)

definition error_out :: "int \<Rightarrow> bytes \<Rightarrow> connection \<Rightarrow> response" where
  "error_out status detail c = (make_error_response status detail False)
     \<lparr>rs_req_major := cn_req_major c, rs_req_minor := cn_req_minor c\<rparr>"

lemma queue_error_eq:
  "queue_error status detail c w =
     (c\<lparr>cn_out := bb_append_target (response_out (error_out status detail c) c w) (cn_out c), cn_close_after := True\<rparr>,
      w\<lparr>w_date := snd (http_date_now (w_time w) (w_date w))\<rparr>)"
  by (simp add: queue_error_def queue_response_eq error_out_def Let_def)

lemma conn_inv_queue:
  "conn_inv cfg c \<Longrightarrow> cn_alive c \<Longrightarrow> cn_close_after c \<longrightarrow> cl \<Longrightarrow>
     conn_inv cfg (c\<lparr>cn_out := bb_append_target x (cn_out c), cn_close_after := cl\<rparr>)"
  by (auto simp: conn_inv_def reading_ok_def bb_wf_append_target)

lemma conn_inv_in_flight: "conn_inv cfg c \<Longrightarrow> cn_alive c \<or> \<not> f \<Longrightarrow> conn_inv cfg (c\<lparr>cn_in_flight := f\<rparr>)"
  by (auto simp: conn_inv_def reading_ok_def)

lemma submit_eq:
  "submit req c w =
     (let (queued, p) = try_submit (Some \<lparr>jb_conn = cn_self c, jb_cid = cn_id c, jb_seq = cn_inflight_seq c,
                                          jb_req = req\<rparr>) (w_pool w)
      in if queued then (c, w\<lparr>w_pool := p\<rparr>)
         else queue_error 503 ''server is at capacity'' (c\<lparr>cn_in_flight := False\<rparr>)
                (w\<lparr>w_pool := p, w_overload_rejections := w_overload_rejections w + 1\<rparr>))"
  by (simp add: submit_def Let_def split: prod.split)

section \<open>Every handler keeps the invariant\<close>

text \<open>After a parse: ready to read on, unless the input was refused.\<close>

lemma parse_reading_ok:
  assumes "reading_ok cfg c" and "r = parse (cn_parser c) (cn_in c) request_init"
    and "pr_status r \<in> {KNeedMore, KExpect100, KRequest}"
  shows "reading_ok cfg (c\<lparr>cn_parser := pr_parser r, cn_in := pr_buf r\<rparr>) \<and>
    (pr_status r = KRequest \<longrightarrow> request_ok (limits_of cfg) (pr_out r))"
proof -
  have "return_ok (cn_parser c) (cn_in c) r"
    unfolding assms(2) by (rule parse_return_ok) (use assms in \<open>auto simp: reading_ok_def goes_on_def\<close>)
  moreover have "q = parser_reset q \<Longrightarrow> ps_consumed q = 0" for q
    by (erule ssubst) (simp add: parser_reset_def)
  ultimately show ?thesis
    using assms(1) by (auto simp: reading_ok_def return_ok_def Let_def split: if_splits)
qed

lemma conn_inv_parsed:
  assumes "conn_inv cfg c" and "cn_alive c" and "r = parse (cn_parser c) (cn_in c) request_init"
    and "cl \<or> (\<not> cn_close_after c \<and> pr_status r \<in> {KNeedMore, KExpect100, KRequest})"
  shows "conn_inv cfg (c\<lparr>cn_parser := pr_parser r, cn_in := pr_buf r, cn_close_after := cl\<rparr>)"
proof -
  have "buf_le (pr_buf r) (cn_in c)" unfolding assms(3) by (rule parse_buf)
  with assms(1,2,4) parse_reading_ok [OF _ assms(3)] show ?thesis
    by (auto simp: conn_inv_def buf_le_def reading_ok_def)
qed

text \<open>A rule for \<^verbatim>\<open>drain_requests\<close>: a loop invariant, and what the last pass gives.\<close>

lemma drain_rule:
  assumes "I c w"
    and go: "\<And>c w. I c w \<Longrightarrow> cn_alive c \<Longrightarrow> \<not> cn_in_flight c \<Longrightarrow> \<not> cn_close_after c \<Longrightarrow>
      (case drain_iter cfg c w of (again, c', w') \<Rightarrow> if again then I c' w' else Q c' w')"
    and stop: "\<And>c w. I c w \<Longrightarrow> \<not> cn_alive c \<or> cn_in_flight c \<or> cn_close_after c \<Longrightarrow> Q c w"
    and "drain_requests cfg c w = (c', w')"
  shows "Q c' w'"
  using assms(1,4)
proof (induction "bb_size (cn_in c)" arbitrary: c w rule: less_induct)
  case less
  show ?case
  proof (cases "\<not> cn_alive c \<or> cn_in_flight c \<or> cn_close_after c")
    case True
    with less.prems stop show ?thesis by (simp add: drain_requests.simps [of cfg c w])
  next
    case False
    obtain again d v where it: "drain_iter cfg c w = (again, d, v)" by (metis prod_cases3)
    from go [of c w] less.prems(1) False it have I: "if again then I d v else Q d v" by simp
    show ?thesis
    proof (cases again)
      case True
      with False it less.prems(2) have "drain_requests cfg d v = (c', w')"
        by (simp add: drain_requests.simps [of cfg c w])
      with less.hyps [of d v] drain_iter_progress it True I show ?thesis by simp
    next
      case again: False
      with False it less.prems(2) I show ?thesis by (simp add: drain_requests.simps [of cfg c w])
    qed
  qed
qed

lemma read_rule:
  assumes "I c w"
    and go: "\<And>c w ctl c' w'. I c w \<Longrightarrow> read_iter cfg c w = (ctl, c', w') \<Longrightarrow> I c' w'"
    and "read_loop cfg c w = (ctl, c', w')"
  shows "I c' w'"
  using assms(1,3)
proof (induction "recv_measure (sk_recv (w_socks w (cn_fd c)))" arbitrary: c w rule: less_induct)
  case less
  obtain k d v where it: "read_iter cfg c w = (k, d, v)" by (metis prod_cases3)
  with go less.prems(1) have I: "I d v" by blast
  show ?case
  proof (cases "k = ReadMore")
    case True
    with it less.prems(2) have "read_loop cfg d v = (ctl, c', w')" by (simp add: read_loop.simps [of cfg c w])
    with less.hyps [of v d] read_iter_script [of cfg c w d v] it True I show ?thesis by simp
  next
    case False
    with it less.prems(2) I show ?thesis by (simp add: read_loop.simps [of cfg c w])
  qed
qed

text \<open>A pass of \<^verbatim>\<open>drain_requests\<close>, by what the parser answered.\<close>

lemma drain_iterE:
  assumes "drain_iter cfg c w = (again, c', w')"
  obtains (more) r where "r = parse (cn_parser c) (cn_in c) request_init" "pr_status r = KNeedMore" "\<not> again"
    "c' = c\<lparr>cn_parser := pr_parser r, cn_in := pr_buf r\<rparr>" "w' = w"
  | (expect) r where "r = parse (cn_parser c) (cn_in c) request_init" "pr_status r = KExpect100" "again"
    "flush (c\<lparr>cn_parser := pr_parser r, cn_in := pr_buf r, cn_out := bb_append kContinue (cn_out c)\<rparr>) w = (c', w')"
  | (refused) r status detail v where "r = parse (cn_parser c) (cn_in c) request_init"
    "pr_status r \<in> {KBadRequest, KTooLarge}" "\<not> again"
    "v = log_bad_request cfg (cn_peer c) (pr_err r) w"
    "(case queue_error status detail (c\<lparr>cn_parser := pr_parser r, cn_in := pr_buf r\<rparr>) v of (d, v) \<Rightarrow> flush d v) = (c', w')"
    "status = (if pr_status r = KBadRequest then 400 else 413)"
  | (request) r d v where "r = parse (cn_parser c) (cn_in c) request_init" "pr_status r = KRequest" "\<not> again"
    "d = c\<lparr>cn_parser := pr_parser r, cn_in := pr_buf r, cn_req_major := rq_major (pr_out r),
           cn_req_minor := rq_minor (pr_out r), cn_last_head := is_head (pr_out r), cn_in_flight := True,
           cn_inflight_seq := cn_next_seq c, cn_next_seq := cn_next_seq c + 1, cn_served := cn_served c + 1\<rparr>"
    "v = w\<lparr>w_requests_received := w_requests_received w + 1\<rparr>"
    "submit ((pr_out r)\<lparr>rq_peer := cn_peer c\<rparr>) d v = (c', w')"
proof -
  define r where "r = parse (cn_parser c) (cn_in c) request_init"
  show thesis
  proof (cases "pr_status r")
    case KNeedMore
    with assms that(1) [OF r_def] show ?thesis by (simp add: drain_iter_def Let_def flip: r_def)
  next
    case KExpect100
    with assms that(2) [OF r_def] show ?thesis by (simp add: drain_iter_def Let_def flip: r_def)
  next
    case KRequest
    with assms that(4) [OF r_def] show ?thesis by (simp add: drain_iter_def Let_def flip: r_def)
  next
    case KBadRequest
    with assms that(3) [of r _ 400 "''malformed request''", OF r_def _ _ refl] show ?thesis
      by (auto simp: drain_iter_def Let_def simp flip: r_def split: prod.splits)
  next
    case KTooLarge
    with assms that(3) [of r _ 413 "''request too large''", OF r_def _ _ refl] show ?thesis
      by (auto simp: drain_iter_def Let_def simp flip: r_def split: prod.splits)
  qed
qed

section \<open>The stream only grows\<close>

text \<open>
  What any part of a handler may do: it keeps the identity of the connection and its applied mask,
  never takes back the order to drain, touches no other socket, never takes back a byte that was sent or, while the connection lives, one that was queued
  to be sent, never revives a connection and never takes back the decision to close it.
\<close>

definition sent :: "connection \<Rightarrow> world \<Rightarrow> bytes" where
  "sent c w = sk_sent (w_socks w (cn_fd c))"

definition wire :: "connection \<Rightarrow> world \<Rightarrow> bytes" where
  "wire c w = sent c w @ bb_view (cn_out c)"

definition evolves :: "connection \<Rightarrow> world \<Rightarrow> connection \<Rightarrow> world \<Rightarrow> bool" where
  "evolves c w c' w' =
     (cn_fd c' = cn_fd c \<and> cn_self c' = cn_self c \<and> cn_id c' = cn_id c \<and>
      cn_applied_mask c' = cn_applied_mask c \<and> (cn_draining c \<longrightarrow> cn_draining c') \<and>
      (\<forall>fd. fd \<noteq> cn_fd c \<longrightarrow> w_socks w' fd = w_socks w fd) \<and>
      prefix (sent c w) (sent c' w') \<and>
      (cn_alive c' \<longrightarrow> cn_alive c \<and> prefix (wire c w) (wire c' w')) \<and>
      (cn_close_after c \<longrightarrow> cn_close_after c'))"

lemma evolves_refl [simp]: "evolves c w c w"
  by (simp add: evolves_def)

lemma evolves_trans: "evolves c w c' w' \<Longrightarrow> evolves c' w' c'' w'' \<Longrightarrow> evolves c w c'' w''"
  by (auto simp: evolves_def intro: prefix_order.trans)

lemma evolves_quiet:
  assumes "cn_fd c' = cn_fd c" "cn_self c' = cn_self c" "cn_id c' = cn_id c" "w_socks w' = w_socks w"
    "cn_alive c' \<longrightarrow> cn_alive c \<and> prefix (bb_view (cn_out c)) (bb_view (cn_out c'))"
    "cn_close_after c \<longrightarrow> cn_close_after c'" "cn_applied_mask c' = cn_applied_mask c" "cn_draining c \<longrightarrow> cn_draining c'"
  shows "evolves c w c' w'"
  using assms by (simp add: evolves_def sent_def wire_def)

lemma flush_iter_other: "flush_iter c w = (again, c', w') \<Longrightarrow> fd \<noteq> cn_fd c \<Longrightarrow> w_socks w' fd = w_socks w fd"
  by (auto simp: flush_iter_def sys_send_def log_io_def split: list.splits send_event.splits if_splits)

lemma evolves_flush_iter:
  assumes "flush_iter c w = (again, c', w')"
  shows "evolves c w c' w'"
  using assms
proof (cases rule: flush_iterE)
  case (sent n t)
  then show ?thesis
    using flush_iter_other [OF assms]
    by (simp add: evolves_def sent_def wire_def bb_view_consume)
next
  case same
  then show ?thesis using flush_iter_other [OF assms] by (simp add: evolves_def sent_def wire_def)
next
  case dead
  then show ?thesis using flush_iter_other [OF assms] by (simp add: evolves_def sent_def conn_kill_def)
qed

lemma evolves_flush: "flush c w = (c', w') \<Longrightarrow> evolves c w c' w'"
  by (rule flush_rule [where I = "\<lambda>d v. evolves c w d v"]) (auto intro: evolves_trans evolves_flush_iter)

lemma evolves_queue_response:
  "bb_wf (cn_out c) \<Longrightarrow> queue_response res c w = (c', w') \<Longrightarrow> evolves c w c' w'"
  by (auto simp: queue_response_eq view_simps intro: evolves_quiet)

lemma evolves_queue_error:
  "bb_wf (cn_out c) \<Longrightarrow> queue_error st d c w = (c', w') \<Longrightarrow> evolves c w c' w'"
  by (auto simp: queue_error_eq view_simps intro: evolves_quiet)

text \<open>The contract of a handler: from a connection in order to a connection in order.\<close>

definition conn_ok :: "config \<Rightarrow> connection \<Rightarrow> world \<Rightarrow> connection \<Rightarrow> world \<Rightarrow> bool" where
  "conn_ok cfg c w c' w' = (conn_inv cfg c' \<and> evolves c w c' w')"

lemma conn_ok_trans: "conn_ok cfg c w c' w' \<Longrightarrow> conn_ok cfg c' w' c'' w'' \<Longrightarrow> conn_ok cfg c w c'' w''"
  by (auto simp: conn_ok_def intro: evolves_trans)

lemma conn_ok_flush: "conn_inv cfg c \<Longrightarrow> flush c w = (c', w') \<Longrightarrow> conn_ok cfg c w c' w'"
  by (simp add: conn_ok_def flush_inv evolves_flush)

lemma conn_ok_queue_response:
  "conn_inv cfg c \<Longrightarrow> cn_alive c \<Longrightarrow> queue_response res c w = (c', w') \<Longrightarrow> conn_ok cfg c w c' w'"
  using evolves_queue_response [of c res w c' w']
  by (auto simp: conn_ok_def queue_response_eq conn_inv_queue) (auto simp: conn_inv_def)

lemma conn_ok_queue_error:
  "conn_inv cfg (c\<lparr>cn_close_after := True\<rparr>) \<Longrightarrow> cn_alive c \<Longrightarrow> queue_error st d c w = (c', w') \<Longrightarrow> conn_ok cfg c w c' w'"
  using evolves_queue_error [of c st d w c' w'] conn_inv_queue [of cfg "c\<lparr>cn_close_after := True\<rparr>" True]
  by (auto simp: conn_ok_def queue_error_eq) (auto simp: conn_inv_def)

text \<open>An error answer closes the connection, so nothing more is asked of its parser.\<close>

lemma conn_ok_error_flush:
  assumes "conn_inv cfg (c\<lparr>cn_close_after := True\<rparr>)" "cn_alive c"
    "(case queue_error st d c w of (c, w) \<Rightarrow> flush c w) = (c', w')"
  shows "conn_ok cfg c w c' w' \<and> cn_close_after c'"
proof -
  obtain d1 v1 where q: "queue_error st d c w = (d1, v1)" by (cases "queue_error st d c w")
  with assms(3) have f: "flush d1 v1 = (c', w')" by simp
  from q have "cn_close_after d1" by (auto simp: queue_error_eq)
  moreover note ok = conn_ok_queue_error [OF assms(1,2) q]
  ultimately show ?thesis
    using conn_ok_trans [OF ok conn_ok_flush [OF _ f]] flush_frames [OF f] ok by (simp add: conn_ok_def)
qed

lemma conn_ok_submit:
  assumes "conn_inv cfg c" "cn_alive c" "submit req c w = (c', w')"
  shows "conn_ok cfg c w c' w'"
proof -
  obtain queued p where t: "try_submit (Some \<lparr>jb_conn = cn_self c, jb_cid = cn_id c, jb_seq = cn_inflight_seq c,
      jb_req = req\<rparr>) (w_pool w) = (queued, p)" by fastforce
  show ?thesis
  proof (cases queued)
    case True
    with assms t show ?thesis by (auto simp: submit_eq conn_ok_def intro: evolves_quiet)
  next
    case False
    let ?c = "c\<lparr>cn_in_flight := False\<rparr>"
    let ?w = "w\<lparr>w_pool := p, w_overload_rejections := w_overload_rejections w + 1\<rparr>"
    have "conn_ok cfg c w ?c ?w" using assms(1) by (auto simp: conn_ok_def conn_inv_in_flight intro: evolves_quiet)
    moreover have "conn_ok cfg ?c ?w c' w'"
      using assms False t by (intro conn_ok_queue_error) (auto simp: submit_eq conn_inv_in_flight)
    ultimately show ?thesis by (rule conn_ok_trans)
  qed
qed

lemma conn_ok_drain_iter:
  assumes "conn_inv cfg c" "cn_alive c" "\<not> cn_close_after c" "drain_iter cfg c w = (again, c', w')"
  shows "conn_ok cfg c w c' w'"
  using assms(4)
proof (cases rule: drain_iterE)
  case (more r)
  have "conn_inv cfg (c\<lparr>cn_parser := pr_parser r, cn_in := pr_buf r, cn_close_after := cn_close_after c\<rparr>)"
    by (rule conn_inv_parsed [OF assms(1,2) more(1)]) (use assms(3) more in simp)
  with more show ?thesis by (auto simp: conn_ok_def intro: evolves_quiet)
next
  case (expect r)
  let ?c = "c\<lparr>cn_parser := pr_parser r, cn_in := pr_buf r, cn_out := bb_append kContinue (cn_out c)\<rparr>"
  have inv: "conn_inv cfg (c\<lparr>cn_parser := pr_parser r, cn_in := pr_buf r, cn_close_after := cn_close_after c\<rparr>)"
    by (rule conn_inv_parsed [OF assms(1,2) expect(1)]) (use assms(3) expect in simp)
  then have "conn_inv cfg ?c" using assms(2)
    by (auto simp: conn_inv_def reading_ok_def bb_wf_append)
  moreover have "evolves c w ?c w"
    using assms(1) by (auto simp: conn_inv_def view_simps intro: evolves_quiet)
  ultimately show ?thesis using conn_ok_flush [OF _ expect(4)] conn_ok_trans by (auto simp: conn_ok_def)
next
  case (refused r status detail v)
  let ?c = "c\<lparr>cn_parser := pr_parser r, cn_in := pr_buf r\<rparr>"
  have "conn_inv cfg (c\<lparr>cn_parser := pr_parser r, cn_in := pr_buf r, cn_close_after := True\<rparr>)"
    by (rule conn_inv_parsed [OF assms(1,2) refused(1)]) simp
  then have "conn_inv cfg (?c\<lparr>cn_close_after := True\<rparr>)" by simp
  then have "conn_ok cfg ?c v c' w'" by (rule conn_ok_error_flush [OF _ _ refused(5), THEN conjunct1]) (use assms in simp)
  moreover have "evolves c w ?c v" using refused by (intro evolves_quiet) (simp_all add: log_bad_request_def)
  ultimately show ?thesis by (auto simp: conn_ok_def intro: evolves_trans)
next
  case (request r d v)
  have "conn_inv cfg (c\<lparr>cn_parser := pr_parser r, cn_in := pr_buf r, cn_close_after := cn_close_after c\<rparr>)"
    by (rule conn_inv_parsed [OF assms(1,2) request(1)]) (use assms(3) request in simp)
  then have "conn_inv cfg d" using assms(2) request(4) by (simp add: conn_inv_def reading_ok_def)
  then have "conn_ok cfg d v c' w'" by (rule conn_ok_submit [OF _ _ request(6)]) (use assms request in simp)
  moreover have "evolves c w d v" using request by (intro evolves_quiet) simp_all
  ultimately show ?thesis by (auto simp: conn_ok_def intro: evolves_trans)
qed

lemma conn_ok_refl: "conn_inv cfg c \<Longrightarrow> conn_ok cfg c w c w"
  by (simp add: conn_ok_def)

lemma conn_okD: "conn_ok cfg c w c' w' \<Longrightarrow> conn_inv cfg c'"
  by (simp add: conn_ok_def)

lemma conn_ok_drain_requests:
  assumes "conn_inv cfg c" "drain_requests cfg c w = (c', w')"
  shows "conn_ok cfg c w c' w'"
  using conn_ok_refl [OF assms(1), of w]
proof (rule drain_rule [where I = "conn_ok cfg c w" and Q = "conn_ok cfg c w", OF _ _ _ assms(2)])
  fix d v assume ok: "conn_ok cfg c w d v" and "cn_alive d" "\<not> cn_close_after d"
  then have "conn_ok cfg d v d' v'" if "drain_iter cfg d v = (again, d', v')" for again d' v'
    using that by (intro conn_ok_drain_iter conn_okD [OF ok])
  with ok show "case drain_iter cfg d v of (again, d', v') \<Rightarrow>
      if again then conn_ok cfg c w d' v' else conn_ok cfg c w d' v'"
    by (auto intro: conn_ok_trans split: prod.split)
qed

text \<open>A pass of the reading loop, by what \<^verbatim>\<open>recv\<close> gave.\<close>

lemma sys_recv_bytes: "sys_recv fd w = (Inr bs, w') \<Longrightarrow> length bs \<le> recv_buf_size"
  by (auto simp: sys_recv_def split: list.splits recv_event.splits if_splits)

lemma sys_recv_frames:
  "sys_recv fd w = (r, w') \<Longrightarrow> sk_sent (w_socks w' fd') = sk_sent (w_socks w fd') \<and> (fd' \<noteq> fd \<longrightarrow> w_socks w' fd' = w_socks w fd') \<and>
     w_pool w' = w_pool w"
  by (auto simp: sys_recv_def split: list.splits recv_event.splits if_splits)

lemma read_iterE:
  assumes "read_iter cfg c w = (ctl, c', w')"
  obtains (stop) "\<not> want_read cfg c" "ctl = ReadBreak" "c' = c" "w' = w"
  | (got) bs v where "want_read cfg c" "sys_recv (cn_fd c) w = (Inr bs, v)" "bs \<noteq> []" "ctl = ReadMore"
    "c' = c\<lparr>cn_in := bb_append bs (cn_in c), cn_last_activity := fst (clock_now v)\<rparr>" "w' = snd (clock_now v)"
    "ps_consumed (cn_parser c) + bb_size (bb_append bs (cn_in c)) \<le> unat (cf_max_request_bytes cfg)"
  | (big) bs v where "want_read cfg c" "sys_recv (cn_fd c) w = (Inr bs, v)" "bs \<noteq> []" "ctl = ReadReturn"
    "(case queue_error 413 ''request exceeds the configured limit''
        (c\<lparr>cn_in := bb_append bs (cn_in c), cn_last_activity := fst (clock_now v)\<rparr>) (snd (clock_now v))
      of (d, v) \<Rightarrow> flush d v) = (c', w')"
  | (eof) "want_read cfg c" "sys_recv (cn_fd c) w = (Inr [], w')" "ctl = ReadBreak" "c' = c\<lparr>cn_peer_eof := True\<rparr>"
  | (again) e where "want_read cfg c" "sys_recv (cn_fd c) w = (Inl e, w')" "ctl = (if e = EINTR then ReadMore else ReadBreak)"
    "c' = c"
  | (dead) e v where "want_read cfg c" "sys_recv (cn_fd c) w = (Inl e, v)" "ctl = ReadReturn" "c' = conn_kill c"
    "w' = log_io ''recv failed'' (cn_peer c) e v"
proof (cases "want_read cfg c")
  case True
  obtain r v where r: "sys_recv (cn_fd c) w = (r, v)" by fastforce
  show ?thesis
  proof (cases r)
    case (Inl e)
    with True r assms that(5) [of e] that(6) [of e v] show ?thesis
      by (auto simp: read_iter_def split: if_splits)
  next
    case (Inr bs)
    show ?thesis
    proof (cases "bs = []")
      case True
      with \<open>want_read cfg c\<close> r Inr assms that(4) show ?thesis by (auto simp: read_iter_def)
    next
      case False
      with True r Inr assms that(2) [of bs v] that(3) [of bs v] show ?thesis
        by (auto simp: read_iter_def Let_def bytes_consumed_def not_less split: if_splits prod.splits)
    qed
  qed
next
  case False
  with assms have "ctl = ReadBreak \<and> c' = c \<and> w' = w" by (simp add: read_iter_def)
  with False that(1) show ?thesis by blast
qed

lemma want_readD: "want_read cfg c \<Longrightarrow> cn_alive c \<and> \<not> cn_close_after c \<and> \<not> cn_in_flight c \<and> \<not> cn_peer_eof c \<and> \<not> cn_draining c"
  by (simp add: want_read_def split: if_splits)

lemma evolves_received:
  assumes "sys_recv (cn_fd c) w = (r, v)" "cn_fd c' = cn_fd c" "cn_self c' = cn_self c" "cn_id c' = cn_id c"
    "w_socks w' = w_socks v" "cn_alive c' \<longrightarrow> cn_alive c \<and> cn_out c' = cn_out c" "cn_close_after c \<longrightarrow> cn_close_after c'"
    "cn_applied_mask c' = cn_applied_mask c" "cn_draining c \<longrightarrow> cn_draining c'"
  shows "evolves c w c' w'"
  using assms sys_recv_frames [OF assms(1)] by (auto simp: evolves_def sent_def wire_def)

lemma conn_inv_received:
  assumes inv: "conn_inv cfg c" and want: "want_read cfg c" and r: "sys_recv (cn_fd c) w = (Inr bs, v)"
    and cl: "cl \<or> ps_consumed (cn_parser c) + bb_size (bb_append bs (cn_in c)) \<le> unat (cf_max_request_bytes cfg)"
  shows "conn_inv cfg (c\<lparr>cn_in := bb_append bs (cn_in c), cn_last_activity := t, cn_close_after := cl\<rparr>)"
proof -
  have "length (bb_view (cn_in c)) \<le> unat (cf_max_request_bytes cfg)" "bb_wf (cn_in c)" "reading_ok cfg c"
    using inv want_readD [OF want] by (auto simp: conn_inv_def reading_ok_def)
  moreover have "bb_view (bb_append bs (cn_in c)) = bb_view (cn_in c) @ bs" using inv by (simp add: conn_inv_def bb_view_append)
  ultimately show ?thesis
    using inv cl sys_recv_bytes [OF r] want_readD [OF want]
    by (auto simp: conn_inv_def reading_ok_def bb_wf_append simp flip: length_bb_view)
qed

lemma conn_ok_read_iter:
  assumes inv: "conn_inv cfg c" and it: "read_iter cfg c w = (ctl, c', w')"
  shows "conn_ok cfg c w c' w'"
  using it
proof (cases rule: read_iterE)
  case stop
  with inv show ?thesis by (simp add: conn_ok_def)
next
  case (got bs v)
  have "conn_inv cfg (c\<lparr>cn_in := bb_append bs (cn_in c), cn_last_activity := fst (clock_now v), cn_close_after := cn_close_after c\<rparr>)"
    by (rule conn_inv_received [OF inv got(1,2)]) (use got in simp)
  with got show ?thesis by (auto simp: conn_ok_def intro: evolves_received)
next
  case (big bs v)
  let ?c = "c\<lparr>cn_in := bb_append bs (cn_in c), cn_last_activity := fst (clock_now v)\<rparr>"
  have "conn_inv cfg (?c\<lparr>cn_close_after := True\<rparr>)"
    using conn_inv_received [OF inv big(1,2), of True] by simp
  then have "conn_ok cfg ?c (snd (clock_now v)) c' w'"
    by (rule conn_ok_error_flush [OF _ _ big(5), THEN conjunct1]) (use want_readD [OF big(1)] in simp)
  moreover have "evolves c w ?c (snd (clock_now v))" by (rule evolves_received [OF big(2)]) simp_all
  ultimately show ?thesis by (auto simp: conn_ok_def intro: evolves_trans)
next
  case eof
  with inv show ?thesis by (auto simp: conn_ok_def intro: evolves_received)
next
  case (again e)
  with inv show ?thesis by (auto simp: conn_ok_def intro: evolves_received)
next
  case (dead e v)
  have "evolves c w (conn_kill c) w'" by (rule evolves_received [OF dead(2)]) (simp_all add: conn_kill_def dead log_io_def)
  with inv dead show ?thesis by (simp add: conn_ok_def conn_inv_kill)
qed

lemma conn_ok_read_loop:
  assumes "conn_inv cfg c" "read_loop cfg c w = (ctl, c', w')"
  shows "conn_ok cfg c w c' w'"
  by (rule read_rule [where I = "conn_ok cfg c w", OF conn_ok_refl [OF assms(1)] _ assms(2)])
     (blast intro: conn_ok_trans conn_ok_read_iter conn_okD)

lemma conn_ok_close: "conn_inv cfg c \<Longrightarrow> conn_ok cfg c w (c\<lparr>cn_close_after := True\<rparr>) w"
  by (auto simp: conn_ok_def intro: evolves_quiet)

lemma conn_ok_on_readable:
  assumes inv: "conn_inv cfg c" and step: "on_readable cfg c w = (c', w')"
  shows "conn_ok cfg c w c' w'"
proof (cases "cn_alive c \<and> want_read cfg c")
  case True
  obtain ctl d v where l: "read_loop cfg c w = (ctl, d, v)" by (metis prod_cases3)
  note ok = conn_ok_read_loop [OF inv l]
  show ?thesis
  proof (cases "ctl = ReadReturn")
    case True
    with ok l step \<open>cn_alive c \<and> want_read cfg c\<close> show ?thesis by (simp add: on_readable_def)
  next
    case False
    obtain e u where q: "drain_requests cfg d v = (e, u)" by fastforce
    note ok = conn_ok_trans [OF ok conn_ok_drain_requests [OF conn_okD [OF ok] q]]
    from False step l q True have "(c', w') = (if cn_peer_eof e \<and> \<not> cn_in_flight e \<and> bb_empty (cn_out e)
        then e\<lparr>cn_close_after := True\<rparr> else e, u)" by (simp add: on_readable_def)
    with ok conn_ok_trans [OF ok conn_ok_close [OF conn_okD [OF ok]]] show ?thesis by (simp split: if_splits)
  qed
qed (use assms in \<open>auto simp: on_readable_def conn_ok_def\<close>)

lemma conn_ok_on_worker_result:
  assumes inv: "conn_inv cfg c" and step: "on_worker_result res seq c w = (c', w')"
  shows "conn_ok cfg c w c' w'"
proof (cases "cn_alive c \<and> cn_in_flight c \<and> seq = cn_inflight_seq c")
  case True
  let ?c = "c\<lparr>cn_in_flight := False\<rparr>"
  obtain d v where q: "queue_response res ?c w = (d, v)" by fastforce
  with True step have f: "flush d v = (c', w')" by (simp add: on_worker_result_def)
  have "conn_ok cfg c w ?c w" using inv by (auto simp: conn_ok_def conn_inv_in_flight intro: evolves_quiet)
  moreover have ok: "conn_ok cfg ?c w d v"
    by (rule conn_ok_queue_response [OF _ _ q]) (use inv True in \<open>simp_all add: conn_inv_in_flight\<close>)
  moreover have "conn_ok cfg d v c' w'" by (rule conn_ok_flush [OF conn_okD [OF ok] f])
  ultimately show ?thesis by (blast intro: conn_ok_trans)
qed (use assms in \<open>auto simp: on_worker_result_def conn_ok_def split: if_splits\<close>)

lemma conn_ok_kill: "conn_inv cfg c \<Longrightarrow> w_socks w' = w_socks w \<Longrightarrow> conn_ok cfg c w (conn_kill c) w'"
  unfolding conn_ok_def by (intro conjI conn_inv_kill evolves_quiet) (simp_all add: conn_kill_def)

lemma conn_ok_on_hangup:
  assumes inv: "conn_inv cfg c" and step: "on_hangup ev c w = (c', w')"
  shows "conn_ok cfg c w c' w'"
proof (cases "ev AND EPOLLERR = 0")
  case True
  let ?c = "c\<lparr>cn_peer_eof := True, cn_close_after := True\<rparr>"
  have ok: "conn_ok cfg c w ?c w" using inv by (auto simp: conn_ok_def intro: evolves_quiet)
  from True step have "flush ?c w = (c', w')" by (simp add: on_hangup_def)
  from conn_ok_trans [OF ok conn_ok_flush [OF conn_okD [OF ok] this]] show ?thesis .
qed (use assms conn_ok_kill [OF inv] in \<open>auto simp: on_hangup_def\<close>)

lemma conn_ok_on_tick:
  assumes inv: "conn_inv cfg c" and step: "on_tick oob cfg now c w = (c', w')"
  shows "conn_ok cfg c w c' w'"
proof -
  let ?v = "w\<lparr>w_timeouts := w_timeouts w + 1\<rparr>"
  let ?e = "case queue_error 408 ''no request within the idle timeout'' c ?v of (d, v) \<Rightarrow> flush d v"
  consider "(c', w') = (c, w)" | "(c', w') = (c\<lparr>cn_close_after := True\<rparr>, w)"
    | "c' = conn_kill c" "w_socks w' = w_socks w" | "cn_alive c" "?e = (c', w')"
  proof (cases "cn_alive c \<and> \<not> (cn_draining c \<and> \<not> cn_in_flight c \<and> bb_empty (cn_out c)) \<and> bb_empty (cn_out c)")
    case True
    with step have "(c, w) = (c', w') \<or> ?e = (c', w')" by (simp add: on_tick_def Let_def split: if_splits)
    with True that(1,4) show ?thesis by metis
  next
    case False
    with step have "(c, w) = (c', w') \<or> (c\<lparr>cn_close_after := True\<rparr>, w) = (c', w') \<or> c' = conn_kill c \<and> w_socks w' = w_socks w"
      by (auto simp: on_tick_def log_io_def split: if_splits)
    with that(1,2,3) show ?thesis by metis
  qed
  then show ?thesis
  proof cases
    case 4
    have "conn_ok cfg c ?v c' w'" by (rule conn_ok_error_flush [OF _ 4, THEN conjunct1]) (use inv in simp)
    moreover have "evolves c w c ?v" by (rule evolves_quiet) simp_all
    ultimately show ?thesis by (auto simp: conn_ok_def intro: evolves_trans)
  qed (use inv conn_ok_kill [OF inv] conn_ok_close [OF inv] in \<open>auto simp: conn_ok_def\<close>)
qed

lemma conn_ok_begin_draining: "conn_inv cfg c \<Longrightarrow> conn_ok cfg c w (begin_draining c) w"
  by (auto simp: conn_ok_def begin_draining_def Let_def intro: evolves_quiet)

section \<open>The connection as a machine\<close>

text \<open>
  What can happen to a connection: the events the loop delivers, the result of its job, the order to
  drain and the order to die.
\<close>

datatype conn_event = Readable | Writable | Hangup u32 | Tick int | WorkerResult response u64 | Drain | Kill

fun conn_step :: "(double \<Rightarrow> int) \<Rightarrow> config \<Rightarrow> conn_event \<Rightarrow> connection \<times> world \<Rightarrow> connection \<times> world" where
  "conn_step oob cfg Readable (c, w) = on_readable cfg c w"
| "conn_step oob cfg Writable (c, w) = on_writable c w"
| "conn_step oob cfg (Hangup ev) (c, w) = on_hangup ev c w"
| "conn_step oob cfg (Tick now) (c, w) = on_tick oob cfg now c w"
| "conn_step oob cfg (WorkerResult res seq) (c, w) = on_worker_result res seq c w"
| "conn_step oob cfg Drain (c, w) = (begin_draining c, w)"
| "conn_step oob cfg Kill (c, w) = (conn_kill c, w)"

text \<open>A machine whose steps keep an invariant and only move forward in some preorder.\<close>

locale guarded_machine =
  fixes step :: "'e \<Rightarrow> 's \<Rightarrow> 's" and ok :: "'s \<Rightarrow> bool" and forward :: "'s \<Rightarrow> 's \<Rightarrow> bool"
  assumes ok_step: "ok s \<Longrightarrow> ok (step e s)"
    and forward_step: "ok s \<Longrightarrow> forward s (step e s)"
    and forward_refl: "forward s s"
    and forward_trans: "forward s s' \<Longrightarrow> forward s' s'' \<Longrightarrow> forward s s''"
begin

lemma ok_run: "ok s \<Longrightarrow> ok (fold step es s)"
  by (induction es arbitrary: s) (simp_all add: ok_step)

lemma forward_run: "ok s \<Longrightarrow> forward s (fold step es s)"
proof (induction es arbitrary: s)
  case (Cons e es)
  then have "forward (step e s) (fold step es (step e s))" by (simp add: ok_step)
  with forward_step [OF Cons.prems] show ?case by (auto intro: forward_trans)
qed (simp add: forward_refl)

text \<open>What every state of the run that is in order satisfies, holds after any continuation.\<close>

lemma forward_split: "ok s \<Longrightarrow> forward (fold step es s) (fold step (es @ fs) s)"
  using forward_run [OF ok_run] by simp

end

lemma conn_step_ok: "conn_inv cfg c \<Longrightarrow> conn_step oob cfg e (c, w) = (c', w') \<Longrightarrow> conn_ok cfg c w c' w'"
  by (cases e)
     (auto simp: on_writable_def conn_ok_on_readable conn_ok_flush conn_ok_on_hangup conn_ok_on_tick
       conn_ok_on_worker_result conn_ok_begin_draining conn_ok_kill)

interpretation cm: guarded_machine "conn_step oob cfg" "\<lambda>(c, w). conn_inv cfg c" "\<lambda>(c, w) (c', w'). evolves c w c' w'"
  for oob cfg
proof (unfold_locales, goal_cases)
  case (1 s e)
  then show ?case using conn_step_ok [of cfg "fst s" oob e "snd s"] by (auto simp: conn_ok_def split: prod.splits)
next
  case (2 s e)
  then show ?case using conn_step_ok [of cfg "fst s" oob e "snd s"] by (auto simp: conn_ok_def split: prod.splits)
qed (auto intro: evolves_trans)

section \<open>Exactly the bytes of the answer\<close>

text \<open>Flushing moves bytes from the buffer to the socket and neither adds nor loses any.\<close>

lemma flush_wire:
  assumes "flush c w = (c', w')" "cn_alive c'"
  shows "wire c' w' = wire c w"
proof -
  have "cn_fd c' = cn_fd c \<and> (cn_alive c' \<longrightarrow> wire c' w' = wire c w)"
  proof (rule flush_rule [where I = "\<lambda>d v. cn_fd d = cn_fd c \<and> (cn_alive d \<longrightarrow> wire d v = wire c w)", OF _ _ assms(1)])
    fix d v again d' v' assume "cn_fd d = cn_fd c \<and> (cn_alive d \<longrightarrow> wire d v = wire c w)" "cn_alive d"
    moreover assume "flush_iter d v = (again, d', v')"
    ultimately show "cn_fd d' = cn_fd c \<and> (cn_alive d' \<longrightarrow> wire d' v' = wire c w)"
      by (elim flush_iterE) (auto simp: wire_def sent_def conn_kill_def bb_view_consume)
  qed simp
  with assms(2) show ?thesis by simp
qed

lemma on_worker_result_wire:
  assumes "conn_inv cfg c" "cn_alive c" "cn_in_flight c" "on_worker_result res (cn_inflight_seq c) c w = (c', w')" "cn_alive c'"
  shows "wire c' w' = wire c w @ response_out res c w"
proof -
  let ?c = "c\<lparr>cn_in_flight := False\<rparr>"
  obtain d v where q: "queue_response res ?c w = (d, v)" by fastforce
  with assms have f: "flush d v = (c', w')" by (simp add: on_worker_result_def)
  from q have "wire d v = wire c w @ response_out res c w"
    using assms(1) by (auto simp: queue_response_eq wire_def sent_def conn_inv_def view_simps response_out_def)
  with flush_wire [OF f assms(5)] show ?thesis by simp
qed

text \<open>After a result has been applied nothing is in flight, so the same result is not applied twice.\<close>

lemma on_worker_result_once:
  assumes "on_worker_result res seq c w = (c', w')"
  shows "on_worker_result res' seq c' w' = (c', w')"
proof (cases "cn_alive c \<and> cn_in_flight c \<and> seq = cn_inflight_seq c")
  case True
  obtain d v where q: "queue_response res (c\<lparr>cn_in_flight := False\<rparr>) w = (d, v)" by fastforce
  with True assms have f: "flush d v = (c', w')" by (simp add: on_worker_result_def)
  from q have "\<not> cn_in_flight d" by (auto simp: queue_response_eq)
  with flush_frames [OF f] show ?thesis by (simp add: on_worker_result_def)
qed (use assms in \<open>auto simp: on_worker_result_def split: if_splits\<close>)

text \<open>A socket that takes bytes is given all of them.\<close>

lemma flush_all_sent:
  assumes "sk_send (w_socks w (cn_fd c)) = map SendRoom ns @ rest" "\<forall>n \<in> set ns. 0 < n"
    "length (bb_view (cn_out c)) \<le> sum_list ns" "cn_alive c"
  shows "bb_view (cn_out (fst (flush c w))) = [] \<and> cn_alive (fst (flush c w)) \<and>
     sent (fst (flush c w)) (snd (flush c w)) = sent c w @ bb_view (cn_out c)"
  using assms
proof (induction ns arbitrary: c w)
  case Nil
  then have "bb_empty (cn_out c)" by (simp add: bb_empty_def length_bb_view bb_size_def)
  with Nil show ?case by (simp add: flush.simps sent_def)
next
  case (Cons n ns)
  show ?case
  proof (cases "bb_empty (cn_out c)")
    case True
    then have "bb_view (cn_out c) = []" using length_bb_view [of "cn_out c"] by (simp add: bb_empty_def bb_size_def)
    with True show ?thesis using Cons.prems by (simp add: flush.simps sent_def)
  next
    case False
    then have ne: "bb_view (cn_out c) \<noteq> []" using length_bb_view [of "cn_out c"] by (auto simp: bb_empty_def bb_size_def)
    let ?k = "min n (length (bb_view (cn_out c)))"
    obtain again c' w' where it: "flush_iter c w = (again, c', w')" by (metis prod_cases3)
    have k: "0 < ?k" using ne Cons.prems by simp
    from it have again: "again" and out: "cn_out c' = bb_consume ?k (cn_out c)" and fd: "cn_fd c' = cn_fd c" "cn_alive c'"
      and snd: "sk_sent (w_socks w' (cn_fd c)) = sk_sent (w_socks w (cn_fd c)) @ take n (bb_view (cn_out c))"
      and rest: "sk_send (w_socks w' (cn_fd c)) = map SendRoom ns @ rest"
      using Cons.prems k ne by (auto simp: flush_iter_def sys_send_def)
    have v: "bb_view (cn_out c') = drop n (bb_view (cn_out c))"
      using bb_view_consume [of ?k "cn_out c"] by (simp add: out length_bb_view min_def)
    have "bb_view (cn_out (fst (flush c' w'))) = [] \<and> cn_alive (fst (flush c' w')) \<and>
        sent (fst (flush c' w')) (snd (flush c' w')) = sent c' w' @ bb_view (cn_out c')"
      by (rule Cons.IH) (use Cons.prems rest fd v in auto)
    moreover have "flush c w = flush c' w'" using False Cons.prems it again by (simp add: flush.simps [of c w])
    ultimately show ?thesis using snd v fd by (simp add: sent_def)
  qed
qed

section \<open>What is handed to the pool\<close>

text \<open>
  A handler leaves the pool alone, or puts one job at the end of its queue: the request of this
  connection, within the limits, under a fresh sequence number, and only when none was in flight.
\<close>

definition keeps_flight :: "connection \<Rightarrow> connection \<Rightarrow> bool" where
  "keeps_flight c c' =
     (cn_alive c' \<longrightarrow> cn_in_flight c' = cn_in_flight c \<and> (cn_in_flight c' \<longrightarrow> cn_inflight_seq c' = cn_inflight_seq c))"

definition hands_over :: "config \<Rightarrow> connection \<Rightarrow> world \<Rightarrow> connection \<Rightarrow> world \<Rightarrow> bool" where
  "hands_over cfg c w c' w' =
     (w_pool w' = w_pool w \<and> keeps_flight c c' \<or>
      (\<exists>j. w_pool w' = (w_pool w)\<lparr>tp_queue := tp_queue (w_pool w) @ [j]\<rparr> \<and>
           \<not> cn_in_flight c \<and> cn_in_flight c' \<and> cn_alive c' \<and>
           jb_conn j = cn_self c \<and> jb_cid j = cn_id c \<and> jb_seq j = cn_next_seq c \<and>
           cn_inflight_seq c' = cn_next_seq c \<and> cn_next_seq c' = cn_next_seq c + 1 \<and>
           request_ok (limits_of cfg) (jb_req j) \<and> rq_peer (jb_req j) = cn_peer c))"

text \<open>Until it hands over a request, a handler keeps the pool and the next sequence number.\<close>

definition waits :: "connection \<Rightarrow> world \<Rightarrow> connection \<Rightarrow> world \<Rightarrow> bool" where
  "waits c w c' w' = (w_pool w' = w_pool w \<and> cn_next_seq c' = cn_next_seq c \<and> cn_peer c' = cn_peer c \<and>
     cn_self c' = cn_self c \<and> cn_id c' = cn_id c \<and> (cn_in_flight c' \<longrightarrow> cn_in_flight c) \<and>
     (cn_alive c' \<longrightarrow> cn_alive c) \<and> keeps_flight c c')"

lemma keeps_flight_refl [simp]: "keeps_flight c c"
  by (simp add: keeps_flight_def)

lemma waits_refl [simp]: "waits c w c w"
  by (simp add: waits_def)

lemma waits_trans: "waits c w c' w' \<Longrightarrow> waits c' w' c'' w'' \<Longrightarrow> waits c w c'' w''"
  by (auto simp: waits_def keeps_flight_def)

lemma waits_flush: "flush c w = (c', w') \<Longrightarrow> waits c w c' w'"
  by (auto simp: waits_def keeps_flight_def dest: flush_frames)

lemma waits_queue_response: "queue_response res c w = (c', w') \<Longrightarrow> waits c w c' w'"
  by (auto simp: waits_def keeps_flight_def queue_response_eq)

lemma waits_queue_error: "queue_error st d c w = (c', w') \<Longrightarrow> waits c w c' w'"
  by (auto simp: waits_def keeps_flight_def queue_error_eq)

lemma waits_error_flush: "(case queue_error st d c w of (c, w) \<Rightarrow> flush c w) = (c', w') \<Longrightarrow> waits c w c' w'"
  by (auto intro: waits_trans waits_flush waits_queue_error split: prod.splits)

lemma waits_kill [simp]: "waits c w (conn_kill c) w"
  by (simp add: waits_def keeps_flight_def conn_kill_def)

lemma waits_read_iter:
  assumes "read_iter cfg c w = (ctl, c', w')"
  shows "waits c w c' w'"
  using assms
proof (cases rule: read_iterE)
  case (big bs v)
  have "waits c w (c\<lparr>cn_in := bb_append bs (cn_in c), cn_last_activity := fst (clock_now v)\<rparr>) (snd (clock_now v))"
    using sys_recv_frames [OF big(2)] by (simp add: waits_def keeps_flight_def)
  with waits_error_flush [OF big(5)] show ?thesis by (rule waits_trans [rotated])
qed (auto simp: waits_def keeps_flight_def conn_kill_def log_io_def dest: sys_recv_frames)

lemma waits_read_loop: "read_loop cfg c w = (ctl, c', w') \<Longrightarrow> waits c w c' w'"
  by (rule read_rule [where I = "waits c w"]) (auto intro: waits_trans waits_read_iter)

lemma waits_hands_over: "waits c w c' w' \<Longrightarrow> hands_over cfg c w c' w'"
  by (simp add: waits_def keeps_flight_def hands_over_def)

lemma hands_over_after: "waits c w c' w' \<Longrightarrow> hands_over cfg c' w' c'' w'' \<Longrightarrow> \<not> cn_in_flight c \<Longrightarrow> hands_over cfg c w c'' w''"
  by (auto simp: waits_def keeps_flight_def hands_over_def)

lemma submitE:
  assumes "submit req c w = (c', w')"
  obtains (full) "w_pool w' = w_pool w" "\<not> cn_in_flight c'"
  | (queued) "c' = c" "w_pool w' = (w_pool w)\<lparr>tp_queue := tp_queue (w_pool w) @
       [\<lparr>jb_conn = cn_self c, jb_cid = cn_id c, jb_seq = cn_inflight_seq c, jb_req = req\<rparr>]\<rparr>"
proof (cases "tp_stopping (w_pool w) \<or> tp_threads (w_pool w) = [] \<or> tp_max_queue (w_pool w) \<le> length (tp_queue (w_pool w))")
  case True
  with assms(1) have "w_pool w' = w_pool w" "\<not> cn_in_flight c'"
    by (auto simp: submit_eq try_submit_def queue_error_eq split: if_splits)
  with full show ?thesis .
next
  case False
  with assms(1) have "c' = c" "w_pool w' = (w_pool w)\<lparr>tp_queue := tp_queue (w_pool w) @
       [\<lparr>jb_conn = cn_self c, jb_cid = cn_id c, jb_seq = cn_inflight_seq c, jb_req = req\<rparr>]\<rparr>"
    by (auto simp: submit_eq try_submit_def)
  with queued show ?thesis .
qed

lemma request_ok_peer [simp]: "request_ok l (r\<lparr>rq_peer := p\<rparr>) = request_ok l r"
  by (simp add: request_ok_def line_ok_def target_ok_def)

lemma hands_over_drain_iter:
  assumes inv: "conn_inv cfg c" "cn_alive c" "\<not> cn_close_after c" "\<not> cn_in_flight c"
    and it: "drain_iter cfg c w = (again, c', w')"
  shows "if again then waits c w c' w' else hands_over cfg c w c' w'"
  using it
proof (cases rule: drain_iterE)
  case (expect r)
  from waits_flush [OF expect(4)] expect(3) show ?thesis by (simp add: waits_def keeps_flight_def)
next
  case (refused r status detail v)
  from waits_error_flush [OF refused(5)] refused(3,4) show ?thesis
    by (auto simp: hands_over_def waits_def keeps_flight_def log_bad_request_def split: if_splits)
next
  case (request r d v)
  have "request_ok (limits_of cfg) (pr_out r)"
    using inv parse_reading_ok [OF _ request(1), of cfg] request(2) by (simp add: conn_inv_def)
  then have ok: "request_ok (limits_of cfg) ((pr_out r)\<lparr>rq_peer := cn_peer c\<rparr>)" by simp
  from request(6) show ?thesis
  proof (cases rule: submitE)
    case full
    with request(3,5) inv show ?thesis by (simp add: hands_over_def keeps_flight_def)
  next
    case queued
    let ?j = "\<lparr>jb_conn = cn_self d, jb_cid = cn_id d, jb_seq = cn_inflight_seq d, jb_req = (pr_out r)\<lparr>rq_peer := cn_peer c\<rparr>\<rparr>"
    have "w_pool w' = (w_pool w)\<lparr>tp_queue := tp_queue (w_pool w) @ [?j]\<rparr>" using queued request(5) by simp
    with ok inv request(3,4) queued(1) show ?thesis unfolding hands_over_def
      by (simp only: if_False) (intro disjI2 exI [of _ ?j], simp)
  qed
qed (simp add: hands_over_def keeps_flight_def)

lemma hands_over_drain_requests:
  assumes inv: "conn_inv cfg c" "\<not> cn_in_flight c" and dr: "drain_requests cfg c w = (c', w')"
  shows "hands_over cfg c w c' w'"
proof (rule drain_rule [where I = "\<lambda>d v. conn_inv cfg d \<and> waits c w d v" and Q = "hands_over cfg c w", OF _ _ _ dr])
  fix d v assume I: "conn_inv cfg d \<and> waits c w d v" and "cn_alive d" "\<not> cn_in_flight d" "\<not> cn_close_after d"
  then have "conn_inv cfg d' \<and> (if again then waits d v d' v' else hands_over cfg d v d' v')"
    if "drain_iter cfg d v = (again, d', v')" for again d' v'
    using that hands_over_drain_iter [of cfg d v] conn_ok_drain_iter [of cfg d v] by (blast dest: conn_okD)
  with I inv(2) show "case drain_iter cfg d v of (again, d', v') \<Rightarrow>
      if again then conn_inv cfg d' \<and> waits c w d' v' else hands_over cfg c w d' v'"
    by (auto intro: waits_trans hands_over_after split: prod.splits if_splits)
qed (use inv in \<open>auto intro: waits_hands_over\<close>)

lemma hands_over_on_readable:
  assumes inv: "conn_inv cfg c" and step: "on_readable cfg c w = (c', w')"
  shows "hands_over cfg c w c' w'"
proof (cases "cn_alive c \<and> want_read cfg c")
  case True
  obtain ctl d v where l: "read_loop cfg c w = (ctl, d, v)" by (metis prod_cases3)
  note ws = waits_read_loop [OF l]
  have nf: "\<not> cn_in_flight c" using want_readD True by blast
  show ?thesis
  proof (cases "ctl = ReadReturn")
    case True
    with ws l step \<open>cn_alive c \<and> want_read cfg c\<close> show ?thesis by (simp add: on_readable_def waits_hands_over)
  next
    case False
    obtain e u where q: "drain_requests cfg d v = (e, u)" by fastforce
    have "hands_over cfg d v e u"
      using hands_over_drain_requests [OF conn_okD [OF conn_ok_read_loop [OF inv l]] _ q] ws nf by (simp add: waits_def keeps_flight_def)
    from hands_over_after [OF ws this nf] have "hands_over cfg c w e u" .
    moreover from False step l q True have "(c', w') = (if cn_peer_eof e \<and> \<not> cn_in_flight e \<and> bb_empty (cn_out e)
        then e\<lparr>cn_close_after := True\<rparr> else e, u)" by (simp add: on_readable_def)
    ultimately show ?thesis by (auto simp: hands_over_def keeps_flight_def split: if_splits)
  qed
qed (use step in \<open>auto simp: on_readable_def hands_over_def\<close>)

lemma waits_on_tick:
  assumes "on_tick oob cfg now c w = (c', w')"
  shows "waits c w c' w'"
proof -
  let ?v = "w\<lparr>w_timeouts := w_timeouts w + 1\<rparr>"
  let ?e = "case queue_error 408 ''no request within the idle timeout'' c ?v of (d, v) \<Rightarrow> flush d v"
  have "waits c w c' w' \<or> ?e = (c', w')"
    using assms by (auto simp: on_tick_def Let_def waits_def keeps_flight_def conn_kill_def log_io_def split: if_splits)
  moreover have "waits c w c' w'" if "?e = (c', w')"
    using waits_error_flush [OF that] by (simp add: waits_def keeps_flight_def)
  ultimately show ?thesis by blast
qed

lemma flush_eof: "flush c w = (c', w') \<Longrightarrow> cn_peer_eof c' = cn_peer_eof c \<and> cn_draining c' = cn_draining c"
  by (rule flush_rule [where I = "\<lambda>d v. cn_peer_eof d = cn_peer_eof c \<and> cn_draining d = cn_draining c"])
     (auto elim!: flush_iterE simp: conn_kill_def)

text \<open>A result that fits ends the request in flight; any other result changes nothing.\<close>

lemma on_worker_result_flight:
  assumes "on_worker_result res seq c w = (c', w')"
  shows "w_pool w' = w_pool w \<and> cn_self c' = cn_self c \<and> cn_id c' = cn_id c \<and> (cn_alive c' \<longrightarrow> cn_alive c) \<and>
    cn_peer_eof c' = cn_peer_eof c \<and>
    (if cn_alive c \<and> cn_in_flight c \<and> seq = cn_inflight_seq c then \<not> cn_in_flight c' else c' = c)"
proof (cases "cn_alive c \<and> cn_in_flight c \<and> seq = cn_inflight_seq c")
  case True
  obtain d v where q: "queue_response res (c\<lparr>cn_in_flight := False\<rparr>) w = (d, v)" by fastforce
  with True assms have f: "flush d v = (c', w')" by (simp add: on_worker_result_def)
  from q have d: "\<not> cn_in_flight d" "cn_self d = cn_self c" "cn_id d = cn_id c" "w_pool v = w_pool w"
    "cn_alive d = cn_alive c" "cn_peer_eof d = cn_peer_eof c"
    by (auto simp: queue_response_eq)
  with True flush_frames [OF f] flush_eof [OF f] show ?thesis by simp
qed (use assms in \<open>auto simp: on_worker_result_def split: if_splits\<close>)

lemma waits_on_hangup: "on_hangup ev c w = (c', w') \<Longrightarrow> waits c w c' w'"
  by (auto simp: on_hangup_def waits_def keeps_flight_def conn_kill_def dest!: waits_flush split: if_splits)

lemma conn_step_waits:
  "e \<noteq> Readable \<Longrightarrow> (\<forall>res seq. e \<noteq> WorkerResult res seq) \<Longrightarrow> conn_step oob cfg e (c, w) = (c', w') \<Longrightarrow> waits c w c' w'"
  by (cases e)
     (auto simp: on_writable_def waits_flush waits_on_tick waits_on_hangup,
      auto simp: waits_def keeps_flight_def begin_draining_def conn_kill_def Let_def)

lemma conn_step_hands_over:
  assumes "conn_inv cfg c" "conn_step oob cfg e (c, w) = (c', w')" "\<forall>res seq. e \<noteq> WorkerResult res seq"
  shows "hands_over cfg c w c' w'"
  using assms conn_step_waits [of e oob cfg c w c' w'] hands_over_on_readable [of cfg c w c' w']
  by (cases "e = Readable") (auto intro: waits_hands_over)

section \<open>End of file and timeouts\<close>

lemma error_flush_eof:
  "(case queue_error st d c w of (c, w) \<Rightarrow> flush c w) = (c', w') \<Longrightarrow> cn_peer_eof c' = cn_peer_eof c"
  by (auto simp: queue_error_eq dest: flush_eof)

text \<open>
  Once the end of the input was seen the connection reads no more, and it does not parse what it has
  already read either: whatever happens, no further request is handed over.
\<close>

lemma conn_step_eof:
  assumes "cn_peer_eof c" "conn_step oob cfg e (c, w) = (c', w')"
  shows "cn_peer_eof c' \<and> w_pool w' = w_pool w"
proof -
  have ws: "waits c w c' w'" if "e \<noteq> Readable" "\<forall>res seq. e \<noteq> WorkerResult res seq"
    using conn_step_waits [OF that assms(2)] .
  show ?thesis
  proof (cases e)
    case Readable
    with assms show ?thesis by (simp add: on_readable_def want_read_def)
  next
    case Writable
    with assms show ?thesis using flush_eof [of c w c' w'] flush_frames [of c w c' w'] by (simp add: on_writable_def)
  next
    case (Hangup ev)
    with ws have "waits c w c' w'" by simp
    with Hangup assms show ?thesis
      by (auto simp: on_hangup_def waits_def keeps_flight_def conn_kill_def dest: flush_eof split: if_splits)
  next
    case (Tick now)
    with ws have "waits c w c' w'" by simp
    moreover from Tick assms have "cn_peer_eof c'"
      by (auto simp: on_tick_def Let_def conn_kill_def dest: error_flush_eof split: if_splits)
    ultimately show ?thesis by (simp add: waits_def)
  next
    case (WorkerResult res seq)
    with assms(2) have "on_worker_result res seq c w = (c', w')" by simp
    from on_worker_result_flight [OF this] assms(1) show ?thesis by (simp only:)
  qed (use assms in \<open>auto simp: begin_draining_def conn_kill_def Let_def\<close>)
qed

lemma conn_run_eof:
  "cn_peer_eof (fst s) \<Longrightarrow>
     cn_peer_eof (fst (fold (conn_step oob cfg) es s)) \<and> w_pool (snd (fold (conn_step oob cfg) es s)) = w_pool (snd s)"
proof (induction es arbitrary: s)
  case (Cons e es)
  obtain c' w' where st: "conn_step oob cfg e s = (c', w')" by fastforce
  with conn_step_eof [of "fst s" oob cfg e "snd s" c' w'] Cons.prems have "cn_peer_eof c' \<and> w_pool w' = w_pool (snd s)" by simp
  with Cons.IH [of "(c', w')"] st show ?case by simp
qed simp

text \<open>
  An idle connection ends: past the timeout, with no request at work, it is answered 408 if nothing
  was queued, and closed outright if the client does not take what is.
\<close>

definition timed_out :: "(double \<Rightarrow> int) \<Rightarrow> config \<Rightarrow> int \<Rightarrow> connection \<Rightarrow> bool" where
  "timed_out oob cfg now c =
     (\<not> double_le_zero (cf_idle_timeout_sec cfg) \<and> now - cn_last_activity c > to_ticks oob (cf_idle_timeout_sec cfg))"

lemma on_tick_ends:
  assumes "conn_inv cfg c" "timed_out oob cfg now c" "\<not> cn_in_flight c"
    and room: "sk_send (w_socks w (cn_fd c)) = map SendRoom ns @ rest" "\<forall>n \<in> set ns. 0 < n"
    and enough: "length (response_out (error_out 408 ''no request within the idle timeout'' c) c w) \<le> sum_list ns"
    and step: "on_tick oob cfg now c w = (c', w')"
  shows "conn_finished c'"
proof -
  let ?v = "w\<lparr>w_timeouts := w_timeouts w + 1\<rparr>"
  let ?q = "queue_error 408 ''no request within the idle timeout'' c ?v"
  consider "conn_finished c'" | "cn_alive c" "bb_view (cn_out c) = []" "(case ?q of (d, v) \<Rightarrow> flush d v) = (c', w')"
    using step assms(2,3)
    by (auto simp: on_tick_def timed_out_def conn_finished_def conn_kill_def Let_def view_simps split: if_splits)
  then show ?thesis
  proof cases
    case 2
    obtain d v where q: "?q = (d, v)" by fastforce
    with 2 have f: "flush d v = (c', w')" by simp
    have "cn_alive d" "cn_close_after d" "\<not> cn_in_flight d" "cn_fd d = cn_fd c" "w_socks v = w_socks w"
      "bb_view (cn_out d) = response_out (error_out 408 ''no request within the idle timeout'' c) c w"
      using q 2 assms(1,3) by (auto simp: queue_error_eq view_simps conn_inv_def response_out_def)
    then have "bb_view (cn_out c') = []" using flush_all_sent [of v d ns rest] room enough f by simp
    with flush_frames [OF f] \<open>cn_close_after d\<close> \<open>\<not> cn_in_flight d\<close> show ?thesis
      by (auto simp: conn_finished_def view_simps)
  qed
qed

text \<open>What arrives beyond the size of one request is refused, however many requests it holds.\<close>

lemma burst_refused:
  assumes inv: "conn_inv cfg c" and want: "want_read cfg c" and rc: "sk_recv (w_socks w (cn_fd c)) = RecvBytes bs # es"
    and len: "length bs \<le> recv_buf_size"
    and big: "ps_consumed (cn_parser c) + length (bb_view (cn_in c)) + length bs > unat (cf_max_request_bytes cfg)"
    and step: "on_readable cfg c w = (c', w')"
  shows "cn_close_after c' \<and> w_pool w' = w_pool w \<and>
    (cn_alive c' \<longrightarrow> wire c' w' = wire c w @ response_out (error_out 413 ''request exceeds the configured limit'' c) c w)"
proof -
  let ?w = "sock_update (cn_fd c) (sk_recv_update (\<lambda>_. es)) w"
  let ?c = "c\<lparr>cn_in := bb_append bs (cn_in c), cn_last_activity := fst (clock_now ?w)\<rparr>"
  let ?q = "queue_error 413 ''request exceeds the configured limit'' ?c (snd (clock_now ?w))"
  have ne: "bs \<noteq> []" using big inv want_readD [OF want] by (auto simp: conn_inv_def reading_ok_def)
  have al: "cn_alive c" using want_readD [OF want] by simp
  have view: "bb_size (bb_append bs (cn_in c)) = length (bb_view (cn_in c)) + length bs"
    using inv by (simp add: conn_inv_def bb_view_append flip: length_bb_view)
  have "read_iter cfg c w = (ReadReturn, case ?q of (d, v) \<Rightarrow> flush d v)"
    using want rc len ne big view
    by (auto simp: read_iter_def sys_recv_def bytes_consumed_def Let_def split: prod.split)
  then have it: "(case ?q of (d, v) \<Rightarrow> flush d v) = (c', w')"
    using step want al by (auto simp: on_readable_def read_loop.simps [of cfg c w] split: prod.splits)
  obtain d v where q: "?q = (d, v)" by fastforce
  with it have f: "flush d v = (c', w')" by simp
  have "wire d v = wire c w @ response_out (error_out 413 ''request exceeds the configured limit'' c) c w"
    "cn_close_after d" "w_pool v = w_pool w"
    using q inv by (auto simp: queue_error_eq wire_def sent_def conn_inv_def view_simps response_out_def error_out_def sock_update_def)
  with flush_wire [OF f] flush_frames [OF f] show ?thesis by simp
qed

end
