(* ===== verification/Fd.thy ===== *)
theory Fd
  imports Http_Prelude
begin

text \<open>
  The owner of a file descriptor, \<^verbatim>\<open>Fd\<close> of \<^verbatim>\<open>src/src/fd.h\<close>, and the descriptor table of the process.
  An \<^verbatim>\<open>Fd\<close> object is its member \<^verbatim>\<open>fd_\<close>, an integer that is negative when it owns nothing.
\<close>

section \<open>The descriptor table\<close>

text \<open>
  The descriptors that are open, and whether \<^verbatim>\<open>close\<close> was ever called on one that was not.  A new
  descriptor is the lowest number that is not open, as POSIX requires.
\<close>

record fd_table =
  ft_open :: "int list"
  ft_bad_close :: bool

definition lowest_unused :: "int list \<Rightarrow> int" where
  "lowest_unused os = int (length (takeWhile (\<lambda>n. int n \<in> set os) [0..<Suc (length os)]))"

definition sys_open :: "fd_table \<Rightarrow> int \<times> fd_table" where
  "sys_open t = (let fd = lowest_unused (ft_open t) in (fd, t\<lparr>ft_open := fd # ft_open t\<rparr>))"

definition sys_close :: "int \<Rightarrow> fd_table \<Rightarrow> fd_table" where
  "sys_close fd t =
     (if fd \<in> set (ft_open t) then t\<lparr>ft_open := removeAll fd (ft_open t)\<rparr> else t\<lparr>ft_bad_close := True\<rparr>)"

text \<open>There are more candidates than open descriptors, so one is free.\<close>

lemma lowest_unused_fresh: "lowest_unused os \<notin> set os"
proof -
  let ?P = "\<lambda>n. int n \<in> set os" and ?xs = "[0..<Suc (length os)]"
  let ?k = "length (takeWhile ?P ?xs)"
  have "\<exists>n \<in> set ?xs. \<not> ?P n"
  proof (rule ccontr)
    assume "\<not> (\<exists>n \<in> set ?xs. \<not> ?P n)"
    then have "int ` set ?xs \<subseteq> set os" by auto
    then have "card (int ` set ?xs) \<le> card (set os)" by (intro card_mono) auto
    moreover have "card (int ` set ?xs) = Suc (length os)" by (subst card_image) auto
    ultimately show False using card_length [of os] by simp
  qed
  then have "?k < length ?xs"
    by (metis length_takeWhile_le nat_less_le takeWhile_eq_all_conv takeWhile_eq_take take_all order_refl)
  with nth_length_takeWhile [of ?P ?xs] have "\<not> ?P (?xs ! ?k)" by blast
  with \<open>?k < length ?xs\<close> show ?thesis by (simp add: lowest_unused_def del: upt_Suc)
qed

lemma lowest_unused_nonneg: "0 \<le> lowest_unused os"
  by (simp add: lowest_unused_def)

section \<open>The owner\<close>

definition fd_default :: int where
  "fd_default = - 1"

definition fd_get :: "int \<Rightarrow> int" where
  "fd_get fd = fd"

definition fd_valid :: "int \<Rightarrow> bool" where
  "fd_valid fd = (fd \<ge> 0)"

text \<open>\<^verbatim>\<open>reset\<close>, which is also the destructor.\<close>

definition fd_reset :: "int \<Rightarrow> fd_table \<Rightarrow> int \<times> fd_table" where
  "fd_reset fd t = (if fd \<ge> 0 then (- 1, sys_close fd t) else (fd, t))"

definition fd_release :: "int \<Rightarrow> int \<times> int" where
  "fd_release fd = (fd, - 1)"

text \<open>Move construction: the new owner, and what is left in the old one.\<close>

definition fd_move :: "int \<Rightarrow> int \<times> int" where
  "fd_move other = (other, - 1)"

text \<open>
  Objects in variables \<open>v\<close>.  Move assignment \<open>v = std::move(v')\<close>, with the test for self-assignment.
\<close>

type_synonym fd_store = "nat \<Rightarrow> int"

definition fd_move_assign :: "nat \<Rightarrow> nat \<Rightarrow> fd_store \<Rightarrow> fd_table \<Rightarrow> fd_store \<times> fd_table" where
  "fd_move_assign v v' s t =
     (if v \<noteq> v'
      then let (x, t) = fd_reset (s v) t; s = s(v := x); s = s(v := s v'); s = s(v' := - 1) in (s, t)
      else (s, t))"

section \<open>One owner, one close\<close>

text \<open>What a program may do with the objects of its variables.\<close>

datatype fd_op = FdOpen nat | FdMove nat nat | FdReset nat | FdDrop nat

text \<open>
  \<open>FdOpen v\<close> is \<^verbatim>\<open>v = Fd(open(...))\<close>: a temporary owner that is moved into the variable.  \<open>FdDrop v\<close>
  gives the descriptor up for good, as the event loop does with its wake descriptor.
\<close>

fun fd_step :: "fd_op \<Rightarrow> fd_store \<times> fd_table \<Rightarrow> fd_store \<times> fd_table" where
  "fd_step (FdOpen v) (s, t) =
     (let (fd, t) = sys_open t; (x, t) = fd_reset (s v) t in (s(v := fd), t))"
| "fd_step (FdMove v v') (s, t) = fd_move_assign v v' s t"
| "fd_step (FdReset v) (s, t) = (let (x, t) = fd_reset (s v) t in (s(v := x), t))"
| "fd_step (FdDrop v) (s, t) = (s(v := snd (fd_release (s v))), t)"

text \<open>No two variables own the same descriptor, every owned descriptor is open, no close was wrong.\<close>

definition owned_once :: "fd_store \<times> fd_table \<Rightarrow> bool" where
  "owned_once st = (case st of (s, t) \<Rightarrow>
     (\<forall>v. s v \<ge> 0 \<longrightarrow> s v \<in> set (ft_open t)) \<and>
     (\<forall>v v'. s v \<ge> 0 \<and> s v = s v' \<longrightarrow> v = v') \<and> \<not> ft_bad_close t)"

lemma owned_once_reset:
  assumes "owned_once (s, t)"
  shows "owned_once (s(v := - 1), snd (fd_reset (s v) t))"
  using assms unfolding owned_once_def fd_reset_def sys_close_def by (auto split: if_splits)

lemma owned_once_move:
  "owned_once (s, t) \<Longrightarrow> s v < 0 \<Longrightarrow> v \<noteq> v' \<Longrightarrow> owned_once (s(v := s v', v' := - 1), t)"
  unfolding owned_once_def by (simp split: prod.splits) metis

lemma owned_once_give:
  assumes "owned_once (s, t)" "s v < 0" "fd \<in> set (ft_open t)" "\<And>u. s u \<noteq> fd"
  shows "owned_once (s(v := fd), t)"
proof -
  have 1: "\<forall>u. 0 \<le> (s(v := fd)) u \<longrightarrow> (s(v := fd)) u \<in> set (ft_open t)" using assms by (simp add: owned_once_def)
  have 2: "u = u'" if "0 \<le> (s(v := fd)) u" "(s(v := fd)) u = (s(v := fd)) u'" for u u'
    using that assms(1) assms(4) [of u] assms(4) [of u'] by (auto simp: owned_once_def split: if_splits)
  from 1 2 assms(1) show ?thesis unfolding owned_once_def by blast
qed

lemma fd_reset_empty: "fst (fd_reset fd t) < 0"
  by (simp add: fd_reset_def)

lemma owned_once_reset_any:
  assumes "owned_once (s, t)"
  shows "owned_once (s(v := fst (fd_reset (s v) t)), snd (fd_reset (s v) t))"
  using owned_once_reset [OF assms, of v] assms by (cases "s v \<ge> 0") (auto simp: fd_reset_def)

lemma owned_once_step: "owned_once st \<Longrightarrow> owned_once (fd_step oper st)"
proof (cases st)
  case (Pair s t)
  moreover assume "owned_once st"
  ultimately have inv: "owned_once (s, t)" by simp
  show ?thesis
  proof (cases oper)
    case (FdOpen v)
    let ?fd = "lowest_unused (ft_open t)" and ?t = "t\<lparr>ft_open := lowest_unused (ft_open t) # ft_open t\<rparr>"
    have "owned_once (s, ?t)" using inv by (auto simp: owned_once_def)
    then have r: "owned_once (s(v := - 1), snd (fd_reset (s v) ?t))" by (rule owned_once_reset)
    have ne: "?fd \<noteq> s u" if "0 \<le> s u" for u using inv that lowest_unused_fresh [of "ft_open t"] by (auto simp: owned_once_def)
    have "?fd \<in> set (ft_open (snd (fd_reset (s v) ?t)))"
      using ne [of v] by (auto simp: fd_reset_def sys_close_def)
    then have "owned_once ((s(v := - 1))(v := ?fd), snd (fd_reset (s v) ?t))"
    proof (intro owned_once_give [OF r])
      show "(s(v := - 1)) u \<noteq> ?fd" for u using ne [of u] lowest_unused_nonneg [of "ft_open t"] by (cases "s u \<ge> 0") auto
    qed simp_all
    then show ?thesis by (auto simp: Pair FdOpen sys_open_def Let_def split: prod.splits)
  next
    case (FdMove v v')
    show ?thesis
    proof (cases "v = v'")
      case False
      from owned_once_move [OF owned_once_reset_any [OF inv, of v], of v v'] False fd_reset_empty
      have "owned_once ((s(v := fst (fd_reset (s v) t)))(v := s v', v' := - 1), snd (fd_reset (s v) t))" by simp
      with False show ?thesis by (auto simp: Pair FdMove fd_move_assign_def Let_def split: prod.splits)
    qed (use inv in \<open>simp add: Pair FdMove fd_move_assign_def\<close>)
  next
    case (FdReset v)
    with owned_once_reset_any [OF inv, of v] show ?thesis by (auto simp: Pair split: prod.splits)
  next
    case (FdDrop v)
    with inv show ?thesis by (auto simp: Pair owned_once_def fd_release_def)
  qed
qed

text \<open>
  Whatever is done with the owners, \<^verbatim>\<open>close\<close> is called only on descriptors that are open and owned,
  and after \<^verbatim>\<open>reset\<close> the owner is empty, so that a second \<^verbatim>\<open>reset\<close> does nothing.
\<close>

lemma owned_once_run: "owned_once st \<Longrightarrow> owned_once (fold fd_step ops st)"
  by (induction ops arbitrary: st) (simp_all add: owned_once_step)

lemma fd_reset_idem: "fd_reset (fst (fd_reset fd t)) (snd (fd_reset fd t)) = fd_reset fd t"
  by (simp add: fd_reset_def)

end
