(* ===== verification/Event_Loop.thy ===== *)
theory Event_Loop
  imports Connection_Props Fd
begin

unbundle bit_operations_syntax

text \<open>
  The event loop: the class \<^verbatim>\<open>EventLoop\<close> of \<^verbatim>\<open>src/src/event_loop.h\<close> and \<^verbatim>\<open>src/src/event_loop.cpp\<close>.
  Its members are the record \<open>loop\<close>, with the part of the kernel it talks to: the descriptor table,
  the epoll interest list, the eventfd counter, and scripts of what the system calls will return.  A
  script that is used up stands for a call that succeeds, or for \<^verbatim>\<open>EAGAIN\<close> where there is nothing to
  accept or to read.

  A \<^verbatim>\<open>Connection\<close> lives in an object store under a number that is never used twice.  The shared
  pointers to it are those of \<^verbatim>\<open>conns_\<close> and \<^verbatim>\<open>rescan_\<close> (and of the callback that is running); the weak
  pointer of a job or a completion is its number, and \<^verbatim>\<open>lock()\<close> succeeds while a shared pointer exists.
  \<^verbatim>\<open>conns_\<close> is listed in the order of its iteration, which C++ leaves open; a new entry goes to the end.
\<close>

section \<open>State\<close>

definition ENOENT :: int where "ENOENT = 2"
definition EBADF :: int where "EBADF = 9"
definition ENFILE :: int where "ENFILE = 23"
definition EMFILE :: int where "EMFILE = 24"
definition ECONNABORTED :: int where "ECONNABORTED = 103"
definition SIGINT :: int where "SIGINT = 2"
definition SIGTERM :: int where "SIGTERM = 15"

definition kMaxEvents :: nat where "kMaxEvents = 1024"
definition kAcceptBatch :: nat where "kAcceptBatch = 256"

text \<open>
  What \<^verbatim>\<open>accept4\<close> gives: a connection, with the script of its socket and what \<^verbatim>\<open>getnameinfo\<close> says of
  the peer, or an error.  What a read of the signal descriptor gives.
\<close>

datatype accept_event = Accept sock int bool bytes bytes | AcceptErr int
datatype signal_event = SignalRead int | SignalErr int

record loop =
  lp_cfg :: config
  lp_epfd :: int
  lp_listen :: int
  lp_wake :: int
  lp_sig :: int
  lp_conns :: "(int \<times> nat) list"
  lp_reap :: "int list"
  lp_rescan :: "nat list"
  lp_completions :: "completion list"
  lp_shutdown_requested :: bool
  lp_second_signal :: bool
  lp_draining :: bool
  lp_forced_shutdown :: bool
  lp_accept_retry :: bool
  lp_exit_code :: int
  lp_bound_port :: u16
  lp_drain_deadline :: int
  lp_last_tick :: int
  lp_accepted :: u64
  lp_rejected_connections :: u64
  lp_next_conn_id :: u64
  \<comment> \<open>the object store, the world of the connections and the jobs that workers are running\<close>
  lp_objs :: "nat \<Rightarrow> connection"
  lp_next_obj :: nat
  lp_world :: world
  lp_running :: "job list"
  \<comment> \<open>the kernel\<close>
  lp_fds :: fd_table
  lp_epoll :: "int \<Rightarrow> u32 option"
  lp_counter :: u64
  lp_results :: "int list"
  lp_accept :: "accept_event list"
  lp_signals :: "signal_event list"
  lp_wake_errs :: "int list"
  lp_ephemeral :: u16
  lp_files :: "bytes \<Rightarrow> bytes option"

definition next_connection_id :: "loop \<Rightarrow> u64 \<times> loop" where
  "next_connection_id l = (lp_next_conn_id l + 1, l\<lparr>lp_next_conn_id := lp_next_conn_id l + 1\<rparr>)"

definition connection_count :: "loop \<Rightarrow> nat" where
  "connection_count l = length (lp_conns l)"

section \<open>System calls and the log\<close>

text \<open>A call that returns an error number, 0 for success.\<close>

definition sys_result :: "loop \<Rightarrow> int \<times> loop" where
  "sys_result l = (case lp_results l of [] \<Rightarrow> (0, l) | r # rs \<Rightarrow> (r, l\<lparr>lp_results := rs\<rparr>))"

text \<open>A call that returns a new descriptor: an error number, or the descriptor.\<close>

definition sys_new_fd :: "loop \<Rightarrow> (int + int) \<times> loop" where
  "sys_new_fd l =
     (case sys_result l of (r, l) \<Rightarrow>
        if r \<noteq> 0 then (Inl r, l)
        else case sys_open (lp_fds l) of (fd, t) \<Rightarrow> (Inr fd, l\<lparr>lp_fds := t\<rparr>))"

text \<open>Closing a descriptor takes it out of the interest list as well.\<close>

definition loop_close :: "int \<Rightarrow> loop \<Rightarrow> loop" where
  "loop_close fd l = l\<lparr>lp_fds := sys_close fd (lp_fds l), lp_epoll := (lp_epoll l)(fd := None)\<rparr>"

definition epoll_add :: "int \<Rightarrow> u32 \<Rightarrow> loop \<Rightarrow> int \<times> loop" where
  "epoll_add fd msk l =
     (case sys_result l of (r, l) \<Rightarrow> (r, if r = 0 then l\<lparr>lp_epoll := (lp_epoll l)(fd \<mapsto> msk)\<rparr> else l))"

definition epoll_mod :: "int \<Rightarrow> u32 \<Rightarrow> loop \<Rightarrow> int \<times> loop" where
  "epoll_mod fd msk l =
     (case sys_result l of (r, l) \<Rightarrow> (r, if r = 0 then l\<lparr>lp_epoll := (lp_epoll l)(fd \<mapsto> msk)\<rparr> else l))"

definition epoll_del :: "int \<Rightarrow> loop \<Rightarrow> int \<times> loop" where
  "epoll_del fd l =
     (case sys_result l of (r, l) \<Rightarrow> (r, if r = 0 then l\<lparr>lp_epoll := (lp_epoll l)(fd := None)\<rparr> else l))"

definition note_io :: "bytes \<Rightarrow> bytes \<Rightarrow> int \<Rightarrow> loop \<Rightarrow> loop" where
  "note_io what peer err l = l\<lparr>lp_world := log_io what peer err (lp_world l)\<rparr>"

definition log_note :: "log_entry \<Rightarrow> loop \<Rightarrow> loop" where
  "log_note e l = l\<lparr>lp_world := (lp_world l)\<lparr>w_log := w_log (lp_world l) @ [e]\<rparr>\<rparr>"

definition log_stats :: "loop \<Rightarrow> loop" where
  "log_stats l = (let w = lp_world l in
     log_note (LogStats (lp_accepted l) (w_requests_received w) (w_timeouts w) (w_overload_rejections w)
       (lp_rejected_connections l) (length (lp_conns l))) l)"

definition loop_now :: "loop \<Rightarrow> int \<times> loop" where
  "loop_now l = (case clock_now (lp_world l) of (t, w) \<Rightarrow> (t, l\<lparr>lp_world := w\<rparr>))"

text \<open>A call that is only logged when it fails.\<close>

definition sys_logged :: "bytes \<Rightarrow> bytes \<Rightarrow> loop \<Rightarrow> loop" where
  "sys_logged what peer l = (case sys_result l of (r, l) \<Rightarrow> if r \<noteq> 0 then note_io what peer r l else l)"

section \<open>Setup\<close>

text \<open>Assigning a fresh owner to a member closes what the member owned before.\<close>

definition assign_fd :: "((int \<Rightarrow> int) \<Rightarrow> loop \<Rightarrow> loop) \<Rightarrow> int \<Rightarrow> int \<Rightarrow> loop \<Rightarrow> loop" where
  "assign_fd upd old fd l = upd (\<lambda>_. fd) (if old \<ge> 0 then loop_close old l else l)"

definition setup_wake :: "loop \<Rightarrow> bool \<times> loop" where
  "setup_wake l =
     (case sys_new_fd l of
        (Inl e, l) \<Rightarrow> (False, note_io ''eventfd'' ''startup'' e l)
      | (Inr fd, l) \<Rightarrow>
          let l = assign_fd lp_wake_update (lp_wake l) fd l; (r, l) = epoll_add fd EPOLLIN l
          in if r \<noteq> 0 then (False, note_io ''epoll_ctl ADD wake'' ''startup'' r l) else (True, l))"

definition setup_signals :: "loop \<Rightarrow> bool \<times> loop" where
  "setup_signals l =
     (case sys_new_fd l of
        (Inl e, l) \<Rightarrow> (False, note_io ''signalfd'' ''startup'' e l)
      | (Inr fd, l) \<Rightarrow>
          let l = assign_fd lp_sig_update (lp_sig l) fd l; (r, l) = epoll_add fd (EPOLLIN OR EPOLLET) l
          in if r \<noteq> 0 then (False, note_io ''epoll_ctl ADD signal'' ''startup'' r l) else (True, l))"

text \<open>
  \<^verbatim>\<open>write_port_file\<close>: a result of the \<^verbatim>\<open>write\<close> call below 0 is a short write of that many bytes.
\<close>

definition write_port_file :: "u16 \<Rightarrow> loop \<Rightarrow> loop" where
  "write_port_file port l =
     (let path = cf_port_file (lp_cfg l); tmp = path @ ''.tmp''
      in case sys_new_fd l of
           (Inl e, l) \<Rightarrow> note_io ''open port file'' path e l
         | (Inr fd, l) \<Rightarrow>
             let text = show_nat (unat port) @ [LF]; (rc, l) = sys_result l;
                 content = (if rc = 0 then text else if rc < 0 then take (nat (- rc)) text else []);
                 l = loop_close fd (l\<lparr>lp_files := (lp_files l)(tmp \<mapsto> content)\<rparr>)
             in if rc \<noteq> 0 then note_io ''write port file'' path rc l
                else let (r, l) = sys_result l
                     in if r \<noteq> 0 then note_io ''rename port file'' path r l
                        else l\<lparr>lp_files := (lp_files l)(path := lp_files l tmp, tmp := None)\<rparr>)"

text \<open>The part of \<^verbatim>\<open>setup_listener\<close> after the socket exists; \<open>pton\<close> is 0 when the address is valid.\<close>

definition listener_bind :: "bool \<Rightarrow> int \<Rightarrow> loop \<Rightarrow> bool \<times> loop" where
  "listener_bind want_v6 fd l =
     (let bind_to = cf_bind (lp_cfg l); (pton, l) = sys_result l
      in if pton \<noteq> 0
         then (False, loop_close fd (log_note (LogNote (if want_v6 then ''invalid IPv6 bind address''
                 else ''invalid IPv4 bind address (use dotted-quad)'')) l))
         else let (r, l) = sys_result l
              in if r \<noteq> 0 then (False, loop_close fd (note_io ''bind'' bind_to r l))
                 else let (r, l) = sys_result l
                      in if r \<noteq> 0 then (False, loop_close fd (note_io ''listen'' bind_to r l)) else (True, l))"

definition setup_listener :: "loop \<Rightarrow> bool \<times> loop" where
  "setup_listener l =
     (let bind_to = cf_bind (lp_cfg l); want_v6 = (CHR '':'' \<in> set bind_to)
      in case sys_new_fd l of
           (Inl e, l) \<Rightarrow> (False, note_io ''socket'' bind_to e l)
         | (Inr fd, l) \<Rightarrow>
             let l = sys_logged ''setsockopt SO_REUSEADDR'' bind_to l;
                 l = (if want_v6 then sys_logged ''setsockopt IPV6_V6ONLY (staying dual-stack)'' bind_to l else l);
                 (bound, l) = listener_bind want_v6 fd l
             in if \<not> bound then (False, l)
                else let (r, l) = sys_result l;
                         port = (if cf_port (lp_cfg l) = 0 then lp_ephemeral l else cf_port (lp_cfg l));
                         l = (if r = 0 then l\<lparr>lp_bound_port := port\<rparr> else l);
                         (r, l) = epoll_add fd (EPOLLIN OR EPOLLET) l
                     in if r \<noteq> 0 then (False, loop_close fd (note_io ''epoll_ctl ADD listener'' bind_to r l))
                        else let l = assign_fd lp_listen_update (lp_listen l) fd l;
                                 l = (if cf_port_file (lp_cfg l) \<noteq> [] then write_port_file (lp_bound_port l) l else l)
                             in (True, log_note (LogListening bind_to (lp_bound_port l)
                                   (if want_v6 then ''IPv6'' else ''IPv4'')) l))"

section \<open>Between the threads\<close>

text \<open>
  The eventfd counter.  \<open>lp_wake_errs\<close> are the results of the next calls on it, 0 for a call that does
  its work; \<^verbatim>\<open>write\<close> on a full counter and \<^verbatim>\<open>read\<close> on an empty one give \<^verbatim>\<open>EAGAIN\<close>.
\<close>

definition counter_up :: "u64 \<Rightarrow> u64" where
  "counter_up n = (if n < - 2 then n + 1 else n)"

fun wake_loop :: "int list \<Rightarrow> loop \<Rightarrow> loop" where
  "wake_loop [] l = l\<lparr>lp_wake_errs := [], lp_counter := counter_up (lp_counter l)\<rparr>"
| "wake_loop (e # es) l =
     (if e = 0 then l\<lparr>lp_wake_errs := es, lp_counter := counter_up (lp_counter l)\<rparr>
      else if e = EINTR then wake_loop es l else l\<lparr>lp_wake_errs := es\<rparr>)"

definition wake :: "loop \<Rightarrow> loop" where
  "wake l = wake_loop (lp_wake_errs l) l"

definition post_completion :: "completion \<Rightarrow> loop \<Rightarrow> loop" where
  "post_completion cm l = wake (l\<lparr>lp_completions := lp_completions l @ [cm]\<rparr>)"

fun drain_wake_loop :: "int list \<Rightarrow> loop \<Rightarrow> loop" where
  "drain_wake_loop [] l = l\<lparr>lp_wake_errs := [], lp_counter := 0\<rparr>"
| "drain_wake_loop (e # es) l =
     (if e = 0 then if lp_counter l = 0 then l\<lparr>lp_wake_errs := es\<rparr> else drain_wake_loop es (l\<lparr>lp_counter := 0\<rparr>)
      else if e = EINTR then drain_wake_loop es l else l\<lparr>lp_wake_errs := es\<rparr>)"

definition drain_wake :: "loop \<Rightarrow> loop" where
  "drain_wake l = drain_wake_loop (lp_wake_errs l) l"

definition completions_pending :: "loop \<Rightarrow> nat" where
  "completions_pending l = length (lp_completions l)"

section \<open>Objects\<close>

text \<open>The objects that a shared pointer owns.\<close>

definition live :: "loop \<Rightarrow> nat \<Rightarrow> bool" where
  "live l oid = (oid \<in> snd ` set (lp_conns l) \<or> oid \<in> set (lp_rescan l))"

definition with_conn :: "nat \<Rightarrow> (connection \<Rightarrow> world \<Rightarrow> connection \<times> world) \<Rightarrow> loop \<Rightarrow> loop" where
  "with_conn oid f l =
     (case f (lp_objs l oid) (lp_world l) of (c, w) \<Rightarrow> l\<lparr>lp_objs := (lp_objs l)(oid := c), lp_world := w\<rparr>)"

text \<open>The destructor of a connection closes its descriptor.\<close>

definition destroy :: "nat \<Rightarrow> loop \<Rightarrow> loop" where
  "destroy oid l = loop_close (cn_fd (lp_objs l oid)) l"

section \<open>Interest\<close>

definition set_interest :: "nat \<Rightarrow> loop \<Rightarrow> loop" where
  "set_interest oid l =
     (let c = lp_objs l oid; want = interest_mask (lp_cfg l) c; have_mask = cn_applied_mask c
      in if \<not> cn_alive c then l
         else if want = have_mask then l
         else case epoll_mod (cn_fd c) want l of (r, l) \<Rightarrow>
           if r \<noteq> 0
           then if r = ENOENT \<or> r = EBADF then l\<lparr>lp_reap := lp_reap l @ [cn_fd c]\<rparr>
                else note_io ''epoll_ctl MOD'' (cn_peer c) r l
           else let l = l\<lparr>lp_objs := (lp_objs l)(oid := c\<lparr>cn_applied_mask := want\<rparr>)\<rparr>
                in if want AND EPOLLIN \<noteq> 0 \<and> have_mask AND EPOLLIN = 0
                   then l\<lparr>lp_rescan := lp_rescan l @ [oid]\<rparr> else l)"

text \<open>What follows every callback: the connection is to be reaped, or its interest is renewed.\<close>

definition after_callback :: "nat \<Rightarrow> loop \<Rightarrow> loop" where
  "after_callback oid l =
     (let c = lp_objs l oid
      in if \<not> cn_alive c \<or> conn_finished c then l\<lparr>lp_reap := lp_reap l @ [cn_fd c]\<rparr> else set_interest oid l)"

definition deliver :: "completion \<Rightarrow> loop \<Rightarrow> loop" where
  "deliver cm l =
     (if \<not> live l (cm_conn cm) then l
      else if cn_id (lp_objs l (cm_conn cm)) \<noteq> cm_conn_id cm then l
      else after_callback (cm_conn cm) (with_conn (cm_conn cm) (on_worker_result (cm_response cm) (cm_seq cm)) l))"

definition drain_completions :: "loop \<Rightarrow> loop" where
  "drain_completions l = fold deliver (lp_completions l) (l\<lparr>lp_completions := []\<rparr>)"

definition rescan_one :: "nat \<Rightarrow> loop \<Rightarrow> loop" where
  "rescan_one oid l =
     (let c = lp_objs l oid
      in if \<not> cn_alive c \<or> \<not> want_read (lp_cfg l) c then l
         else after_callback oid (with_conn oid (on_readable (lp_cfg l)) l))"

text \<open>The end of \<^verbatim>\<open>process_rescans\<close>: its pointers go, and with them the objects nobody else owns.\<close>

definition drop_refs :: "nat list \<Rightarrow> loop \<Rightarrow> loop" where
  "drop_refs oids l = fold destroy (filter (\<lambda>oid. \<not> live l oid) (remdups oids)) l"

definition process_rescans :: "loop \<Rightarrow> loop" where
  "process_rescans l =
     (let pending = lp_rescan l in drop_refs pending (fold rescan_one pending (l\<lparr>lp_rescan := []\<rparr>)))"

definition reap_one :: "int \<Rightarrow> loop \<Rightarrow> loop" where
  "reap_one fd l =
     (case map_of (lp_conns l) fd of
        None \<Rightarrow> l
      | Some oid \<Rightarrow>
          let c = lp_objs l oid; (r, l) = epoll_del fd l;
              l = (if r \<noteq> 0 \<and> r \<noteq> ENOENT \<and> r \<noteq> EBADF then note_io ''epoll_ctl DEL'' (cn_peer c) r l else l);
              l = (if cf_verbose (lp_cfg l) then log_note (LogClosing (cn_peer c) (cn_served c)) l else l);
              l = l\<lparr>lp_conns := filter (\<lambda>e. fst e \<noteq> fd) (lp_conns l)\<rparr>
          in if live l oid then l else destroy oid l)"

definition reap :: "loop \<Rightarrow> loop" where
  "reap l = (if lp_reap l = [] then l else (fold reap_one (lp_reap l) l)\<lparr>lp_reap := []\<rparr>)"

section \<open>Accepting\<close>

primrec reject_send :: "nat \<Rightarrow> int \<Rightarrow> bytes \<Rightarrow> world \<Rightarrow> world" where
  "reject_send 0 fd out w = w"
| "reject_send (Suc tries) fd out w =
     (if out = [] then w
      else case sys_send fd out w of
          (Inr n, w) \<Rightarrow> if n > 0 then reject_send tries fd (drop n out) w else w
        | (Inl e, w) \<Rightarrow> if e = EINTR then reject_send tries fd out w else w)"

definition reject_connection :: "int \<Rightarrow> bytes \<Rightarrow> loop \<Rightarrow> loop" where
  "reject_connection fd reason l =
     (let w = lp_world l; (date, dc) = http_date_now (w_time w) (w_date w);
          out = serialize_response date (make_error_response 503 reason False);
          l = loop_close fd (l\<lparr>lp_world := reject_send 8 fd out (w\<lparr>w_date := dc\<rparr>)\<rparr>)
      in l\<lparr>lp_rejected_connections := lp_rejected_connections l + 1\<rparr>)"

text \<open>
  From the construction of the connection to its place in \<^verbatim>\<open>conns_\<close>; an entry under the same
  descriptor would make \<^verbatim>\<open>emplace\<close> give the new connection up.
\<close>

definition admit :: "int \<Rightarrow> bytes \<Rightarrow> loop \<Rightarrow> loop" where
  "admit fd peer l =
     (let oid = lp_next_obj l; (cid, l) = next_connection_id l; (now, l) = loop_now l;
          c = connection_init oid fd cid peer (lp_cfg l) now;
          mask = interest_mask (lp_cfg l) c;
          l = l\<lparr>lp_next_obj := Suc oid, lp_objs := (lp_objs l)(oid := c)\<rparr>;
          (r, l) = epoll_add fd mask l
      in if r \<noteq> 0 then destroy oid (note_io ''epoll_ctl ADD connection'' peer r l)
         else let l = l\<lparr>lp_objs := (lp_objs l)(oid := c\<lparr>cn_applied_mask := mask\<rparr>)\<rparr>;
                  l = (if map_of (lp_conns l) fd = None then l\<lparr>lp_conns := lp_conns l @ [(fd, oid)]\<rparr> else destroy oid l);
                  l = l\<lparr>lp_accepted := lp_accepted l + 1\<rparr>
              in if cf_verbose (lp_cfg l) then log_note (LogAccepted (length (lp_conns l))) l else l)"

text \<open>A connection that \<^verbatim>\<open>accept4\<close> has returned: options, then rejection or admission.\<close>

definition accepted_fd :: "sock \<Rightarrow> bytes \<Rightarrow> loop \<Rightarrow> loop" where
  "accepted_fd s peer l =
     (let (fd, t) = sys_open (lp_fds l);
          l = l\<lparr>lp_fds := t, lp_world := sock_update fd (\<lambda>_. s) (lp_world l)\<rparr>;
          l = sys_logged ''setsockopt TCP_NODELAY'' ''accepted'' l;
          l = sys_logged ''setsockopt SO_KEEPALIVE'' ''accepted'' l
      in if lp_draining l then reject_connection fd ''server is shutting down'' l
         else if length (lp_conns l) \<ge> unat (cf_max_connections (lp_cfg l))
         then reject_connection fd ''connection limit reached'' l
         else admit fd peer l)"

text \<open>One pass of the loop of \<^verbatim>\<open>accept_batch\<close>: whether to go on.\<close>

definition accept_iter :: "loop \<Rightarrow> bool \<times> loop" where
  "accept_iter l =
     (case lp_accept l of
        [] \<Rightarrow> (False, l)
      | AcceptErr e # es \<Rightarrow>
          let l = l\<lparr>lp_accept := es\<rparr>
          in if e = EINTR then (True, l)
             else if e = EAGAIN then (False, l)
             else if e = EMFILE \<or> e = ENFILE
             then (False, (if lp_accept_retry l then l
                           else note_io ''accept: out of file descriptors, deferring'' ''listener'' e l)
                          \<lparr>lp_accept_retry := True\<rparr>)
             else if e = ECONNABORTED then (True, l)
             else (False, note_io ''accept4'' ''listener'' e l)
      | Accept s rc inet6 host serv # es \<Rightarrow>
          (True, accepted_fd s (format_peer rc inet6 host serv) (l\<lparr>lp_accept := es\<rparr>)))"

primrec accept_loop :: "nat \<Rightarrow> loop \<Rightarrow> loop" where
  "accept_loop 0 l = l\<lparr>lp_accept_retry := True\<rparr>"
| "accept_loop (Suc n) l = (case accept_iter l of (again, l) \<Rightarrow> if again then accept_loop n l else l)"

definition accept_batch :: "loop \<Rightarrow> loop" where
  "accept_batch l = accept_loop kAcceptBatch l"

section \<open>Signals, timers and shutdown\<close>

definition on_signal :: "int \<Rightarrow> loop \<Rightarrow> loop" where
  "on_signal signo l =
     (if signo = SIGINT \<or> signo = SIGTERM
      then if lp_shutdown_requested l
           then log_note (LogNote ''second signal: closing connections immediately'') (l\<lparr>lp_second_signal := True\<rparr>)
           else log_note (LogNote ''shutdown requested: draining'') (l\<lparr>lp_shutdown_requested := True\<rparr>)
      else l)"

fun signal_loop :: "signal_event list \<Rightarrow> loop \<Rightarrow> loop" where
  "signal_loop [] l = l\<lparr>lp_signals := []\<rparr>"
| "signal_loop (SignalRead signo # es) l = signal_loop es (on_signal signo l)"
| "signal_loop (SignalErr e # es) l = (if e = EINTR then signal_loop es l else l\<lparr>lp_signals := es\<rparr>)"

definition handle_signals :: "loop \<Rightarrow> loop" where
  "handle_signals l = signal_loop (lp_signals l) l"

text \<open>The second loop of \<^verbatim>\<open>tick\<close> and of \<^verbatim>\<open>maybe_begin_drain\<close>.\<close>

definition push_finished :: "loop \<Rightarrow> loop" where
  "push_finished l =
     l\<lparr>lp_reap := lp_reap l @ map fst (filter (\<lambda>e. conn_finished (lp_objs l (snd e))) (lp_conns l))\<rparr>"

definition for_conns :: "(connection \<Rightarrow> world \<Rightarrow> connection \<times> world) \<Rightarrow> loop \<Rightarrow> loop" where
  "for_conns f l = fold (\<lambda>oid. with_conn oid f) (map snd (lp_conns l)) l"

definition tick :: "(double \<Rightarrow> int) \<Rightarrow> loop \<Rightarrow> loop" where
  "tick oob l =
     (let (now, l) = loop_now l;
          l = (if lp_accept_retry l then accept_batch (l\<lparr>lp_accept_retry := False\<rparr>) else l);
          l = for_conns (on_tick oob (lp_cfg l) now) l
      in push_finished l)"

definition maybe_begin_drain :: "(double \<Rightarrow> int) \<Rightarrow> loop \<Rightarrow> loop" where
  "maybe_begin_drain oob l =
     (if \<not> lp_shutdown_requested l \<or> lp_draining l then l
      else let (now, l) = loop_now (l\<lparr>lp_draining := True\<rparr>);
               l = l\<lparr>lp_drain_deadline := now + to_ticks oob (cf_shutdown_timeout_sec (lp_cfg l))\<rparr>;
               l = log_note (LogDraining (length (lp_conns l)) (queue_size (w_pool (lp_world l)))
                     (cf_shutdown_timeout_sec (lp_cfg l))) l;
               l = for_conns (\<lambda>c w. (begin_draining c, w)) l
           in push_finished l)"

definition close_all :: "loop \<Rightarrow> loop" where
  "close_all l =
     (let l = for_conns (\<lambda>c w. (conn_kill c, w)) l
      in reap (l\<lparr>lp_reap := lp_reap l @ map fst (lp_conns l)\<rparr>))"

definition shutdown_complete :: "loop \<Rightarrow> bool \<times> loop" where
  "shutdown_complete l =
     (if \<not> lp_draining l then (False, l)
      else if lp_second_signal l then (True, close_all (l\<lparr>lp_forced_shutdown := True\<rparr>))
      else if lp_conns l = [] \<and> queue_size (w_pool (lp_world l)) = 0 \<and> completions_pending l = 0 then (True, l)
      else let (now, l) = loop_now l
           in if now \<ge> lp_drain_deadline l
              then (True, close_all ((log_note (LogForcing (length (lp_conns l))) l)
                       \<lparr>lp_exit_code := 0, lp_forced_shutdown := True\<rparr>))
              else (False, l))"

section \<open>The loop\<close>

text \<open>One ready descriptor.\<close>

definition dispatch :: "int \<times> u32 \<Rightarrow> loop \<Rightarrow> loop" where
  "dispatch e l =
     (let (fd, ev) = e
      in if fd = lp_wake l then drain_wake l
         else if fd = lp_sig l then handle_signals l
         else if fd = lp_listen l then accept_batch l
         else case map_of (lp_conns l) fd of
             None \<Rightarrow> snd (epoll_del fd l)
           | Some oid \<Rightarrow>
               if ev AND (EPOLLERR OR EPOLLHUP) \<noteq> 0
               then after_callback oid (with_conn oid (on_hangup ev) l)
               else let l = (if ev AND EPOLLIN \<noteq> 0 then with_conn oid (on_readable (lp_cfg l)) l else l);
                        l = (if cn_alive (lp_objs l oid) \<and> ev AND EPOLLOUT \<noteq> 0 then with_conn oid on_writable l else l)
                    in after_callback oid l)"

text \<open>What follows the events of one \<^verbatim>\<open>epoll_wait\<close>: whether the loop ends.\<close>

definition after_events :: "(double \<Rightarrow> int) \<Rightarrow> loop \<Rightarrow> bool \<times> loop" where
  "after_events oob l =
     (let l = drain_completions l; l = process_rescans l; l = reap l; l = maybe_begin_drain oob l;
          (now, l) = loop_now l;
          l = (if now - lp_last_tick l \<ge> cf_tick_ms (lp_cfg l) * 1000000
               then reap (tick oob (l\<lparr>lp_last_tick := now\<rparr>)) else l)
      in shutdown_complete l)"

text \<open>
  What the workers do: take the front job of the queue, or finish the \<open>i\<close>-th job that is running (its
  handler returns, or throws).
\<close>

datatype worker_act = WorkerTake | WorkerFinish nat bool

fun work :: "worker_act \<Rightarrow> loop \<Rightarrow> loop" where
  "work WorkerTake l =
     (case run_section (w_pool (lp_world l)) of
        (Take j, p) \<Rightarrow> l\<lparr>lp_world := (lp_world l)\<lparr>w_pool := p\<rparr>, lp_running := lp_running l @ [j]\<rparr>
      | _ \<Rightarrow> l)"
| "work (WorkerFinish i throws) l =
     (if i < length (lp_running l)
      then post_completion (run_job (lp_cfg l) throws (lp_running l ! i))
             (l\<lparr>lp_running := take i (lp_running l) @ drop (Suc i) (lp_running l)\<rparr>)
      else l)"

text \<open>
  The results of \<^verbatim>\<open>epoll_wait\<close>, each with what the workers did before it returned.  \<open>None\<close>: the loop is
  still running when the results given are used up.
\<close>

datatype wait_event = WaitErr int | WaitReady "worker_act list" "(int \<times> u32) list"

fun run_loop :: "(double \<Rightarrow> int) \<Rightarrow> wait_event list \<Rightarrow> loop \<Rightarrow> loop option" where
  "run_loop oob [] l = None"
| "run_loop oob (WaitErr e # ws) l =
     (if e = EINTR then run_loop oob ws l
      else Some ((note_io ''epoll_wait'' ''loop'' e l)\<lparr>lp_exit_code := 1\<rparr>))"
| "run_loop oob (WaitReady acts evs # ws) l =
     (case after_events oob (fold dispatch (take kMaxEvents evs) (fold work acts l)) of (done, l) \<Rightarrow>
        if done then Some l else run_loop oob ws l)"

text \<open>
  \<^verbatim>\<open>pool_.stop()\<close>: when it returns, the workers have finished every job that was running or queued.
\<close>

definition pool_stop :: "loop \<Rightarrow> loop" where
  "pool_stop l =
     (let w = lp_world l; jobs = lp_running l @ tp_queue (w_pool w)
      in case stop_section (w_pool w) of
           None \<Rightarrow> l
         | Some (to_join, p) \<Rightarrow>
             fold (\<lambda>j. post_completion (run_job (lp_cfg l) False j)) jobs
               (l\<lparr>lp_running := [], lp_world := w\<lparr>w_pool := p\<lparr>tp_queue := []\<rparr>\<rparr>\<rparr>))"

text \<open>
  Stopping the workers at the end of \<^verbatim>\<open>run\<close>; \<open>polls\<close> is what the forced stop sees of each thread, and
  \<open>None\<close> means that it saw too little to decide.
\<close>

definition stop_workers :: "(nat \<Rightarrow> (int \<times> int) list) \<Rightarrow> loop \<Rightarrow> loop option" where
  "stop_workers polls l =
     (if lp_forced_shutdown l
      then let (now, l) = loop_now l; (joined, p) = stop_forced now 250 polls (w_pool (lp_world l));
               l = l\<lparr>lp_world := (lp_world l)\<lparr>w_pool := p\<rparr>\<rparr>
           in case joined of
                None \<Rightarrow> None
              | Some j \<Rightarrow>
                  Some (if j then l
                        else (log_note (LogNote ''hard shutdown: detaching worker(s) still running application work'') l)
                               \<lparr>lp_wake := snd (fd_release (lp_wake l))\<rparr>)
      else Some (pool_stop l))"

definition run_end :: "(nat \<Rightarrow> (int \<times> int) list) \<Rightarrow> loop \<Rightarrow> loop option" where
  "run_end polls l =
     (case stop_workers polls l of
        None \<Rightarrow> None
      | Some l \<Rightarrow> Some (log_stats (close_all (l\<lparr>lp_completions := []\<rparr>))))"

text \<open>\<^verbatim>\<open>run\<close>: the exit code and the state when it returns.\<close>

definition run :: "(double \<Rightarrow> int) \<Rightarrow> (nat \<Rightarrow> (int \<times> int) list) \<Rightarrow> wait_event list \<Rightarrow> loop \<Rightarrow> (int \<times> loop) option" where
  "run oob polls ws l =
     (case sys_new_fd l of
        (Inl e, l) \<Rightarrow> Some (1, note_io ''epoll_create1'' ''startup'' e l)
      | (Inr fd, l) \<Rightarrow>
          let l = assign_fd lp_epfd_update (lp_epfd l) fd l;
              (ok, l) = setup_wake l;
              (ok, l) = (if ok then setup_signals l else (False, l));
              (ok, l) = (if ok then setup_listener l else (False, l))
          in if \<not> ok then (let l = pool_stop (l\<lparr>lp_exit_code := 1\<rparr>) in Some (lp_exit_code l, l))
             else let (now, l) = loop_now l; l = l\<lparr>lp_last_tick := now\<rparr>
                  in (case run_loop oob ws l of
                        None \<Rightarrow> None
                      | Some l \<Rightarrow> (case run_end polls l of None \<Rightarrow> None | Some l \<Rightarrow> Some (lp_exit_code l, l))))"

section \<open>Construction and destruction\<close>

text \<open>The world and the kernel at start are given by \<open>w\<close> and the scripts of \<open>k\<close>.\<close>

definition loop_init :: "config \<Rightarrow> (nat \<Rightarrow> bool) \<Rightarrow> world \<Rightarrow> loop \<Rightarrow> loop" where
  "loop_init cfg created w k =
     k\<lparr>lp_cfg := cfg, lp_epfd := - 1, lp_listen := - 1, lp_wake := - 1, lp_sig := - 1, lp_conns := [], lp_reap := [],
       lp_rescan := [], lp_completions := [], lp_shutdown_requested := False, lp_second_signal := False,
       lp_draining := False, lp_forced_shutdown := False, lp_accept_retry := False, lp_exit_code := 0,
       lp_bound_port := 0, lp_drain_deadline := 0, lp_last_tick := 0, lp_accepted := 0, lp_rejected_connections := 0,
       lp_next_conn_id := 0, lp_running := [],
       lp_world := w\<lparr>w_pool := pool_init (unat (cf_workers cfg)) (unat (cf_max_queue cfg)) created,
                     w_requests_received := 0, w_overload_rejections := 0, w_timeouts := 0\<rparr>\<rparr>"

text \<open>
  The destructor: the pool is stopped, the connections go, and then the descriptors the members own, in
  the reverse order of their declaration.
\<close>

definition loop_destroy :: "loop \<Rightarrow> loop" where
  "loop_destroy l =
     (let l = pool_stop l;
          l = drop_refs (map snd (lp_conns l) @ lp_rescan l) (l\<lparr>lp_conns := [], lp_rescan := []\<rparr>)
      in fold (\<lambda>fd l. if fd \<ge> 0 then loop_close fd l else l) [lp_sig l, lp_wake l, lp_listen l, lp_epfd l] l)"

end
