(* ===== verification/Event_Loop_Inv.thy ===== *)
theory Event_Loop_Inv
  imports Event_Loop
begin

text \<open>
  The invariant of the event loop: who owns which connection and which descriptor, that the interest list
  of the kernel is what the loop believes, and that every request that is being worked on has exactly one
  result under way.  Every operation of the loop and every action of a worker keeps it.
\<close>

section \<open>The invariant\<close>

text \<open>
  An object is held while a shared pointer to it exists: one of \<^verbatim>\<open>conns_\<close>, of \<^verbatim>\<open>rescan_\<close>, or one of the
  local pointers \<open>H\<close> of the operation that is running.
\<close>

definition held :: "nat list \<Rightarrow> loop \<Rightarrow> nat \<Rightarrow> bool" where
  "held H l oid = (live l oid \<or> oid \<in> set H)"

definition members :: "loop \<Rightarrow> int set" where
  "members l = {lp_epfd l, lp_listen l, lp_wake l, lp_sig l}"

definition obj_ok :: "loop \<Rightarrow> nat \<Rightarrow> bool" where
  "obj_ok l oid =
     (let c = lp_objs l oid in oid < lp_next_obj l \<and> cn_self c = oid \<and> conn_inv (lp_cfg l) c \<and>
        0 \<le> cn_fd c \<and> cn_fd c \<in> set (ft_open (lp_fds l)) \<and> cn_fd c \<notin> members l)"

definition store_inv :: "nat list \<Rightarrow> loop \<Rightarrow> bool" where
  "store_inv H l =
     (distinct (map fst (lp_conns l)) \<and>
      (\<forall>e \<in> set (lp_conns l). cn_fd (lp_objs l (snd e)) = fst e \<and>
         lp_epoll l (fst e) = Some (cn_applied_mask (lp_objs l (snd e)))) \<and>
      (\<forall>oid. held H l oid \<longrightarrow> obj_ok l oid) \<and>
      (\<forall>oid oid'. held H l oid \<longrightarrow> held H l oid' \<longrightarrow> cn_fd (lp_objs l oid) = cn_fd (lp_objs l oid') \<longrightarrow> oid = oid') \<and>
      (\<forall>fd \<in> members l. 0 \<le> fd \<longrightarrow> fd \<in> set (ft_open (lp_fds l))) \<and>
      \<not> ft_bad_close (lp_fds l) \<and>
      length (lp_conns l) \<le> unat (cf_max_connections (lp_cfg l)))"

text \<open>A request under way: a job that is queued or running, or a completion that is not yet delivered.\<close>

type_synonym ticket = "nat \<times> u64 \<times> u64"

definition job_ticket :: "job \<Rightarrow> ticket" where
  "job_ticket j = (jb_conn j, jb_cid j, jb_seq j)"

definition cm_ticket :: "completion \<Rightarrow> ticket" where
  "cm_ticket cm = (cm_conn cm, cm_conn_id cm, cm_seq cm)"

definition tickets :: "loop \<Rightarrow> ticket multiset" where
  "tickets l = image_mset job_ticket (mset (tp_queue (w_pool (lp_world l)))) +
     image_mset job_ticket (mset (lp_running l)) + image_mset cm_ticket (mset (lp_completions l))"

definition flight :: "connection \<Rightarrow> ticket multiset" where
  "flight c = (if cn_in_flight c then {#(cn_self c, cn_id c, cn_inflight_seq c)#} else {#})"

definition ticket_inv :: "nat list \<Rightarrow> ticket multiset \<Rightarrow> loop \<Rightarrow> bool" where
  "ticket_inv H E l =
     ((\<forall>t \<in># tickets l + E. fst t < lp_next_obj l) \<and>
      (\<forall>oid. held H l oid \<longrightarrow> cn_alive (lp_objs l oid) \<longrightarrow>
         filter_mset (\<lambda>t. fst t = oid) (tickets l + E) = flight (lp_objs l oid)))"

definition loop_inv :: "nat list \<Rightarrow> ticket multiset \<Rightarrow> loop \<Rightarrow> bool" where
  "loop_inv H E l = (store_inv H l \<and> ticket_inv H E l)"

lemma loop_inv_mono: "loop_inv H E l \<Longrightarrow> set H' \<subseteq> set H \<Longrightarrow> loop_inv H' E l"
  unfolding loop_inv_def store_inv_def ticket_inv_def held_def by blast

lemma loop_invD:
  assumes "loop_inv H E l" "held H l oid"
  shows "obj_ok l oid" "cn_self (lp_objs l oid) = oid" "conn_inv (lp_cfg l) (lp_objs l oid)"
  using assms by (auto simp: loop_inv_def store_inv_def obj_ok_def Let_def)

text \<open>The two halves of the invariant after a step that changes only objects and registrations.\<close>

lemma store_inv_objs:
  assumes inv: "store_inv H l"
    and same: "lp_conns l' = lp_conns l" "held H l' = held H l" "lp_cfg l' = lp_cfg l"
      "lp_next_obj l' = lp_next_obj l" "lp_fds l' = lp_fds l" "members l' = members l"
    and objs: "\<And>oid. held H l oid \<Longrightarrow> cn_fd (lp_objs l' oid) = cn_fd (lp_objs l oid) \<and>
      cn_self (lp_objs l' oid) = cn_self (lp_objs l oid) \<and> conn_inv (lp_cfg l) (lp_objs l' oid)"
    and reg: "\<And>e. e \<in> set (lp_conns l) \<Longrightarrow> lp_epoll l' (fst e) = Some (cn_applied_mask (lp_objs l' (snd e)))"
  shows "store_inv H l'"
proof -
  have conns: "held H l (snd e)" if "e \<in> set (lp_conns l)" for e using that by (auto simp: held_def live_def)
  have "obj_ok l' oid" if "held H l oid" for oid
    using inv objs [OF that] that by (simp add: store_inv_def obj_ok_def Let_def same)
  moreover have "cn_fd (lp_objs l' (snd e)) = fst e" if "e \<in> set (lp_conns l)" for e
    using inv objs [OF conns [OF that]] that by (simp add: store_inv_def)
  moreover have "oid = oid'" if "held H l oid" "held H l oid'" "cn_fd (lp_objs l' oid) = cn_fd (lp_objs l' oid')" for oid oid'
    using inv objs [OF that(1)] objs [OF that(2)] that by (simp add: store_inv_def)
  ultimately show ?thesis using inv reg unfolding store_inv_def same by blast
qed

lemma ticket_inv_objs:
  assumes inv: "ticket_inv H E l" and same: "held H l' = held H l" "lp_next_obj l' = lp_next_obj l"
    and tk: "tickets l' + E' = tickets l + E"
    and objs: "\<And>oid. held H l oid \<Longrightarrow> cn_alive (lp_objs l' oid) \<Longrightarrow>
      cn_alive (lp_objs l oid) \<and> flight (lp_objs l' oid) = flight (lp_objs l oid)"
  shows "ticket_inv H E' l'"
  using inv objs unfolding ticket_inv_def same tk by simp

text \<open>What the invariant reads of the state.\<close>

definition loop_view where
  "loop_view l = (lp_cfg l, lp_conns l, lp_rescan l, lp_objs l, lp_next_obj l, lp_fds l, lp_epoll l,
     (lp_epfd l, lp_listen l, lp_wake l, lp_sig l), w_pool (lp_world l), lp_running l, lp_completions l)"

lemma held_view: "loop_view l' = loop_view l \<Longrightarrow> held H l' = held H l"
  by (intro ext) (simp add: loop_view_def held_def live_def)

lemma loop_inv_view: "loop_view l' = loop_view l \<Longrightarrow> loop_inv H E l' = loop_inv H E l"
  using held_view [of l' l H]
  by (simp add: loop_view_def loop_inv_def store_inv_def ticket_inv_def obj_ok_def members_def tickets_def)

lemma loop_view_simps [simp]:
  "loop_view (l\<lparr>lp_results := rs\<rparr>) = loop_view l"
  "loop_view (l\<lparr>lp_reap := fds\<rparr>) = loop_view l"
  "loop_view (l\<lparr>lp_accept := es\<rparr>) = loop_view l"
  "loop_view (l\<lparr>lp_signals := sg\<rparr>) = loop_view l"
  "loop_view (l\<lparr>lp_wake_errs := we\<rparr>) = loop_view l"
  "loop_view (l\<lparr>lp_counter := n\<rparr>) = loop_view l"
  "loop_view (l\<lparr>lp_accept_retry := b\<rparr>) = loop_view l"
  "loop_view (l\<lparr>lp_shutdown_requested := b\<rparr>) = loop_view l"
  "loop_view (l\<lparr>lp_second_signal := b\<rparr>) = loop_view l"
  "loop_view (l\<lparr>lp_forced_shutdown := b\<rparr>) = loop_view l"
  "loop_view (l\<lparr>lp_draining := b\<rparr>) = loop_view l"
  "loop_view (l\<lparr>lp_exit_code := i\<rparr>) = loop_view l"
  "loop_view (l\<lparr>lp_drain_deadline := i\<rparr>) = loop_view l"
  "loop_view (l\<lparr>lp_last_tick := i\<rparr>) = loop_view l"
  "loop_view (l\<lparr>lp_accepted := k\<rparr>) = loop_view l"
  "loop_view (l\<lparr>lp_rejected_connections := k\<rparr>) = loop_view l"
  "loop_view (l\<lparr>lp_next_conn_id := k\<rparr>) = loop_view l"
  "loop_view (l\<lparr>lp_bound_port := p\<rparr>) = loop_view l"
  "loop_view (l\<lparr>lp_files := fs\<rparr>) = loop_view l"
  by (simp_all add: loop_view_def)

lemma loop_view_world: "w_pool w = w_pool (lp_world l) \<Longrightarrow> loop_view (l\<lparr>lp_world := w\<rparr>) = loop_view l"
  by (simp add: loop_view_def)

lemma loop_view_calls [simp]:
  "loop_view (note_io what peer e l) = loop_view l"
  "loop_view (log_note en l) = loop_view l"
  "loop_view (snd (loop_now l)) = loop_view l"
  "loop_view (snd (sys_result l)) = loop_view l"
  by (simp_all add: note_io_def log_note_def loop_now_def sys_result_def loop_view_world log_io_def
      split: prod.split list.split)
     (simp add: loop_view_def clock_now_def split: list.split)

lemma sys_result_view: "sys_result l = (r, l') \<Longrightarrow> loop_view l' = loop_view l"
  using loop_view_calls(4) [of l] by simp

lemma sys_logged_view [simp]: "loop_view (sys_logged what peer l) = loop_view l"
  by (auto simp: sys_logged_def dest: sys_result_view split: prod.split)

lemma loop_now_view: "loop_now l = (t, l') \<Longrightarrow> loop_view l' = loop_view l"
  using loop_view_calls(3) [of l] by simp

lemma wake_loop_view [simp]: "loop_view (wake_loop es l) = loop_view l"
  by (induction es l rule: wake_loop.induct) (auto simp: loop_view_def)

lemma drain_wake_loop_view [simp]: "loop_view (drain_wake_loop es l) = loop_view l"
  by (induction es l rule: drain_wake_loop.induct) (auto simp: loop_view_def)

lemma signal_loop_view [simp]: "loop_view (signal_loop es l) = loop_view l"
  by (induction es l rule: signal_loop.induct) (auto simp: on_signal_def)

section \<open>A callback on a connection\<close>

text \<open>The contract of a handler the loop may call on any connection at any time.\<close>

definition good_handler :: "config \<Rightarrow> (connection \<Rightarrow> world \<Rightarrow> connection \<times> world) \<Rightarrow> bool" where
  "good_handler cfg f = (\<forall>c w c' w'. conn_inv cfg c \<longrightarrow> f c w = (c', w') \<longrightarrow>
     conn_ok cfg c w c' w' \<and> hands_over cfg c w c' w')"

lemma good_handler_step:
  assumes "\<forall>res seq. e \<noteq> WorkerResult res seq" "f = (\<lambda>c w. conn_step oob cfg e (c, w))"
  shows "good_handler cfg f"
  using assms conn_step_ok conn_step_hands_over unfolding good_handler_def by blast

lemma good_handlers:
  "good_handler cfg (on_readable cfg)" "good_handler cfg on_writable" "good_handler cfg (on_hangup ev)"
  "good_handler cfg (on_tick oob cfg now)" "good_handler cfg (\<lambda>c w. (begin_draining c, w))"
  "good_handler cfg (\<lambda>c w. (conn_kill c, w))"
  using good_handler_step [where e = Readable] good_handler_step [where e = Writable]
    good_handler_step [where e = "Hangup ev"] good_handler_step [where e = "Tick now" and oob = oob]
    good_handler_step [where e = Drain] good_handler_step [where e = Kill]
  by (simp_all add: fun_eq_iff)

lemma with_conn_frames [simp]:
  "lp_conns (with_conn oid f l) = lp_conns l" "lp_rescan (with_conn oid f l) = lp_rescan l"
  "lp_cfg (with_conn oid f l) = lp_cfg l" "lp_fds (with_conn oid f l) = lp_fds l"
  "lp_epoll (with_conn oid f l) = lp_epoll l" "lp_next_obj (with_conn oid f l) = lp_next_obj l"
  "members (with_conn oid f l) = members l" "lp_running (with_conn oid f l) = lp_running l"
  "lp_completions (with_conn oid f l) = lp_completions l" "lp_draining (with_conn oid f l) = lp_draining l"
  "lp_reap (with_conn oid f l) = lp_reap l"
  "live (with_conn oid f l) = live l" "held H (with_conn oid f l) = held H l"
  by (simp_all add: with_conn_def members_def live_def held_def fun_eq_iff split: prod.split)

text \<open>What a callback keeps of the store: identity, descriptor, applied mask, and the invariant of the connection.\<close>

lemma store_inv_with_conn:
  assumes inv: "store_inv H l" and held: "held H l oid"
    and f: "f (lp_objs l oid) (lp_world l) = (c', w')"
    and ok: "conn_ok (lp_cfg l) (lp_objs l oid) (lp_world l) c' w'"
  shows "store_inv H (with_conn oid f l)"
proof -
  have "cn_fd c' = cn_fd (lp_objs l oid)" "cn_self c' = cn_self (lp_objs l oid)"
    "cn_applied_mask c' = cn_applied_mask (lp_objs l oid)" "conn_inv (lp_cfg l) c'"
    using ok by (auto simp: conn_ok_def evolves_def)
  moreover have "lp_objs (with_conn oid f l) = (lp_objs l)(oid := c')" using f by (simp add: with_conn_def)
  ultimately show ?thesis using inv
    by (intro store_inv_objs [OF inv]) (auto simp: store_inv_def obj_ok_def Let_def)
qed

lemma loop_inv_with_conn:
  assumes inv: "loop_inv H E l" and held: "held H l oid" and good: "good_handler (lp_cfg l) f"
  shows "loop_inv H E (with_conn oid f l)"
proof -
  let ?c = "lp_objs l oid" and ?w = "lp_world l"
  obtain c' w' where f: "f ?c ?w = (c', w')" by fastforce
  have ci: "conn_inv (lp_cfg l) ?c" and self: "cn_self ?c = oid" and lt: "oid < lp_next_obj l"
    using loop_invD [OF inv held] by (simp_all add: obj_ok_def Let_def)
  from good ci f have ok: "conn_ok (lp_cfg l) ?c ?w c' w'" and ho: "hands_over (lp_cfg l) ?c ?w c' w'"
    by (auto simp: good_handler_def)
  have store: "store_inv H (with_conn oid f l)"
    using inv by (intro store_inv_with_conn [where f = f, OF _ held f ok]) (simp add: loop_inv_def)
  have ev: "cn_alive c' \<Longrightarrow> cn_alive ?c" "cn_self c' = cn_self ?c" "cn_id c' = cn_id ?c"
    using ok by (auto simp: conn_ok_def evolves_def)
  have objs: "lp_objs (with_conn oid f l) = (lp_objs l)(oid := c')" "lp_world (with_conn oid f l) = w'"
    using f by (simp_all add: with_conn_def)
  from inv have tk: "\<And>t. t \<in># tickets l + E \<Longrightarrow> fst t < lp_next_obj l"
    "\<And>o'. held H l o' \<Longrightarrow> cn_alive (lp_objs l o') \<Longrightarrow>
       filter_mset (\<lambda>t. fst t = o') (tickets l + E) = flight (lp_objs l o')"
    by (auto simp: loop_inv_def ticket_inv_def)
  from ho consider (same) "w_pool w' = w_pool ?w" "keeps_flight ?c c'"
    | (job) j where "w_pool w' = (w_pool ?w)\<lparr>tp_queue := tp_queue (w_pool ?w) @ [j]\<rparr>" "\<not> cn_in_flight ?c"
        "cn_in_flight c'" "cn_alive c'" "jb_conn j = oid" "jb_cid j = cn_id ?c" "jb_seq j = cn_inflight_seq c'"
    by (auto simp: hands_over_def self)
  then have "ticket_inv H E (with_conn oid f l)"
  proof cases
    case same
    have t: "tickets (with_conn oid f l) = tickets l" using same by (simp add: tickets_def objs)
    have "flight c' = flight ?c" if "cn_alive c'"
      using same that ev by (simp add: keeps_flight_def flight_def)
    with tk ev show ?thesis by (auto simp: ticket_inv_def t objs)
  next
    case (job j)
    have t: "tickets (with_conn oid f l) = add_mset (oid, cn_id ?c, cn_inflight_seq c') (tickets l)"
      using job by (simp add: tickets_def objs job_ticket_def)
    have "filter_mset (\<lambda>t. fst t = oid) (tickets l + E) = {#}"
      using tk(2) [OF held] ev job by (simp add: flight_def)
    with tk lt job self ev show ?thesis by (auto simp: ticket_inv_def t objs flight_def)
  qed
  with store show ?thesis by (simp add: loop_inv_def)
qed

section \<open>After a callback\<close>

text \<open>Changing the applied mask together with the interest list.\<close>

lemma loop_inv_applied:
  assumes "loop_inv H E l" "held H l oid"
  shows "loop_inv H E (l\<lparr>lp_epoll := (lp_epoll l)(cn_fd (lp_objs l oid) \<mapsto> m),
     lp_objs := (lp_objs l)(oid := (lp_objs l oid)\<lparr>cn_applied_mask := m\<rparr>)\<rparr>)" (is "loop_inv H E ?l")
proof -
  have h: "held H ?l = held H l" by (simp add: held_def live_def fun_eq_iff)
  have reg: "lp_epoll ?l (fst e) = Some (cn_applied_mask (lp_objs ?l (snd e)))" if e: "e \<in> set (lp_conns l)" for e
  proof -
    have "held H l (snd e)" using e by (auto simp: held_def live_def)
    with e assms show ?thesis by (auto simp: loop_inv_def store_inv_def)
  qed
  have "store_inv H l" using assms(1) by (simp add: loop_inv_def)
  then have "store_inv H ?l"
    by (rule store_inv_objs) (use loop_invD [OF assms(1)] h reg in \<open>auto simp: members_def\<close>)
  moreover have "ticket_inv H E ?l"
    by (rule ticket_inv_objs [of H E l]) (use assms(1) h in \<open>auto simp: loop_inv_def tickets_def flight_def\<close>)
  ultimately show ?thesis by (simp add: loop_inv_def)
qed

lemma loop_inv_rescan:
  assumes "loop_inv H E l" "held H l oid"
  shows "loop_inv H E (l\<lparr>lp_rescan := lp_rescan l @ [oid]\<rparr>)" (is "loop_inv H E ?l")
proof -
  have "held H ?l o' = held H l o'" for o' using assms(2) by (auto simp: held_def live_def)
  with assms(1) show ?thesis
    by (simp add: loop_inv_def store_inv_def ticket_inv_def obj_ok_def members_def tickets_def)
qed

lemma set_interest_inv:
  assumes inv: "loop_inv H E l" and held: "held H l oid"
  shows "loop_inv H E (set_interest oid l)"
proof -
  let ?c = "lp_objs l oid" and ?want = "interest_mask (lp_cfg l) (lp_objs l oid)"
  obtain r l1 where r: "sys_result l = (r, l1)" by fastforce
  note v = sys_result_view [OF r]
  have inv1: "loop_inv H E l1" "held H l1 oid" "lp_objs l1 = lp_objs l"
    using inv held loop_inv_view [OF v] held_view [OF v] v by (simp_all add: loop_view_def)
  let ?l2 = "l1\<lparr>lp_epoll := (lp_epoll l1)(cn_fd ?c \<mapsto> ?want), lp_objs := (lp_objs l1)(oid := ?c\<lparr>cn_applied_mask := ?want\<rparr>)\<rparr>"
  have inv2: "loop_inv H E ?l2" using loop_inv_applied [OF inv1(1,2), of ?want] by (simp add: inv1(3))
  have held2: "held H ?l2 oid" using inv1(2) by (simp add: held_def live_def)
  have inv3: "loop_inv H E (l1\<lparr>lp_reap := x\<rparr>)" "loop_inv H E (note_io a b e l1)" for x a b e
    using inv1(1) loop_inv_view [of "l1\<lparr>lp_reap := x\<rparr>" l1] loop_inv_view [of "note_io a b e l1" l1] by simp_all
  show ?thesis
    using inv inv1 inv2 inv3 loop_inv_rescan [OF inv2 held2]
    by (auto simp: set_interest_def epoll_mod_def r Let_def)
qed

lemma after_callback_inv: "loop_inv H E l \<Longrightarrow> held H l oid \<Longrightarrow> loop_inv H E (after_callback oid l)"
  using loop_inv_view [of "l\<lparr>lp_reap := x\<rparr>" l for x] set_interest_inv [of H E l oid]
  by (simp add: after_callback_def Let_def)

section \<open>Results\<close>

text \<open>A ticket that is handed in is either the one its connection waits for, or its connection is gone.\<close>

lemma ticket_inv_drop:
  assumes "ticket_inv H (add_mset t E) l" "\<not> (held H l (fst t) \<and> cn_alive (lp_objs l (fst t)))"
  shows "ticket_inv H E l"
  unfolding ticket_inv_def
proof (intro conjI allI impI)
  fix oid assume h: "held H l oid" "cn_alive (lp_objs l oid)"
  with assms(2) have "fst t \<noteq> oid" by auto
  then have "filter_mset (\<lambda>t. fst t = oid) (tickets l + E) = filter_mset (\<lambda>t. fst t = oid) (tickets l + add_mset t E)" by simp
  also have "\<dots> = flight (lp_objs l oid)" using assms(1) h by (simp only: ticket_inv_def)
  finally show "filter_mset (\<lambda>t. fst t = oid) (tickets l + E) = flight (lp_objs l oid)" .
qed (use assms(1) in \<open>auto simp: ticket_inv_def\<close>)

lemma deliver_dropped_inv:
  assumes "loop_inv [] E l" and "\<not> (live l (cm_conn cm) \<and> cn_alive (lp_objs l (cm_conn cm)))"
  shows "loop_inv [] E (deliver cm l)"
proof (cases "live l (cm_conn cm) \<and> cn_id (lp_objs l (cm_conn cm)) = cm_conn_id cm")
  case True
  let ?oid = "cm_conn cm"
  obtain c' w' where f: "on_worker_result (cm_response cm) (cm_seq cm) (lp_objs l ?oid) (lp_world l) = (c', w')" by fastforce
  from assms(2) True f have "c' = lp_objs l ?oid" "w' = lp_world l" by (auto simp: on_worker_result_def)
  with f have "with_conn ?oid (on_worker_result (cm_response cm) (cm_seq cm)) l = l" by (simp add: with_conn_def)
  with True after_callback_inv [OF assms(1), of ?oid] show ?thesis by (simp add: deliver_def held_def)
qed (use assms(1) in \<open>auto simp: deliver_def\<close>)

text \<open>When the one ticket of a connection is taken away together with its request in flight, the tickets still match.\<close>

lemma ticket_inv_answered:
  assumes tk: "ticket_inv [] (add_mset t E) l" and t: "fst t = oid"
    and none: "filter_mset (\<lambda>t. fst t = oid) (tickets l + E) = {#}"
    and f: "f (lp_objs l oid) (lp_world l) = (c', w')" and pool: "w_pool w' = w_pool (lp_world l)" "\<not> cn_in_flight c'"
  shows "ticket_inv [] E (with_conn oid f l)"
proof -
  have tks: "tickets (with_conn oid f l) = tickets l" using pool f by (simp add: tickets_def with_conn_def)
  have objs: "lp_objs (with_conn oid f l) = (lp_objs l)(oid := c')" using f by (simp add: with_conn_def)
  show ?thesis unfolding ticket_inv_def
  proof (intro conjI allI impI)
    fix o' assume o': "held [] (with_conn oid f l) o'" "cn_alive (lp_objs (with_conn oid f l) o')"
    show "filter_mset (\<lambda>t. fst t = o') (tickets (with_conn oid f l) + E) = flight (lp_objs (with_conn oid f l) o')"
    proof (cases "o' = oid")
      case True
      then show ?thesis unfolding tks objs using none pool by (simp add: flight_def)
    next
      case False
      then have "filter_mset (\<lambda>t. fst t = o') (tickets l + E) = filter_mset (\<lambda>t. fst t = o') (tickets l + add_mset t E)"
        using t by simp
      also have "\<dots> = flight (lp_objs l o')" using tk o' False by (simp only: ticket_inv_def with_conn_frames objs fun_upd_apply if_False)
      finally show ?thesis unfolding tks objs using False by simp
    qed
  qed (use tk in \<open>auto simp: ticket_inv_def tks\<close>)
qed

lemma deliver_inv:
  assumes inv: "loop_inv [] (add_mset (cm_ticket cm) E) l"
  shows "loop_inv [] E (deliver cm l)"
proof (cases "live l (cm_conn cm) \<and> cn_alive (lp_objs l (cm_conn cm))")
  case False
  have "store_inv [] l" "ticket_inv [] (add_mset (cm_ticket cm) E) l" using inv by (simp_all add: loop_inv_def)
  with False have "loop_inv [] E l" using ticket_inv_drop [of "[]" "cm_ticket cm" E l] by (simp add: loop_inv_def held_def cm_ticket_def)
  then show ?thesis using False by (rule deliver_dropped_inv)
next
  case True
  let ?oid = "cm_conn cm" and ?t = "cm_ticket cm" and ?f = "on_worker_result (cm_response cm) (cm_seq cm)"
  let ?c = "lp_objs l ?oid"
  have t: "fst ?t = ?oid" by (simp add: cm_ticket_def)
  have st: "store_inv [] l" and tk: "ticket_inv [] (add_mset ?t E) l" using inv by (simp_all add: loop_inv_def)
  have h: "held [] l ?oid" using True by (simp add: held_def)
  have self: "cn_self ?c = ?oid" and ci: "conn_inv (lp_cfg l) ?c" using loop_invD [OF inv h] by auto
  have "filter_mset (\<lambda>t. fst t = ?oid) (tickets l + add_mset ?t E) = flight ?c"
    using tk h True by (auto simp: ticket_inv_def)
  then have "add_mset ?t (filter_mset (\<lambda>t. fst t = ?oid) (tickets l + E)) = flight ?c" using t by simp
  then have wait: "cn_in_flight ?c" "?t = (?oid, cn_id ?c, cn_inflight_seq ?c)"
    and none: "filter_mset (\<lambda>t. fst t = ?oid) (tickets l + E) = {#}"
    using self by (auto simp: flight_def split: if_splits)
  obtain c' w' where f: "?f ?c (lp_world l) = (c', w')" by fastforce
  have pool: "w_pool w' = w_pool (lp_world l)" "\<not> cn_in_flight c'"
    using on_worker_result_flight [OF f] wait True by (auto simp: cm_ticket_def)
  have "store_inv [] (with_conn ?oid ?f l)"
    by (rule store_inv_with_conn [where f = ?f, OF st h f conn_ok_on_worker_result [OF ci f]])
  moreover have "ticket_inv [] E (with_conn ?oid ?f l)"
    by (rule ticket_inv_answered [where f = ?f, OF tk t none f pool])
  ultimately have "loop_inv [] E (with_conn ?oid ?f l)" by (simp add: loop_inv_def)
  then have "loop_inv [] E (after_callback ?oid (with_conn ?oid ?f l))"
    by (rule after_callback_inv) (use h in simp)
  with True wait show ?thesis by (simp add: deliver_def cm_ticket_def)
qed

lemma fold_deliver_inv:
  "loop_inv [] (image_mset cm_ticket (mset cms) + E) l \<Longrightarrow> loop_inv [] E (fold deliver cms l)"
proof (induction cms arbitrary: l)
  case (Cons cm cms)
  have "loop_inv [] (image_mset cm_ticket (mset cms) + E) (deliver cm l)"
    by (rule deliver_inv) (use Cons.prems in simp)
  with Cons.IH show ?case by simp
qed simp

lemma drain_completions_inv:
  assumes "loop_inv [] E l"
  shows "loop_inv [] E (drain_completions l)"
proof -
  let ?l = "l\<lparr>lp_completions := []\<rparr>" and ?E = "image_mset cm_ticket (mset (lp_completions l)) + E"
  have h: "held [] ?l = held [] l" by (simp add: held_def live_def fun_eq_iff)
  have t: "tickets ?l + ?E = tickets l + E" by (simp add: tickets_def add.assoc)
  have "ticket_inv [] ?E ?l"
    by (rule ticket_inv_objs [of "[]" E l, OF _ h _ t]) (use assms in \<open>simp_all add: loop_inv_def\<close>)
  moreover have "store_inv [] ?l = store_inv [] l"
    by (simp add: store_inv_def obj_ok_def members_def held_def live_def)
  ultimately have "loop_inv [] ?E ?l" using assms by (simp add: loop_inv_def)
  then show ?thesis by (simp add: drain_completions_def fold_deliver_inv)
qed

section \<open>Objects that go\<close>

lemma sys_close_open: "fd \<in> set (ft_open t) \<Longrightarrow> sys_close fd t = t\<lparr>ft_open := removeAll fd (ft_open t)\<rparr>"
  by (simp add: sys_close_def)

text \<open>The last pointer to an object goes: its descriptor is open, nobody else owns it, and it is closed.\<close>

lemma destroy_inv:
  assumes inv: "loop_inv (oid # H) E l" and last: "\<not> held H l oid"
  shows "loop_inv H E (destroy oid l)"
proof -
  let ?fd = "cn_fd (lp_objs l oid)" and ?l = "destroy oid l"
  have own: "held (oid # H) l oid" by (simp add: held_def)
  have fd: "?fd \<in> set (ft_open (lp_fds l))" "?fd \<notin> members l"
    using loop_invD(1) [OF inv own] by (simp_all add: obj_ok_def Let_def)
  have fds: "lp_fds ?l = (lp_fds l)\<lparr>ft_open := removeAll ?fd (ft_open (lp_fds l))\<rparr>"
    using fd by (simp add: destroy_def loop_close_def sys_close_open)
  have frames: "lp_conns ?l = lp_conns l" "lp_objs ?l = lp_objs l" "lp_cfg ?l = lp_cfg l" "lp_next_obj ?l = lp_next_obj l"
    "members ?l = members l" "tickets ?l = tickets l" "lp_epoll ?l = (lp_epoll l)(?fd := None)" "held H ?l = held H l"
    by (simp_all add: destroy_def loop_close_def members_def tickets_def held_def live_def fun_eq_iff)
  have sub: "held (oid # H) l o'" if "held H l o'" for o' using that by (auto simp: held_def)
  have other: "cn_fd (lp_objs l o') \<noteq> ?fd" if "held H l o'" for o'
    using inv own sub [OF that] that last by (auto simp: loop_inv_def store_inv_def)
  have conns: "held H l (snd e)" if "e \<in> set (lp_conns l)" for e using that by (auto simp: held_def live_def)
  have "obj_ok ?l o'" if "held H l o'" for o'
    using loop_invD(1) [OF inv sub [OF that]] other [OF that] by (simp add: obj_ok_def Let_def frames fds)
  moreover have "lp_epoll ?l (fst e) = Some (cn_applied_mask (lp_objs l (snd e)))" if "e \<in> set (lp_conns l)" for e
    using inv that other [OF conns [OF that]] by (auto simp: loop_inv_def store_inv_def frames)
  ultimately have "store_inv H ?l"
    using inv fd(2) sub unfolding loop_inv_def store_inv_def frames fds by auto
  moreover have "ticket_inv H E ?l" using inv sub by (auto simp: loop_inv_def ticket_inv_def frames)
  ultimately show ?thesis by (simp add: loop_inv_def)
qed

lemma destroy_live [simp]: "live (destroy oid l) = live l"
  by (simp add: fun_eq_iff live_def destroy_def loop_close_def)

lemma fold_destroy_inv:
  assumes "loop_inv (oids @ H) E l" "distinct oids" "\<forall>oid \<in> set oids. \<not> live l oid \<and> oid \<notin> set H"
  shows "loop_inv H E (fold destroy oids l)"
  using assms
proof (induction oids arbitrary: l)
  case (Cons oid oids)
  then have "loop_inv (oids @ H) E (destroy oid l)" by (intro destroy_inv) (auto simp: held_def)
  with Cons show ?case by simp
qed simp

lemma drop_refs_inv:
  assumes "loop_inv oids E l"
  shows "loop_inv [] E (drop_refs oids l)"
  unfolding drop_refs_def
  by (rule fold_destroy_inv) (use loop_inv_mono [OF assms] in auto)

lemma after_callback_cfg [simp]: "lp_cfg (after_callback oid l) = lp_cfg l"
  by (auto simp: after_callback_def set_interest_def epoll_mod_def note_io_def sys_result_def Let_def
      split: prod.split list.split)

lemma after_callback_held: "held H l o' \<Longrightarrow> held H (after_callback oid l) o'"
  by (auto simp: after_callback_def set_interest_def epoll_mod_def note_io_def sys_result_def Let_def held_def live_def
      split: prod.split list.split)

lemma rescan_one_inv:
  assumes "loop_inv H E l" "held H l oid"
  shows "loop_inv H E (rescan_one oid l)"
  using assms loop_inv_with_conn [OF assms good_handlers(1)]
  by (auto simp: rescan_one_def Let_def intro!: after_callback_inv)

lemma rescan_one_held: "held H l o' \<Longrightarrow> held H (rescan_one oid l) o'"
  by (auto simp: rescan_one_def Let_def intro: after_callback_held)

lemma fold_rescan_inv:
  "loop_inv H E l \<Longrightarrow> (\<forall>oid \<in> set oids. oid \<in> set H) \<Longrightarrow> loop_inv H E (fold rescan_one oids l)"
  by (induction oids arbitrary: l) (auto simp: held_def rescan_one_inv)

lemma process_rescans_inv:
  assumes "loop_inv [] E l"
  shows "loop_inv [] E (process_rescans l)"
proof -
  let ?H = "lp_rescan l" and ?l = "l\<lparr>lp_rescan := []\<rparr>"
  have h: "held ?H ?l = held [] l" by (auto simp: held_def live_def fun_eq_iff)
  have t: "tickets ?l = tickets l" "members ?l = members l" by (simp_all add: tickets_def members_def)
  have "store_inv ?H ?l" using assms unfolding loop_inv_def store_inv_def h t obj_ok_def by simp
  moreover have "ticket_inv ?H E ?l" using assms unfolding loop_inv_def ticket_inv_def h t by simp
  ultimately have "loop_inv ?H E (fold rescan_one ?H ?l)" by (intro fold_rescan_inv) (auto simp: loop_inv_def)
  then show ?thesis by (simp add: process_rescans_def Let_def drop_refs_inv)
qed

text \<open>Taking a connection out of \<^verbatim>\<open>conns_\<close> leaves its object to the caller.\<close>

lemma remove_conn_inv:
  assumes inv: "loop_inv H E l" and mem: "(fd, oid) \<in> set (lp_conns l)"
    and ep: "\<forall>fd'. fd' \<noteq> fd \<longrightarrow> ep fd' = lp_epoll l fd'"
  shows "loop_inv (oid # H) E (l\<lparr>lp_epoll := ep, lp_conns := filter (\<lambda>e. fst e \<noteq> fd) (lp_conns l)\<rparr>)"
    (is "loop_inv _ E ?l")
proof -
  have "oid \<in> snd ` set (lp_conns l)" using mem by force
  then have h: "held H l o'" if "held (oid # H) ?l o'" for o' using that by (auto simp: held_def live_def)
  have t: "tickets ?l = tickets l" "members ?l = members l" by (simp_all add: tickets_def members_def)
  have len: "length (filter (\<lambda>e. fst e \<noteq> fd) (lp_conns l)) \<le> length (lp_conns l)" by simp
  have "obj_ok ?l o'" if "held (oid # H) ?l o'" for o'
    using loop_invD(1) [OF inv h [OF that]] by (simp add: obj_ok_def Let_def t)
  moreover have "distinct (map fst (filter (\<lambda>e. fst e \<noteq> fd) (lp_conns l)))"
    using inv by (simp add: loop_inv_def store_inv_def distinct_map_filter)
  ultimately have "store_inv (oid # H) ?l"
    using inv h ep order_trans [OF len] unfolding loop_inv_def store_inv_def t by auto
  moreover have "ticket_inv (oid # H) E ?l"
    using inv h unfolding loop_inv_def ticket_inv_def t by simp
  ultimately show ?thesis by (simp add: loop_inv_def)
qed

lemma epoll_del_view:
  assumes "epoll_del fd l = (r, l')"
  obtains ep l1 where "loop_view l1 = loop_view l" "\<forall>fd'. fd' \<noteq> fd \<longrightarrow> ep fd' = lp_epoll l fd'" "l' = l1\<lparr>lp_epoll := ep\<rparr>"
proof -
  obtain r1 l1 where r: "sys_result l = (r1, l1)" by fastforce
  note v = sys_result_view [OF r]
  have e: "lp_epoll l1 = lp_epoll l" using v by (simp add: loop_view_def)
  show ?thesis
    by (rule that [OF v, of "if r1 = 0 then (lp_epoll l)(fd := None) else lp_epoll l"])
       (use assms r e in \<open>auto simp: epoll_del_def\<close>)
qed

lemma reap_one_inv:
  assumes inv: "loop_inv [] E l"
  shows "loop_inv [] E (reap_one fd l)"
proof (cases "map_of (lp_conns l) fd")
  case (Some oid)
  let ?c = "lp_objs l oid"
  obtain r l' where d: "epoll_del fd l = (r, l')" by fastforce
  from d obtain ep l1 where v: "loop_view l1 = loop_view l" and ep: "\<forall>fd'. fd' \<noteq> fd \<longrightarrow> ep fd' = lp_epoll l fd'"
    and l': "l' = l1\<lparr>lp_epoll := ep\<rparr>" by (rule epoll_del_view)
  define l2 where "l2 = (if r \<noteq> 0 \<and> r \<noteq> ENOENT \<and> r \<noteq> EBADF then note_io ''epoll_ctl DEL'' (cn_peer ?c) r l' else l')"
  define l3 where "l3 = (if cf_verbose (lp_cfg l2) then log_note (LogClosing (cn_peer ?c) (cn_served ?c)) l2 else l2)"
  have v3: "loop_view l3 = loop_view l'" by (simp add: l3_def l2_def)
  let ?l4 = "l3\<lparr>lp_conns := filter (\<lambda>e. fst e \<noteq> fd) (lp_conns l3)\<rparr>"
  have inv1: "loop_inv [] E l1" using inv loop_inv_view [OF v] by simp
  have "loop_inv [oid] E (l1\<lparr>lp_epoll := ep, lp_conns := filter (\<lambda>e. fst e \<noteq> fd) (lp_conns l1)\<rparr>)"
    by (rule remove_conn_inv [OF inv1]) (use map_of_SomeD [OF Some] v ep in \<open>simp_all add: loop_view_def\<close>)
  moreover have "loop_view ?l4 = loop_view (l1\<lparr>lp_epoll := ep, lp_conns := filter (\<lambda>e. fst e \<noteq> fd) (lp_conns l1)\<rparr>)"
    using v3 by (simp add: loop_view_def l')
  ultimately have inv4: "loop_inv [oid] E ?l4" using loop_inv_view by blast
  have "reap_one fd l = (if live ?l4 oid then ?l4 else destroy oid ?l4)"
    by (simp only: reap_one_def Some d Let_def l2_def [symmetric] l3_def [symmetric] option.case prod.case)
  with destroy_inv [OF inv4] loop_inv_mono [OF inv4, of "[]"] show ?thesis by (auto simp: held_def)
qed (use inv in \<open>simp add: reap_one_def\<close>)

lemma reap_inv: "loop_inv [] E l \<Longrightarrow> loop_inv [] E (reap l)"
proof -
  assume inv: "loop_inv [] E l"
  have "loop_inv [] E (fold reap_one fds l)" for fds
    using inv by (induction fds arbitrary: l) (simp_all add: reap_one_inv)
  with inv loop_inv_view [of "(fold reap_one (lp_reap l) l)\<lparr>lp_reap := []\<rparr>" "fold reap_one (lp_reap l) l"]
  show ?thesis by (simp add: reap_def)
qed

section \<open>New connections\<close>

text \<open>A descriptor that has just been opened belongs to no object and to no member.\<close>

definition fresh_fd :: "int \<Rightarrow> nat list \<Rightarrow> loop \<Rightarrow> bool" where
  "fresh_fd fd H l = (0 \<le> fd \<and> fd \<in> set (ft_open (lp_fds l)) \<and> fd \<notin> members l \<and>
     (\<forall>oid. held H l oid \<longrightarrow> cn_fd (lp_objs l oid) \<noteq> fd))"

lemma sys_open_inv:
  assumes inv: "loop_inv H E l" and op: "sys_open (lp_fds l) = (fd, t)"
  shows "loop_inv H E (l\<lparr>lp_fds := t\<rparr>)" "fresh_fd fd H (l\<lparr>lp_fds := t\<rparr>)"
proof -
  let ?l = "l\<lparr>lp_fds := t\<rparr>"
  have fd: "fd = lowest_unused (ft_open (lp_fds l))" and t: "t = (lp_fds l)\<lparr>ft_open := fd # ft_open (lp_fds l)\<rparr>"
    using op by (auto simp: sys_open_def Let_def)
  have new: "fd \<notin> set (ft_open (lp_fds l))" "0 \<le> fd" unfolding fd by (rule lowest_unused_fresh lowest_unused_nonneg)+
  have h: "held H ?l = held H l" "tickets ?l = tickets l" "members ?l = members l"
    by (simp_all add: held_def live_def tickets_def members_def fun_eq_iff)
  have "obj_ok ?l oid" if "held H l oid" for oid
    using loop_invD(1) [OF inv that] by (simp add: obj_ok_def Let_def members_def t)
  then have "store_inv H ?l" using inv unfolding loop_inv_def store_inv_def h by (simp add: t)
  moreover have "ticket_inv H E ?l" using inv unfolding loop_inv_def ticket_inv_def h by simp
  ultimately show "loop_inv H E ?l" by (simp add: loop_inv_def)
  have "fd \<notin> members l" using inv new by (auto simp: loop_inv_def store_inv_def)
  moreover have "cn_fd (lp_objs l oid) \<noteq> fd" if "held H l oid" for oid
    using loop_invD(1) [OF inv that] new by (auto simp: obj_ok_def Let_def)
  ultimately show "fresh_fd fd H ?l" using new unfolding fresh_fd_def h by (simp add: t)
qed

lemma fresh_fd_view: "loop_view l' = loop_view l \<Longrightarrow> fresh_fd fd H l' = fresh_fd fd H l"
  using held_view [of l' l H] by (simp add: fresh_fd_def members_def loop_view_def)

text \<open>Closing it again, as a rejection does.\<close>

lemma close_fresh_inv:
  assumes inv: "loop_inv H E l" and new: "fresh_fd fd H l"
  shows "loop_inv H E (loop_close fd l)"
proof -
  let ?l = "loop_close fd l"
  have fds: "lp_fds ?l = (lp_fds l)\<lparr>ft_open := removeAll fd (ft_open (lp_fds l))\<rparr>"
    using new by (simp add: loop_close_def sys_close_open fresh_fd_def)
  have frames: "lp_conns ?l = lp_conns l" "lp_objs ?l = lp_objs l" "lp_cfg ?l = lp_cfg l" "lp_next_obj ?l = lp_next_obj l"
    "members ?l = members l" "tickets ?l = tickets l" "lp_epoll ?l = (lp_epoll l)(fd := None)" "held H ?l = held H l"
    by (simp_all add: loop_close_def members_def tickets_def held_def live_def fun_eq_iff)
  have other: "cn_fd (lp_objs l oid) \<noteq> fd" if "held H l oid" for oid using new that by (simp add: fresh_fd_def)
  have conns: "held H l (snd e)" if "e \<in> set (lp_conns l)" for e using that by (auto simp: held_def live_def)
  have "obj_ok ?l oid" if "held H l oid" for oid
    using loop_invD(1) [OF inv that] other [OF that] by (simp add: obj_ok_def Let_def frames fds)
  moreover have "lp_epoll ?l (fst e) = Some (cn_applied_mask (lp_objs l (snd e)))" if "e \<in> set (lp_conns l)" for e
    using inv that other [OF conns [OF that]] by (auto simp: loop_inv_def store_inv_def frames)
  ultimately have "store_inv H ?l"
    using inv new unfolding loop_inv_def store_inv_def frames fds fresh_fd_def by auto
  moreover have "ticket_inv H E ?l" using inv by (simp add: loop_inv_def ticket_inv_def frames)
  ultimately show ?thesis by (simp add: loop_inv_def)
qed

text \<open>Giving it to a new object, which the caller owns.\<close>

lemma new_object_inv:
  assumes inv: "loop_inv H E l" and new: "fresh_fd fd H l" and c: "c = connection_init (lp_next_obj l) fd cid peer (lp_cfg l) now"
  shows "loop_inv (lp_next_obj l # H) E (l\<lparr>lp_next_obj := Suc (lp_next_obj l), lp_objs := (lp_objs l)(lp_next_obj l := c)\<rparr>)"
    (is "loop_inv (?oid # H) E ?l")
proof -
  have lt: "oid < ?oid" if "held H l oid" for oid using loop_invD(1) [OF inv that] by (simp add: obj_ok_def Let_def)
  have h: "held (?oid # H) ?l oid \<longleftrightarrow> oid = ?oid \<or> held H l oid" for oid by (auto simp: held_def live_def)
  have t: "tickets ?l = tickets l" "members ?l = members l" by (simp_all add: tickets_def members_def)
  have cf: "cn_self c = ?oid" "cn_fd c = fd" "conn_inv (lp_cfg l) c" "\<not> cn_in_flight c"
    using conn_inv_init [of "lp_cfg l" ?oid fd cid peer now] by (simp_all add: c connection_init_def)
  have objs: "lp_objs ?l oid = lp_objs l oid" if "held H l oid" for oid using lt [OF that] by simp
  have "obj_ok ?l oid" if "oid = ?oid \<or> held H l oid" for oid
    using that
  proof
    assume "oid = ?oid" then show ?thesis using new cf by (simp add: obj_ok_def fresh_fd_def t)
  next
    assume *: "held H l oid" then show ?thesis using loop_invD(1) [OF inv *] objs [OF *] lt [OF *] by (simp add: obj_ok_def Let_def t)
  qed
  moreover have "oid = oid'" if "oid = ?oid \<or> held H l oid" "oid' = ?oid \<or> held H l oid'"
    "cn_fd (lp_objs ?l oid) = cn_fd (lp_objs ?l oid')" for oid oid'
    using that new cf objs inv lt by (auto simp: fresh_fd_def loop_inv_def store_inv_def)
  moreover have "held H l (snd e)" if "e \<in> set (lp_conns l)" for e using that by (auto simp: held_def live_def)
  ultimately have "store_inv (?oid # H) ?l"
    using inv objs unfolding loop_inv_def store_inv_def h t by (auto simp del: fun_upd_apply)
  moreover have "ticket_inv (?oid # H) E ?l" unfolding ticket_inv_def h t
  proof (intro conjI allI impI ballI)
    fix oid assume *: "oid = ?oid \<or> held H l oid" "cn_alive (lp_objs ?l oid)"
    show "filter_mset (\<lambda>t. fst t = oid) (tickets l + E) = flight (lp_objs ?l oid)"
    proof (cases "oid = ?oid")
      case True
      have "\<forall>t \<in># tickets l + E. fst t \<noteq> ?oid" using inv unfolding loop_inv_def ticket_inv_def by (metis less_irrefl)
      then have "filter_mset (\<lambda>t. fst t = ?oid) (tickets l + E) = {#}" by auto
      with True cf show ?thesis by (simp add: flight_def)
    next
      case False
      with * inv objs show ?thesis by (simp add: loop_inv_def ticket_inv_def)
    qed
  qed (use inv in \<open>auto simp: loop_inv_def ticket_inv_def less_SucI\<close>)
  ultimately show ?thesis by (simp add: loop_inv_def)
qed

lemma add_conn_inv:
  assumes inv: "loop_inv (oid # H) E l" and reg: "lp_epoll l (cn_fd (lp_objs l oid)) = Some (cn_applied_mask (lp_objs l oid))"
    and new: "cn_fd (lp_objs l oid) \<notin> fst ` set (lp_conns l)" and room: "length (lp_conns l) < unat (cf_max_connections (lp_cfg l))"
  shows "loop_inv H E (l\<lparr>lp_conns := lp_conns l @ [(cn_fd (lp_objs l oid), oid)]\<rparr>)" (is "loop_inv H E ?l")
proof -
  have h: "held (oid # H) l o'" if "held H ?l o'" for o' using that by (auto simp: held_def live_def)
  have t: "tickets ?l = tickets l" "members ?l = members l" by (simp_all add: tickets_def members_def)
  have "obj_ok ?l o'" if "held H ?l o'" for o' using loop_invD(1) [OF inv h [OF that]] by (simp add: obj_ok_def Let_def t)
  then have "store_inv H ?l" using inv reg new room h unfolding loop_inv_def store_inv_def t by auto
  moreover have "ticket_inv H E ?l" using inv h unfolding loop_inv_def ticket_inv_def t by simp
  ultimately show ?thesis by (simp add: loop_inv_def)
qed

lemma fresh_not_conn:
  assumes inv: "loop_inv [] E l" and new: "fresh_fd fd [] l"
  shows "fd \<notin> fst ` set (lp_conns l)"
proof
  assume "fd \<in> fst ` set (lp_conns l)"
  then obtain e where e: "e \<in> set (lp_conns l)" "fst e = fd" by blast
  then have "held [] l (snd e)" by (auto simp: held_def live_def)
  with e inv new show False by (auto simp: loop_inv_def store_inv_def fresh_fd_def)
qed

lemma admit_inv:
  assumes inv: "loop_inv [] E l" and new: "fresh_fd fd [] l" and room: "length (lp_conns l) < unat (cf_max_connections (lp_cfg l))"
  shows "loop_inv [] E (admit fd peer l)"
proof -
  obtain now l1 where n: "loop_now (l\<lparr>lp_next_conn_id := lp_next_conn_id l + 1\<rparr>) = (now, l1)" by fastforce
  have v: "loop_view l1 = loop_view l" using loop_now_view [OF n] by simp
  define c where "c = connection_init (lp_next_obj l1) fd (lp_next_conn_id l + 1) peer (lp_cfg l1) now"
  let ?oid = "lp_next_obj l1" and ?m = "interest_mask (lp_cfg l1) c"
  define l2 where "l2 = l1\<lparr>lp_next_obj := Suc (lp_next_obj l1), lp_objs := (lp_objs l1)(lp_next_obj l1 := c)\<rparr>"
  have inv1: "loop_inv [] E l1" "fresh_fd fd [] l1" using inv new loop_inv_view [OF v] fresh_fd_view [OF v] by simp_all
  have inv2: "loop_inv [?oid] E l2" unfolding l2_def by (rule new_object_inv [OF inv1 c_def])
  obtain r l3 where r: "sys_result l2 = (r, l3)" by fastforce
  note v3 = sys_result_view [OF r]
  have inv3: "loop_inv [?oid] E l3" using inv2 loop_inv_view [OF v3] by simp
  have c3: "lp_objs l3 ?oid = c" "cn_fd c = fd" "lp_conns l3 = lp_conns l" "lp_cfg l3 = lp_cfg l" "lp_next_obj l1 = lp_next_obj l"
    "live l3 = live l"
    using v3 v by (simp_all add: loop_view_def l2_def c_def connection_init_def live_def fun_eq_iff)
  have nl: "\<not> live l3 ?oid" using loop_invD(1) [OF inv, of ?oid] c3 by (auto simp: held_def obj_ok_def Let_def)
  have fresh: "fd \<notin> fst ` set (lp_conns l)" by (rule fresh_not_conn [OF inv new])
  then have nokey: "map_of (lp_conns l) fd = None" by (simp add: map_of_eq_None_iff)
  show ?thesis
  proof (cases "r = 0")
    case False
    let ?l4 = "note_io ''epoll_ctl ADD connection'' peer r l3"
    have "loop_inv [?oid] E ?l4" using inv3 loop_inv_view [of ?l4 l3] by simp
    then have "loop_inv [] E (destroy ?oid ?l4)"
      by (rule destroy_inv) (use nl held_view [of ?l4 l3 "[]"] in \<open>simp add: held_def live_def note_io_def\<close>)
    moreover have "admit fd peer l = destroy ?oid ?l4"
      using False r n by (simp add: admit_def next_connection_id_def Let_def epoll_add_def l2_def c_def c3)
    ultimately show ?thesis by simp
  next
    case True
    let ?l4 = "l3\<lparr>lp_epoll := (lp_epoll l3)(fd \<mapsto> ?m), lp_objs := (lp_objs l3)(?oid := c\<lparr>cn_applied_mask := ?m\<rparr>)\<rparr>"
    have "loop_inv [?oid] E ?l4"
      using loop_inv_applied [OF inv3, of ?oid ?m] unfolding c3(1) c3(2) by (simp add: held_def)
    then have inv5: "loop_inv [] E (?l4\<lparr>lp_conns := lp_conns ?l4 @ [(cn_fd (lp_objs ?l4 ?oid), ?oid)]\<rparr>)"
      by (rule add_conn_inv) (use fresh room in \<open>simp_all add: c3\<close>)
    have e: "cn_fd (lp_objs ?l4 ?oid) = fd" by (simp add: c3)
    have "loop_view (admit fd peer l) = loop_view (?l4\<lparr>lp_conns := lp_conns ?l4 @ [(fd, ?oid)]\<rparr>)"
      using True r n nokey by (simp add: admit_def next_connection_id_def Let_def epoll_add_def l2_def c_def c3)
    from loop_inv_view [OF this, of "[]" E] inv5 show ?thesis unfolding e by (simp only:)
  qed
qed

lemma reject_send_pool [simp]: "w_pool (reject_send n fd out w) = w_pool w"
  by (induction n arbitrary: out w)
     (auto simp: sys_send_def split: list.split send_event.split)

lemma reject_connection_inv:
  assumes "loop_inv [] E l" "fresh_fd fd [] l"
  shows "loop_inv [] E (reject_connection fd reason l)"
proof -
  let ?w = "lp_world l"
  let ?l = "l\<lparr>lp_world := reject_send 8 fd (serialize_response (fst (http_date_now (w_time ?w) (w_date ?w)))
      (make_error_response 503 reason False)) (?w\<lparr>w_date := snd (http_date_now (w_time ?w) (w_date ?w))\<rparr>)\<rparr>"
  have v: "loop_view ?l = loop_view l" by (rule loop_view_world) simp
  have "loop_inv [] E (loop_close fd ?l)"
    by (rule close_fresh_inv) (use assms loop_inv_view [OF v] fresh_fd_view [OF v] in simp_all)
  moreover have "loop_view (reject_connection fd reason l) = loop_view (loop_close fd ?l)"
    by (simp add: reject_connection_def Let_def split: prod.split)
  ultimately show ?thesis using loop_inv_view by blast
qed

lemma accepted_fd_inv:
  assumes inv: "loop_inv [] E l"
  shows "loop_inv [] E (accepted_fd s peer l)"
proof -
  obtain fd t where o: "sys_open (lp_fds l) = (fd, t)" by fastforce
  note op = sys_open_inv [OF inv o]
  define l1 where "l1 = l\<lparr>lp_fds := t, lp_world := sock_update fd (\<lambda>_. s) (lp_world l)\<rparr>"
  define l2 where "l2 = sys_logged ''setsockopt SO_KEEPALIVE'' ''accepted'' (sys_logged ''setsockopt TCP_NODELAY'' ''accepted'' l1)"
  have v: "loop_view l2 = loop_view (l\<lparr>lp_fds := t\<rparr>)"
    unfolding l2_def l1_def by simp (simp add: loop_view_def)
  have inv2: "loop_inv [] E l2" "fresh_fd fd [] l2" using op loop_inv_view [OF v] fresh_fd_view [OF v] by simp_all
  have "accepted_fd s peer l = (if lp_draining l2 then reject_connection fd ''server is shutting down'' l2
      else if length (lp_conns l2) \<ge> unat (cf_max_connections (lp_cfg l2))
      then reject_connection fd ''connection limit reached'' l2 else admit fd peer l2)"
    by (simp only: accepted_fd_def o Let_def prod.case l1_def [symmetric] l2_def [symmetric])
  with inv2 reject_connection_inv [OF inv2] admit_inv [OF inv2] show ?thesis by simp
qed

lemma accept_iter_inv:
  assumes inv: "loop_inv [] E l" and it: "accept_iter l = (again, l')"
  shows "loop_inv [] E l'"
proof (cases "lp_accept l")
  case Nil
  with inv it show ?thesis by (simp add: accept_iter_def)
next
  case (Cons e es)
  have inv': "loop_inv [] E (l\<lparr>lp_accept := es\<rparr>)" using inv loop_inv_view [of "l\<lparr>lp_accept := es\<rparr>" l] by simp
  show ?thesis
  proof (cases e)
    case (Accept s rc v6 host serv)
    with Cons it accepted_fd_inv [OF inv'] show ?thesis by (auto simp: accept_iter_def)
  next
    case (AcceptErr x)
    with Cons it have "loop_view l' = loop_view l" by (auto simp: accept_iter_def Let_def split: if_splits)
    with inv loop_inv_view show ?thesis by blast
  qed
qed

lemma accept_loop_inv: "loop_inv [] E l \<Longrightarrow> loop_inv [] E (accept_loop n l)"
proof (induction n arbitrary: l)
  case 0
  then show ?case using loop_inv_view [of "l\<lparr>lp_accept_retry := True\<rparr>" l] by simp
next
  case (Suc n)
  obtain again l' where it: "accept_iter l = (again, l')" by fastforce
  from accept_iter_inv [OF Suc.prems it] Suc.IH [of l'] show ?case by (simp add: it)
qed

section \<open>All connections\<close>

lemma fold_with_conn_inv:
  assumes "loop_inv H E l" "\<forall>oid \<in> set oids. held H l oid" "good_handler (lp_cfg l) f"
  shows "loop_inv H E (fold (\<lambda>oid. with_conn oid f) oids l)"
  using assms by (induction oids arbitrary: l) (simp_all add: loop_inv_with_conn)

lemma for_conns_inv: "loop_inv [] E l \<Longrightarrow> good_handler (lp_cfg l) f \<Longrightarrow> loop_inv [] E (for_conns f l)"
  unfolding for_conns_def by (rule fold_with_conn_inv) (auto simp: held_def live_def)

lemma push_finished_view [simp]: "loop_view (push_finished l) = loop_view l"
  by (simp add: push_finished_def)

lemma tick_inv:
  assumes inv: "loop_inv [] E l"
  shows "loop_inv [] E (tick oob l)"
proof -
  obtain now l1 where n: "loop_now l = (now, l1)" by fastforce
  define l2 where "l2 = (if lp_accept_retry l1 then accept_batch (l1\<lparr>lp_accept_retry := False\<rparr>) else l1)"
  have "loop_inv [] E l1" "loop_inv [] E (l1\<lparr>lp_accept_retry := False\<rparr>)"
    using inv loop_inv_view [OF loop_now_view [OF n]] loop_inv_view [of "l1\<lparr>lp_accept_retry := False\<rparr>" l1] by simp_all
  then have "loop_inv [] E l2" by (simp add: l2_def accept_batch_def accept_loop_inv)
  then have "loop_inv [] E (for_conns (on_tick oob (lp_cfg l2) now) l2)" by (rule for_conns_inv [OF _ good_handlers(4)])
  with loop_inv_view [OF push_finished_view] show ?thesis by (simp add: tick_def n Let_def flip: l2_def)
qed

lemma maybe_begin_drain_inv:
  assumes inv: "loop_inv [] E l"
  shows "loop_inv [] E (maybe_begin_drain oob l)"
proof (cases "lp_shutdown_requested l \<and> \<not> lp_draining l")
  case True
  obtain now l1 where n: "loop_now (l\<lparr>lp_draining := True\<rparr>) = (now, l1)" by fastforce
  define l2 where "l2 = log_note (LogDraining (length (lp_conns l1)) (queue_size (w_pool (lp_world l1)))
     (cf_shutdown_timeout_sec (lp_cfg l1))) (l1\<lparr>lp_drain_deadline := now + to_ticks oob (cf_shutdown_timeout_sec (lp_cfg l1))\<rparr>)"
  have "loop_view l2 = loop_view l" using loop_now_view [OF n] by (simp add: l2_def)
  then have "loop_inv [] E l2" using inv loop_inv_view by blast
  then have "loop_inv [] E (for_conns (\<lambda>c w. (begin_draining c, w)) l2)" by (rule for_conns_inv [OF _ good_handlers(5)])
  with True loop_inv_view [OF push_finished_view] show ?thesis
    by (simp add: maybe_begin_drain_def n Let_def l2_def)
qed (use inv in \<open>auto simp: maybe_begin_drain_def\<close>)

lemma close_all_inv:
  assumes "loop_inv [] E l"
  shows "loop_inv [] E (close_all l)"
proof -
  have "loop_inv [] E (for_conns (\<lambda>c w. (conn_kill c, w)) l)" by (rule for_conns_inv [OF assms good_handlers(6)])
  then have "loop_inv [] E ((for_conns (\<lambda>c w. (conn_kill c, w)) l)\<lparr>lp_reap := x\<rparr>)" for x
    using loop_inv_view [of "(for_conns (\<lambda>c w. (conn_kill c, w)) l)\<lparr>lp_reap := x\<rparr>" "for_conns (\<lambda>c w. (conn_kill c, w)) l"] by simp
  then show ?thesis by (simp add: close_all_def Let_def reap_inv)
qed

lemma shutdown_complete_inv:
  assumes inv: "loop_inv [] E l" and sc: "shutdown_complete l = (fin, l')"
  shows "loop_inv [] E l'"
proof -
  have view: "loop_inv [] E l1" if "loop_view l1 = loop_view l" for l1 using inv loop_inv_view [OF that] by simp
  obtain now l1 where n: "loop_now l = (now, l1)" by fastforce
  note v = loop_now_view [OF n]
  have ca: "loop_inv [] E (close_all l1)" if "loop_view l1 = loop_view l" for l1 by (rule close_all_inv [OF view [OF that]])
  show ?thesis
    using sc inv view [OF v] v by (auto simp: shutdown_complete_def n Let_def ca split: if_splits)
qed

section \<open>The loop and the workers\<close>

text \<open>An event for a descriptor that is no connection's: its registration goes.\<close>

lemma epoll_del_unknown_inv:
  assumes inv: "loop_inv [] E l" and None: "map_of (lp_conns l) fd = None"
  shows "loop_inv [] E (snd (epoll_del fd l))"
proof -
  obtain r l' where d: "epoll_del fd l = (r, l')" by fastforce
  from d obtain ep l1 where v: "loop_view l1 = loop_view l" and ep: "\<forall>fd'. fd' \<noteq> fd \<longrightarrow> ep fd' = lp_epoll l fd'"
    and l': "l' = l1\<lparr>lp_epoll := ep\<rparr>" by (rule epoll_del_view)
  have inv1: "loop_inv [] E l1" using inv loop_inv_view [OF v] by simp
  have "fst c \<noteq> fd" if "c \<in> set (lp_conns l)" for c using None that by (auto simp: map_of_eq_None_iff)
  then have reg: "ep (fst c) = Some (cn_applied_mask (lp_objs l1 (snd c)))" if "c \<in> set (lp_conns l1)" for c
    using ep v inv that by (auto simp: loop_view_def loop_inv_def store_inv_def)
  have "store_inv [] l'"
    unfolding l' by (rule store_inv_objs [of "[]" l1])
      (use inv1 reg loop_invD [OF inv1] in \<open>auto simp: loop_inv_def members_def held_def live_def fun_eq_iff\<close>)
  moreover have "ticket_inv [] E l'"
    unfolding l' by (rule ticket_inv_objs [of "[]" E l1])
      (use inv1 in \<open>auto simp: loop_inv_def tickets_def held_def live_def fun_eq_iff\<close>)
  ultimately show ?thesis using d by (simp add: loop_inv_def)
qed

lemma dispatch_inv:
  assumes inv: "loop_inv [] E l"
  shows "loop_inv [] E (dispatch e l)"
proof -
  obtain fd ev where e: "e = (fd, ev)" by fastforce
  show ?thesis
  proof (cases "fd = lp_wake l \<or> fd = lp_sig l \<or> fd = lp_listen l")
    case True
    have "loop_inv [] E (drain_wake l)" "loop_inv [] E (handle_signals l)"
      using inv loop_inv_view [of "drain_wake l" l] loop_inv_view [of "handle_signals l" l]
      by (simp_all add: drain_wake_def handle_signals_def)
    with True inv show ?thesis by (auto simp: dispatch_def e accept_batch_def accept_loop_inv)
  next
    case other: False
    show ?thesis
    proof (cases "map_of (lp_conns l) fd")
      case None
      with other epoll_del_unknown_inv [OF inv None] show ?thesis by (simp add: dispatch_def e)
    next
      case (Some oid)
      have h: "held [] l oid" using map_of_SomeD [OF Some] by (force simp: held_def live_def)
      define l1 where "l1 = (if ev AND EPOLLIN \<noteq> 0 then with_conn oid (on_readable (lp_cfg l)) l else l)"
      define l2 where "l2 = (if cn_alive (lp_objs l1 oid) \<and> ev AND EPOLLOUT \<noteq> 0 then with_conn oid on_writable l1 else l1)"
      have 1: "loop_inv [] E l1" "held [] l1 oid" using inv h loop_inv_with_conn [OF inv h good_handlers(1)] by (auto simp: l1_def)
      have 2: "loop_inv [] E l2" "held [] l2 oid" using 1 loop_inv_with_conn [OF 1 good_handlers(2)] by (auto simp: l2_def)
      have "loop_inv [] E (after_callback oid (with_conn oid (on_hangup ev) l))"
        by (rule after_callback_inv [OF loop_inv_with_conn [OF inv h good_handlers(3)]]) (simp add: h)
      moreover have "loop_inv [] E (after_callback oid l2)" by (rule after_callback_inv [OF 2])
      moreover have "dispatch e l = (if ev AND (EPOLLERR OR EPOLLHUP) \<noteq> 0
          then after_callback oid (with_conn oid (on_hangup ev) l) else after_callback oid l2)"
        using other by (simp only: dispatch_def e Let_def prod.case Some option.case l1_def [symmetric] l2_def [symmetric]) simp
      ultimately show ?thesis by simp
    qed
  qed
qed

lemma cm_ticket_run_job [simp]: "cm_ticket (run_job cfg throws j) = job_ticket j"
  by (simp add: cm_ticket_def job_ticket_def run_job_def Let_def)

text \<open>Moving a ticket from the queue to a worker and from the worker to the completions.\<close>

lemma loop_inv_tickets:
  assumes inv: "loop_inv H E l"
    and same: "lp_conns l' = lp_conns l" "lp_rescan l' = lp_rescan l" "lp_objs l' = lp_objs l" "lp_cfg l' = lp_cfg l"
      "lp_next_obj l' = lp_next_obj l" "lp_fds l' = lp_fds l" "lp_epoll l' = lp_epoll l" "members l' = members l"
    and tk: "tickets l' + E' = tickets l + E"
  shows "loop_inv H E' l'"
proof -
  have h: "held H l' = held H l" by (simp add: fun_eq_iff held_def live_def same)
  have "store_inv H l'" using inv unfolding loop_inv_def store_inv_def obj_ok_def h same by simp
  moreover have "ticket_inv H E' l'" using inv unfolding loop_inv_def ticket_inv_def h same tk by simp
  ultimately show ?thesis by (simp add: loop_inv_def)
qed

lemma loop_wake_inv: "loop_inv H E l \<Longrightarrow> loop_inv H E (wake l)"
  using loop_inv_view [of "wake l" l H E] by (simp add: wake_def)

lemma work_step_inv:
  assumes inv: "loop_inv [] E l"
  shows "loop_inv [] E (work act l)"
proof (cases act)
  case WorkerTake
  show ?thesis
  proof (cases "tp_queue (w_pool (lp_world l))")
    case Nil
    with inv show ?thesis by (simp add: WorkerTake run_section_def)
  next
    case (Cons j js)
    let ?l = "l\<lparr>lp_world := (lp_world l)\<lparr>w_pool := (w_pool (lp_world l))\<lparr>tp_queue := js\<rparr>\<rparr>, lp_running := lp_running l @ [j]\<rparr>"
    have "loop_inv [] E ?l" by (rule loop_inv_tickets [OF inv]) (simp_all add: members_def tickets_def Cons)
    with Cons show ?thesis by (simp add: WorkerTake run_section_def)
  qed
next
  case (WorkerFinish i throws)
  show ?thesis
  proof (cases "i < length (lp_running l)")
    case True
    let ?j = "lp_running l ! i" and ?rest = "take i (lp_running l) @ drop (Suc i) (lp_running l)"
    have "mset (lp_running l) = mset (take i (lp_running l) @ ?j # drop (Suc i) (lp_running l))"
      using True by (simp only: id_take_nth_drop [symmetric])
    then have "mset (lp_running l) = add_mset ?j (mset ?rest)" by simp
    then have "loop_inv [] E (l\<lparr>lp_running := ?rest, lp_completions := lp_completions l @ [run_job (lp_cfg l) throws ?j]\<rparr>)"
      by (intro loop_inv_tickets [OF inv]) (simp_all add: members_def tickets_def)
    with True show ?thesis by (simp add: WorkerFinish post_completion_def loop_wake_inv)
  qed (use inv in \<open>simp add: WorkerFinish\<close>)
qed

end
