(* ===== verification/Event_Loop_Props.thy ===== *)
theory Event_Loop_Props
  imports Event_Loop_Inv
begin

text \<open>
  The server as a machine: any interleaving of the operations of the loop with the actions of the workers
  keeps the invariant and never takes back a shutdown, and a run of the loop is such an interleaving.
\<close>

section \<open>The server as a machine\<close>

text \<open>
  Everything that happens while the server runs, in steps that are atomic for the other threads: the
  operations of the loop and the actions of the workers.
\<close>

datatype server_op = OpEvent "int \<times> u32" | OpCompletions | OpRescans | OpReap | OpBeginDrain | OpTick
  | OpShutdown | OpNow bool | OpWorker worker_act

fun server_step :: "(double \<Rightarrow> int) \<Rightarrow> server_op \<Rightarrow> loop \<Rightarrow> loop" where
  "server_step oob (OpEvent e) l = dispatch e l"
| "server_step oob OpCompletions l = drain_completions l"
| "server_step oob OpRescans l = process_rescans l"
| "server_step oob OpReap l = reap l"
| "server_step oob OpBeginDrain l = maybe_begin_drain oob l"
| "server_step oob OpTick l = tick oob l"
| "server_step oob OpShutdown l = snd (shutdown_complete l)"
| "server_step oob (OpNow ticks) l =
     (case loop_now l of (now, l) \<Rightarrow> if ticks then l\<lparr>lp_last_tick := now\<rparr> else l)"
| "server_step oob (OpWorker act) l = work act l"

lemma server_step_inv:
  assumes inv: "loop_inv [] {#} l"
  shows "loop_inv [] {#} (server_step oob oper l)"
proof (cases oper)
  case OpShutdown
  obtain fin l' where s: "shutdown_complete l = (fin, l')" by fastforce
  from shutdown_complete_inv [OF inv s] show ?thesis by (simp add: OpShutdown s)
next
  case (OpNow ticks)
  obtain now l' where n: "loop_now l = (now, l')" by fastforce
  have "loop_view (l'\<lparr>lp_last_tick := now\<rparr>) = loop_view l" using loop_now_view [OF n] by simp
  with loop_now_view [OF n] inv show ?thesis
    using loop_inv_view [of l' l "[]" "{#}"] loop_inv_view [of "l'\<lparr>lp_last_tick := now\<rparr>" l "[]" "{#}"] by (simp add: OpNow n)
qed (use inv in \<open>simp_all add: dispatch_inv drain_completions_inv process_rescans_inv reap_inv
      maybe_begin_drain_inv tick_inv work_step_inv\<close>)

text \<open>
  The loop itself is such a run: one pass of the loop of \<^verbatim>\<open>run\<close> is a sequence of steps.
\<close>

lemma after_events_steps:
  "\<exists>ops. snd (after_events oob l) = fold (server_step oob) ops l"
proof -
  define l1 where "l1 = maybe_begin_drain oob (reap (process_rescans (drain_completions l)))"
  obtain now l2 where n: "loop_now l1 = (now, l2)" by fastforce
  let ?t = "now - lp_last_tick l2 \<ge> cf_tick_ms (lp_cfg l2) * 1000000"
  let ?ops = "[OpCompletions, OpRescans, OpReap, OpBeginDrain, OpNow ?t] @ (if ?t then [OpTick, OpReap] else []) @ [OpShutdown]"
  have "snd (after_events oob l) = snd (shutdown_complete (if ?t then reap (tick oob (l2\<lparr>lp_last_tick := now\<rparr>)) else l2))"
    by (simp add: after_events_def Let_def n flip: l1_def)
  also have "\<dots> = fold (server_step oob) ?ops l" using n by (simp add: l1_def)
  finally show ?thesis by blast
qed

lemma fold_steps: "fold f (map g xs) s = fold (\<lambda>x. f (g x)) xs s"
  by (simp add: fold_map comp_def)

lemma run_loop_steps:
  assumes "run_loop oob ws l = Some l'"
  shows "\<exists>ops l1. l1 = fold (server_step oob) ops l \<and> loop_view l' = loop_view l1"
  using assms
proof (induction oob ws l rule: run_loop.induct)
  case (2 oob e ws l)
  show ?case
  proof (cases "e = EINTR")
    case False
    with 2 have "loop_view l' = loop_view l" by auto
    then show ?thesis by (intro exI [of _ "[]"]) simp
  qed (use 2 in auto)
next
  case (3 oob acts evs ws l)
  let ?l = "fold dispatch (take kMaxEvents evs) (fold work acts l)"
  let ?ops = "map OpWorker acts @ map OpEvent (take kMaxEvents evs)"
  have "(\<lambda>x. server_step oob (OpEvent x)) = dispatch" "(\<lambda>x. server_step oob (OpWorker x)) = work"
    by (simp_all add: fun_eq_iff)
  then have l: "?l = fold (server_step oob) ?ops l" by (simp add: fold_steps)
  obtain fin l2 where a: "after_events oob ?l = (fin, l2)" by fastforce
  obtain ops where ops: "l2 = fold (server_step oob) ops ?l" using after_events_steps [of oob ?l] a by auto
  then have l2: "l2 = fold (server_step oob) (?ops @ ops) l" by (simp only: l fold_append comp_def)
  show ?case
  proof (cases fin)
    case True
    with 3(2) a have "l' = l2" by simp
    with l2 show ?thesis by blast
  next
    case False
    with 3(2) a have "run_loop oob ws l2 = Some l'" by simp
    from 3(1) [OF a [symmetric] False this] obtain ops' where "loop_view l' = loop_view (fold (server_step oob) ops' l2)" by blast
    with l2 have "loop_view l' = loop_view (fold (server_step oob) ((?ops @ ops) @ ops') l)" by (simp only: fold_append comp_def)
    then show ?thesis by blast
  qed
qed simp

text \<open>
  What no step takes back: the configuration stays, object numbers are not used again, and a server that
  drains keeps draining and admits nobody.
\<close>

definition moves :: "loop \<Rightarrow> loop \<Rightarrow> bool" where
  "moves l l' = (lp_cfg l' = lp_cfg l \<and> lp_next_obj l \<le> lp_next_obj l' \<and>
     (lp_draining l \<longrightarrow> lp_draining l' \<and> set (lp_conns l') \<subseteq> set (lp_conns l)))"

lemma moves_refl [simp]: "moves l l"
  by (simp add: moves_def)

lemma moves_trans: "moves l l' \<Longrightarrow> moves l' l'' \<Longrightarrow> moves l l''"
  by (auto simp: moves_def)

lemma moves_fold: "(\<And>x l. moves l (f x l)) \<Longrightarrow> moves l (fold f xs l)"
  by (induction xs arbitrary: l) (auto intro: moves_trans)

text \<open>Most operations leave these fields alone.\<close>

definition still :: "loop \<Rightarrow> loop \<Rightarrow> bool" where
  "still l l' = (lp_cfg l' = lp_cfg l \<and> lp_next_obj l' = lp_next_obj l \<and> lp_draining l' = lp_draining l \<and> lp_conns l' = lp_conns l)"

lemma still_moves: "still l l' \<Longrightarrow> moves l l'"
  by (simp add: still_def moves_def)

lemma still_refl [simp]: "still l l" "still l (l\<lparr>lp_reap := x\<rparr>)"
  by (simp_all add: still_def)

lemma still_trans: "still l l' \<Longrightarrow> still l' l'' \<Longrightarrow> still l l''"
  by (simp add: still_def)

lemma still_fold: "(\<And>x l. still l (f x l)) \<Longrightarrow> still l (fold f xs l)"
proof (induction xs arbitrary: l)
  case (Cons x xs)
  have "still (f x l) (fold f xs (f x l))" by (rule Cons.IH) (rule Cons.prems)
  with Cons.prems [of l x] show ?case by (auto intro: still_trans)
qed (simp add: still_def)

lemma still_simps [simp]:
  "still l (with_conn oid f l)" "still l (note_io what peer e l)" "still l (log_note en l)" "still l (snd (loop_now l))"
  "still l (snd (sys_result l))" "still l (destroy oid l)" "still l (loop_close fd l)" "still l (push_finished l)"
  by (simp_all add: still_def with_conn_def note_io_def log_note_def loop_now_def sys_result_def destroy_def loop_close_def
      push_finished_def split: prod.split list.split)

lemma still_set_interest [simp]: "still l (set_interest oid l)"
  by (simp add: set_interest_def epoll_mod_def sys_result_def note_io_def Let_def still_def split: list.split)

lemma still_after_callback [simp]: "still l (after_callback oid l)"
  by (simp add: after_callback_def Let_def)

lemma still_deliver [simp]: "still l (deliver cm l)"
  by (simp add: deliver_def still_trans [OF still_simps(1) still_after_callback])

lemma still_drain_completions: "still l (drain_completions l)"
  unfolding drain_completions_def
  by (rule still_trans [OF _ still_fold [OF still_deliver]]) (simp add: still_def)

lemma still_rescan_one: "still l (rescan_one oid l)"
  by (simp add: rescan_one_def Let_def still_trans [OF still_simps(1) still_after_callback])

lemma still_process_rescans: "still l (process_rescans l)"
proof -
  let ?l = "fold rescan_one (lp_rescan l) (l\<lparr>lp_rescan := []\<rparr>)"
  have "still (l\<lparr>lp_rescan := []\<rparr>) ?l" by (rule still_fold) (rule still_rescan_one)
  moreover have "still ?l (drop_refs (lp_rescan l) ?l)" unfolding drop_refs_def by (rule still_fold) simp
  ultimately show ?thesis by (simp add: process_rescans_def Let_def still_def)
qed

lemma epoll_del_frames:
  "epoll_del fd l = (r, l') \<Longrightarrow> still l l' \<and> lp_objs l' = lp_objs l"
  by (auto simp: epoll_del_def sys_result_def still_def split: list.splits if_splits)

lemma reap_one_conns:
  "lp_conns (reap_one fd l) = filter (\<lambda>e. fst e \<noteq> fd) (lp_conns l) \<and> lp_cfg (reap_one fd l) = lp_cfg l \<and>
     lp_next_obj (reap_one fd l) = lp_next_obj l \<and> lp_draining (reap_one fd l) = lp_draining l"
proof (cases "map_of (lp_conns l) fd")
  case None
  then have "filter (\<lambda>e. fst e \<noteq> fd) (lp_conns l) = lp_conns l" by (force simp: map_of_eq_None_iff filter_id_conv)
  with None show ?thesis by (simp add: reap_one_def)
next
  case (Some oid)
  obtain r l' where d: "epoll_del fd l = (r, l')" by fastforce
  with epoll_del_frames [OF d] Some show ?thesis
    by (simp add: reap_one_def Let_def still_def note_io_def log_note_def destroy_def loop_close_def)
qed

lemma fold_reap_conns:
  "lp_conns (fold reap_one fds l) = filter (\<lambda>e. fst e \<notin> set fds) (lp_conns l) \<and> lp_cfg (fold reap_one fds l) = lp_cfg l \<and>
     lp_next_obj (fold reap_one fds l) = lp_next_obj l \<and> lp_draining (fold reap_one fds l) = lp_draining l"
  by (induction fds arbitrary: l) (simp_all add: reap_one_conns conj_commute)

lemma reap_conns:
  "lp_conns (reap l) = filter (\<lambda>e. fst e \<notin> set (lp_reap l)) (lp_conns l)" "moves l (reap l)"
  by (simp_all add: reap_def fold_reap_conns moves_def)

lemma still_accept_calls: "still l (sys_logged what peer l)"
  by (simp add: sys_logged_def sys_result_def note_io_def still_def split: list.split)

lemma moves_admit:
  assumes "\<not> lp_draining l"
  shows "moves l (admit fd peer l)"
proof -
  obtain now w where n: "clock_now (lp_world l) = (now, w)" by fastforce
  show ?thesis using assms
    by (simp add: admit_def next_connection_id_def loop_now_def n epoll_add_def sys_result_def note_io_def log_note_def
        destroy_def loop_close_def moves_def Let_def split: list.split)
qed

lemma moves_reject: "moves l (reject_connection fd reason l)"
  by (simp add: reject_connection_def loop_close_def moves_def Let_def split: prod.split)

lemma moves_accepted_fd: "moves l (accepted_fd s peer l)"
proof -
  obtain fd t where o: "sys_open (lp_fds l) = (fd, t)" by fastforce
  define l1 where "l1 = l\<lparr>lp_fds := t, lp_world := sock_update fd (\<lambda>_. s) (lp_world l)\<rparr>"
  define l2 where "l2 = sys_logged ''setsockopt SO_KEEPALIVE'' ''accepted'' (sys_logged ''setsockopt TCP_NODELAY'' ''accepted'' l1)"
  have "still l l1" by (simp add: l1_def still_def)
  then have m: "moves l l2" unfolding l2_def by (intro still_moves) (blast intro: still_trans still_accept_calls)
  have "accepted_fd s peer l = (if lp_draining l2 then reject_connection fd ''server is shutting down'' l2
      else if length (lp_conns l2) \<ge> unat (cf_max_connections (lp_cfg l2))
      then reject_connection fd ''connection limit reached'' l2 else admit fd peer l2)"
    by (simp only: accepted_fd_def o Let_def prod.case l1_def [symmetric] l2_def [symmetric])
  with moves_trans [OF m moves_reject] moves_trans [OF m moves_admit] show ?thesis by simp
qed

lemma moves_accept_iter: "moves l (snd (accept_iter l))"
proof (cases "lp_accept l")
  case (Cons e es)
  have "moves l (l\<lparr>lp_accept := es\<rparr>)" by (simp add: moves_def)
  with Cons show ?thesis
    by (cases e) (auto simp: accept_iter_def Let_def intro: moves_trans [OF _ moves_accepted_fd],
        auto simp: moves_def note_io_def)
qed (simp add: accept_iter_def)

lemma moves_accept_loop: "moves l (accept_loop n l)"
proof (induction n arbitrary: l)
  case (Suc n)
  obtain again l' where it: "accept_iter l = (again, l')" by fastforce
  with moves_accept_iter [of l] Suc.IH [of l'] show ?case by (auto intro: moves_trans)
qed (simp add: moves_def)

lemma still_for_conns: "still l (for_conns f l)"
  unfolding for_conns_def by (rule still_fold) simp

lemma moves_tick: "moves l (tick oob l)"
proof -
  obtain now l1 where n: "loop_now l = (now, l1)" by fastforce
  define l2 where "l2 = (if lp_accept_retry l1 then accept_batch (l1\<lparr>lp_accept_retry := False\<rparr>) else l1)"
  have "still l l1" using still_simps(4) [of l] n by simp
  moreover have "moves l1 (l1\<lparr>lp_accept_retry := False\<rparr>)" by (simp add: moves_def)
  then have "moves l1 l2"
    using moves_accept_loop [of "l1\<lparr>lp_accept_retry := False\<rparr>" kAcceptBatch] by (auto simp: l2_def accept_batch_def intro: moves_trans)
  moreover have "still l2 (push_finished (for_conns (on_tick oob (lp_cfg l2) now) l2))"
    by (rule still_trans [OF still_for_conns still_simps(8)])
  moreover have "tick oob l = push_finished (for_conns (on_tick oob (lp_cfg l2) now) l2)"
    by (simp only: tick_def n Let_def prod.case l2_def [symmetric])
  ultimately show ?thesis by (metis still_moves moves_trans)
qed

lemma moves_maybe_begin_drain: "moves l (maybe_begin_drain oob l)"
proof (cases "lp_shutdown_requested l \<and> \<not> lp_draining l")
  case True
  obtain now l1 where n: "loop_now (l\<lparr>lp_draining := True\<rparr>) = (now, l1)" by fastforce
  define l2 where "l2 = log_note (LogDraining (length (lp_conns l1)) (queue_size (w_pool (lp_world l1)))
     (cf_shutdown_timeout_sec (lp_cfg l1))) (l1\<lparr>lp_drain_deadline := now + to_ticks oob (cf_shutdown_timeout_sec (lp_cfg l1))\<rparr>)"
  have "still (l\<lparr>lp_draining := True\<rparr>) l1" using still_simps(4) [of "l\<lparr>lp_draining := True\<rparr>"] n by simp
  then have "still (l\<lparr>lp_draining := True\<rparr>) l2" by (simp add: l2_def still_def log_note_def)
  moreover have "still l2 (push_finished (for_conns (\<lambda>c w. (begin_draining c, w)) l2))"
    by (rule still_trans [OF still_for_conns still_simps(8)])
  moreover have "maybe_begin_drain oob l = push_finished (for_conns (\<lambda>c w. (begin_draining c, w)) l2)"
    using True by (simp add: maybe_begin_drain_def n Let_def l2_def)
  ultimately show ?thesis using True by (simp add: moves_def still_def)
qed (auto simp: maybe_begin_drain_def)

lemma close_all_conns: "lp_conns (close_all l) = []" "moves l (close_all l)"
proof -
  let ?l = "for_conns (\<lambda>c w. (conn_kill c, w)) l"
  have s: "still l ?l" by (rule still_for_conns)
  show "lp_conns (close_all l) = []" by (auto simp: close_all_def Let_def reap_conns filter_empty_conv)
  have "moves l (?l\<lparr>lp_reap := x\<rparr>)" for x using s by (simp add: still_def moves_def)
  then show "moves l (close_all l)" unfolding close_all_def Let_def by (rule moves_trans [OF _ reap_conns(2)])
qed

lemma moves_shutdown_complete: "moves l (snd (shutdown_complete l))"
proof -
  obtain now l1 where n: "loop_now l = (now, l1)" by fastforce
  have s: "still l l1" using still_simps(4) [of l] n by simp
  have "moves l (close_all (l\<lparr>lp_forced_shutdown := True\<rparr>))"
    by (rule moves_trans [OF _ close_all_conns(2)]) (simp add: moves_def)
  moreover have "moves l (close_all ((log_note (LogForcing (length (lp_conns l1))) l1)\<lparr>lp_exit_code := 0, lp_forced_shutdown := True\<rparr>))"
    by (rule moves_trans [OF _ close_all_conns(2)]) (use s in \<open>simp add: moves_def still_def log_note_def\<close>)
  ultimately show ?thesis using still_moves [OF s] by (simp add: shutdown_complete_def n)
qed

lemma still_wake_loop: "still l (wake_loop es l)"
  by (induction es l rule: wake_loop.induct) (auto simp: still_def)

lemma still_drain_wake_loop: "still l (drain_wake_loop es l)"
  by (induction es l rule: drain_wake_loop.induct) (auto simp: still_def)

lemma still_signal_loop: "still l (signal_loop es l)"
proof (induction es l rule: signal_loop.induct)
  case (2 signo es l)
  have "still l (on_signal signo l)" by (simp add: on_signal_def still_def log_note_def)
  with 2 show ?case by (auto intro: still_trans)
qed (auto simp: still_def)

lemma moves_dispatch: "moves l (dispatch e l)"
proof -
  obtain fd ev where e: "e = (fd, ev)" by fastforce
  have special: "moves l (drain_wake l)" "moves l (handle_signals l)" "moves l (accept_batch l)"
    by (simp_all add: drain_wake_def handle_signals_def accept_batch_def still_moves still_drain_wake_loop still_signal_loop
        moves_accept_loop)
  have cb: "still l (after_callback oid (with_conn oid f l))" for oid f
    by (rule still_trans [OF still_simps(1) still_after_callback])
  have cb2: "still l (after_callback oid (with_conn oid g (with_conn oid f l)))" for oid f g
    by (rule still_trans [OF still_simps(1) still_trans [OF still_simps(1) still_after_callback]])
  have "still l (snd (epoll_del fd l))" using epoll_del_frames [of fd l] by (cases "epoll_del fd l") simp
  with special cb cb2 show ?thesis
    by (simp add: dispatch_def e Let_def still_moves split: option.split)
qed

lemma moves_work: "moves l (work act l)"
proof (cases act)
  case WorkerTake
  then show ?thesis by (simp add: moves_def split: prod.split taken.split)
next
  case (WorkerFinish i throws)
  let ?l = "l\<lparr>lp_running := take i (lp_running l) @ drop (Suc i) (lp_running l),
    lp_completions := lp_completions l @ [run_job (lp_cfg l) throws (lp_running l ! i)]\<rparr>"
  have "still ?l (wake ?l)" by (simp add: wake_def still_wake_loop)
  then show ?thesis by (simp add: WorkerFinish post_completion_def moves_def still_def)
qed

lemma server_step_moves: "moves l (server_step oob oper l)"
proof (cases oper)
  case (OpNow ticks)
  then show ?thesis using still_simps(4) [of l] by (auto simp: moves_def still_def split: prod.split)
qed (simp_all add: moves_dispatch moves_work still_moves still_drain_completions still_process_rescans reap_conns(2)
    moves_maybe_begin_drain moves_tick moves_shutdown_complete)

interpretation sm: guarded_machine "server_step oob" "loop_inv [] {#}" moves for oob
  by unfold_locales (auto simp: server_step_inv server_step_moves intro: moves_trans)

end
