(* ===== verification/Event_Loop_Run.thy ===== *)
theory Event_Loop_Run
  imports Event_Loop_Props
begin

text \<open>
  The whole run: setup establishes the invariant, the loop keeps it, and at the end every connection has
  been closed.
\<close>

section \<open>Start\<close>

text \<open>A member that owns nothing is given a descriptor that has just been opened.\<close>

lemma assign_member_inv:
  assumes inv: "loop_inv [] E l" and new: "fresh_fd fd [] l"
    and l': "loop_view l' = loop_view (l\<lparr>lp_epfd := a, lp_listen := b, lp_wake := c, lp_sig := d\<rparr>)"
    and mem: "{a, b, c, d} \<subseteq> insert fd (members l)"
  shows "loop_inv [] E l'"
proof -
  let ?l = "l\<lparr>lp_epfd := a, lp_listen := b, lp_wake := c, lp_sig := d\<rparr>"
  have h: "held [] ?l = held [] l" "tickets ?l = tickets l" by (simp_all add: held_def live_def tickets_def fun_eq_iff)
  have m: "members ?l \<subseteq> insert fd (members l)" using mem by (simp add: members_def)
  have "obj_ok ?l oid" if "held [] l oid" for oid
    using loop_invD(1) [OF inv that] new that m by (auto simp: obj_ok_def Let_def fresh_fd_def)
  then have "store_inv [] ?l" using inv m new unfolding loop_inv_def store_inv_def h fresh_fd_def by auto
  moreover have "ticket_inv [] E ?l" using inv unfolding loop_inv_def ticket_inv_def h by simp
  ultimately have "loop_inv [] E ?l" by (simp add: loop_inv_def)
  then show ?thesis using loop_inv_view [OF l'] by simp
qed

lemma sys_new_fd_cases:
  assumes inv: "loop_inv [] E l"
  obtains (err) e l1 where "sys_new_fd l = (Inl e, l1)" "loop_inv [] E l1" "members l1 = members l"
    "lp_epfd l1 = lp_epfd l" "lp_listen l1 = lp_listen l" "lp_wake l1 = lp_wake l" "lp_sig l1 = lp_sig l" "lp_conns l1 = lp_conns l"
  | (fd) fd l1 where "sys_new_fd l = (Inr fd, l1)" "loop_inv [] E l1" "fresh_fd fd [] l1"
    "lp_epfd l1 = lp_epfd l" "lp_listen l1 = lp_listen l" "lp_wake l1 = lp_wake l" "lp_sig l1 = lp_sig l" "lp_conns l1 = lp_conns l"
proof -
  obtain r l1 where r: "sys_result l = (r, l1)" by fastforce
  note v = sys_result_view [OF r]
  have inv1: "loop_inv [] E l1" using inv loop_inv_view [OF v] by simp
  have same: "members l1 = members l" "lp_epfd l1 = lp_epfd l" "lp_listen l1 = lp_listen l" "lp_wake l1 = lp_wake l"
    "lp_sig l1 = lp_sig l" "lp_conns l1 = lp_conns l"
    using v by (simp_all add: loop_view_def members_def)
  show thesis
  proof (cases "r = 0")
    case False
    with r inv1 same show ?thesis by (intro err [of r l1]) (simp_all add: sys_new_fd_def)
  next
    case True
    obtain fd t where o: "sys_open (lp_fds l1) = (fd, t)" by fastforce
    from sys_open_inv [OF inv1 o] True r o same show ?thesis
      by (intro fd [of fd "l1\<lparr>lp_fds := t\<rparr>"]) (simp_all add: sys_new_fd_def)
  qed
qed

text \<open>Registering a descriptor that is not a connection's.\<close>

lemma epoll_add_inv:
  assumes inv: "loop_inv [] E l" and other: "fd \<notin> fst ` set (lp_conns l)" and add: "epoll_add fd m l = (r, l')"
  shows "loop_inv [] E l'" "members l' = members l" "fresh_fd fd' [] l' = fresh_fd fd' [] l" "lp_conns l' = lp_conns l"
    "lp_epfd l' = lp_epfd l" "lp_listen l' = lp_listen l" "lp_wake l' = lp_wake l" "lp_sig l' = lp_sig l"
proof -
  obtain r1 l1 where r: "sys_result l = (r1, l1)" by fastforce
  note v = sys_result_view [OF r]
  have inv1: "loop_inv [] E l1" using inv loop_inv_view [OF v] by simp
  let ?l = "l1\<lparr>lp_epoll := (lp_epoll l1)(fd \<mapsto> m)\<rparr>"
  have h: "held [] ?l = held [] l1" by (simp add: held_def live_def fun_eq_iff)
  have c1: "lp_conns l1 = lp_conns l" using v by (simp add: loop_view_def)
  have reg: "lp_epoll ?l (fst c) = Some (cn_applied_mask (lp_objs ?l (snd c)))" if c: "c \<in> set (lp_conns l1)" for c
  proof -
    have "fst c \<noteq> fd" using other c c1 by force
    with inv1 c show ?thesis by (simp add: loop_inv_def store_inv_def)
  qed
  have "store_inv [] ?l"
    by (rule store_inv_objs [of "[]" l1]) (use inv1 loop_invD [OF inv1] h reg in \<open>auto simp: loop_inv_def members_def\<close>)
  moreover have "ticket_inv [] E ?l"
    by (rule ticket_inv_objs [of "[]" E l1]) (use inv1 h in \<open>auto simp: loop_inv_def tickets_def\<close>)
  ultimately show "loop_inv [] E l'" using add r inv1 by (auto simp: epoll_add_def loop_inv_def)
  have f1: "fresh_fd fd' [] l1 = fresh_fd fd' [] l" by (rule fresh_fd_view [OF v])
  have f2: "fresh_fd fd' [] ?l = fresh_fd fd' [] l1" unfolding fresh_fd_def h by (simp add: members_def)
  show "fresh_fd fd' [] l' = fresh_fd fd' [] l" using add r f1 f2 by (cases "r1 = 0") (auto simp: epoll_add_def)
  show "members l' = members l" "lp_conns l' = lp_conns l"
    "lp_epfd l' = lp_epfd l" "lp_listen l' = lp_listen l" "lp_wake l' = lp_wake l" "lp_sig l' = lp_sig l"
    using add r v by (cases "r1 = 0"; auto simp: epoll_add_def loop_view_def members_def)+
qed

text \<open>Before the first connection: no objects, and the members are set up one after the other.\<close>

definition starting :: "loop \<Rightarrow> bool" where
  "starting l = (loop_inv [] {#} l \<and> lp_conns l = [])"

lemma starting_view: "loop_view l' = loop_view l \<Longrightarrow> starting l' = starting l"
  using loop_inv_view [of l' l "[]" "{#}"] by (simp add: starting_def loop_view_def)

lemma starting_simps [simp]:
  "starting (note_io what peer e l) = starting l" "starting (log_note en l) = starting l"
  "starting (l\<lparr>lp_files := fs\<rparr>) = starting l" "starting (l\<lparr>lp_exit_code := i\<rparr>) = starting l"
  "starting (l\<lparr>lp_last_tick := i\<rparr>) = starting l"
  by (rule starting_view, simp)+

text \<open>What setup keeps: the state stays in order, the new descriptor fresh, the other members as they were.\<close>

definition mem4 :: "loop \<Rightarrow> int \<times> int \<times> int \<times> int" where
  "mem4 l = (lp_epfd l, lp_listen l, lp_wake l, lp_sig l)"

definition setting_up :: "int option \<Rightarrow> loop \<Rightarrow> loop \<Rightarrow> bool" where
  "setting_up fd l l' = (starting l' \<and> mem4 l' = mem4 l \<and> (\<forall>x. fd = Some x \<longrightarrow> fresh_fd x [] l'))"

lemma setting_up_view:
  assumes "loop_view l2 = loop_view l1"
  shows "setting_up fd l l2 = setting_up fd l l1"
proof -
  have "mem4 l2 = mem4 l1" using assms by (simp add: loop_view_def mem4_def)
  with loop_inv_view [OF assms, of "[]" "{#}"] fresh_fd_view [OF assms] assms show ?thesis
    by (simp add: setting_up_def starting_def) (simp add: loop_view_def)
qed

lemma setting_up_simps [simp]:
  "setting_up fd l (note_io what peer e l1) = setting_up fd l l1" "setting_up fd l (log_note en l1) = setting_up fd l l1"
  "setting_up fd l (l1\<lparr>lp_bound_port := p\<rparr>) = setting_up fd l l1" "setting_up fd l (l1\<lparr>lp_files := fs\<rparr>) = setting_up fd l l1"
  "setting_up fd l (sys_logged what peer l1) = setting_up fd l l1"
  by (rule setting_up_view, simp)+

lemma setting_up_result: "setting_up fd l l1 \<Longrightarrow> sys_result l1 = (r, l2) \<Longrightarrow> setting_up fd l l2"
  using setting_up_view [OF sys_result_view] by blast

lemma setting_up_close: "setting_up (Some fd) l l1 \<Longrightarrow> setting_up None l (loop_close fd l1)"
  by (auto simp: setting_up_def starting_def close_fresh_inv) (simp_all add: loop_close_def mem4_def)

lemma setting_up_forget: "setting_up fd l l1 \<Longrightarrow> setting_up None l l1"
  by (simp add: setting_up_def)

lemma setting_up_new_fd:
  assumes "setting_up None l l1"
  shows "case sys_new_fd l1 of (Inl e, l2) \<Rightarrow> setting_up None l l2 | (Inr fd, l2) \<Rightarrow> setting_up (Some fd) l l2"
proof -
  have "loop_inv [] {#} l1" using assms by (simp add: setting_up_def starting_def)
  then show ?thesis
    by (cases rule: sys_new_fd_cases) (use assms in \<open>auto simp: setting_up_def starting_def mem4_def\<close>)
qed

lemma setting_up_add: "setting_up x l l1 \<Longrightarrow> epoll_add fd m l1 = (r, l2) \<Longrightarrow> setting_up x l l2"
  using epoll_add_inv [of "{#}" l1 fd m r l2] by (auto simp: setting_up_def starting_def mem4_def)

text \<open>Assignment to a member that owns nothing.\<close>

lemma setting_up_assign:
  assumes su: "setting_up (Some fd) l l1"
    and l2: "l2 = l1\<lparr>lp_wake := fd\<rparr> \<or> l2 = l1\<lparr>lp_sig := fd\<rparr> \<or> l2 = l1\<lparr>lp_listen := fd\<rparr> \<or> l2 = l1\<lparr>lp_epfd := fd\<rparr>"
  shows "starting l2"
proof -
  have inv: "loop_inv [] {#} l1" "fresh_fd fd [] l1" "lp_conns l1 = []" using su by (simp_all add: setting_up_def starting_def)
  have "loop_view l2 = loop_view (l1\<lparr>lp_epfd := lp_epfd l2, lp_listen := lp_listen l2, lp_wake := lp_wake l2, lp_sig := lp_sig l2\<rparr>)"
    using l2 by (auto simp: loop_view_def)
  moreover have "{lp_epfd l2, lp_listen l2, lp_wake l2, lp_sig l2} \<subseteq> insert fd (members l1)"
    using l2 by (auto simp: members_def)
  ultimately have "loop_inv [] {#} l2" by (rule assign_member_inv [OF inv(1,2)])
  with l2 inv(3) show ?thesis by (auto simp: starting_def)
qed

lemma starting_setting_up: "starting l \<Longrightarrow> setting_up None l l"
  by (simp add: setting_up_def)

lemma setup_wake_inv:
  assumes st: "starting l" and free: "lp_wake l = - 1" and s: "setup_wake l = (ok, l')"
  shows "starting l' \<and> lp_sig l' = lp_sig l \<and> lp_listen l' = lp_listen l"
proof -
  obtain x l1 where n: "sys_new_fd l = (x, l1)" by fastforce
  note su = setting_up_new_fd [OF starting_setting_up [OF st]]
  show ?thesis
  proof (cases x)
    case (Inl e)
    with su n have "setting_up None l (note_io ''eventfd'' ''startup'' e l1)" by simp
    with Inl n s show ?thesis by (auto simp: setup_wake_def setting_up_def mem4_def)
  next
    case (Inr fd)
    with su n have su1: "setting_up (Some fd) l l1" by simp
    let ?l = "l1\<lparr>lp_wake := fd\<rparr>"
    obtain r l2 where a: "epoll_add fd EPOLLIN ?l = (r, l2)" by fastforce
    have "starting ?l" by (rule setting_up_assign [OF su1]) simp
    from setting_up_add [OF starting_setting_up [OF this] a] have su2: "setting_up None ?l l2" .
    then have "setting_up None ?l (note_io ''epoll_ctl ADD wake'' ''startup'' r l2)" by simp
    moreover have "lp_wake l1 = - 1" "lp_sig l1 = lp_sig l" "lp_listen l1 = lp_listen l"
      using su1 free by (simp_all add: setting_up_def mem4_def)
    ultimately show ?thesis using s n Inr a su2
      by (auto simp: setup_wake_def assign_fd_def setting_up_def mem4_def split: if_splits)
  qed
qed

lemma setup_signals_inv:
  assumes st: "starting l" and free: "lp_sig l = - 1" and s: "setup_signals l = (ok, l')"
  shows "starting l' \<and> lp_listen l' = lp_listen l"
proof -
  obtain x l1 where n: "sys_new_fd l = (x, l1)" by fastforce
  note su = setting_up_new_fd [OF starting_setting_up [OF st]]
  show ?thesis
  proof (cases x)
    case (Inl e)
    with su n have "setting_up None l (note_io ''signalfd'' ''startup'' e l1)" by simp
    with Inl n s show ?thesis by (auto simp: setup_signals_def setting_up_def mem4_def)
  next
    case (Inr fd)
    with su n have su1: "setting_up (Some fd) l l1" by simp
    let ?l = "l1\<lparr>lp_sig := fd\<rparr>"
    obtain r l2 where a: "epoll_add fd (EPOLLIN OR EPOLLET) ?l = (r, l2)" by fastforce
    have "starting ?l" by (rule setting_up_assign [OF su1]) simp
    from setting_up_add [OF starting_setting_up [OF this] a] have su2: "setting_up None ?l l2" .
    then have "setting_up None ?l (note_io ''epoll_ctl ADD signal'' ''startup'' r l2)" by simp
    moreover have "lp_sig l1 = - 1" "lp_listen l1 = lp_listen l" using su1 free by (simp_all add: setting_up_def mem4_def)
    ultimately show ?thesis using s n Inr a su2
      by (auto simp: setup_signals_def assign_fd_def setting_up_def mem4_def split: if_splits)
  qed
qed

lemma write_port_file_inv:
  assumes "starting l"
  shows "starting (write_port_file port l)"
proof -
  obtain x l1 where n: "sys_new_fd l = (x, l1)" by fastforce
  note su = setting_up_new_fd [OF starting_setting_up [OF assms]]
  show ?thesis
  proof (cases x)
    case (Inl e)
    with su n have "setting_up None l (note_io ''open port file'' (cf_port_file (lp_cfg l)) e l1)" by simp
    with Inl n show ?thesis by (simp add: write_port_file_def Let_def setting_up_def)
  next
    case (Inr fd)
    with su n have su1: "setting_up (Some fd) l l1" by simp
    obtain rc l2 where r: "sys_result l1 = (rc, l2)" by fastforce
    have su2: "setting_up (Some fd) l (l2\<lparr>lp_files := fs\<rparr>)" for fs using setting_up_result [OF su1 r] by simp
    have su3: "setting_up None l (loop_close fd (l2\<lparr>lp_files := fs\<rparr>))" for fs by (rule setting_up_close [OF su2])
    then have su4: "starting l4" if "sys_result (loop_close fd (l2\<lparr>lp_files := fs\<rparr>)) = (q, l4)" for fs q l4
      using setting_up_result [OF su3 that] by (simp add: setting_up_def)
    show ?thesis
      using n Inr r su3 su4
      by (auto simp: write_port_file_def Let_def setting_up_def split: prod.split)
  qed
qed

lemma listener_bind_inv:
  assumes su: "setting_up (Some fd) l l1" and lb: "listener_bind v6 fd l1 = (ok, l2)"
  shows "setting_up (if ok then Some fd else None) l l2"
proof -
  obtain r1 k1 where 1: "sys_result l1 = (r1, k1)" by fastforce
  obtain r2 k2 where 2: "sys_result k1 = (r2, k2)" by fastforce
  obtain r3 k3 where 3: "sys_result k2 = (r3, k3)" by fastforce
  have s1: "setting_up (Some fd) l k1" by (rule setting_up_result [OF su 1])
  have s2: "setting_up (Some fd) l k2" by (rule setting_up_result [OF s1 2])
  have s3: "setting_up (Some fd) l k3" by (rule setting_up_result [OF s2 3])
  have io: "setting_up None l (loop_close fd (note_io a b e k))" "setting_up None l (loop_close fd (log_note en k))"
    if "setting_up (Some fd) l k" for a b e en k
    using that by (auto intro!: setting_up_close)
  show ?thesis using lb io [OF s1] io [OF s2] io [OF s3] s3
    by (auto simp: listener_bind_def 1 2 3 Let_def split: if_splits)
qed

text \<open>The ways through \<^verbatim>\<open>setup_listener\<close>.\<close>

definition listener_opts :: "config \<Rightarrow> loop \<Rightarrow> loop" where
  "listener_opts cfg l =
     (let k = sys_logged ''setsockopt SO_REUSEADDR'' (cf_bind cfg) l
      in if CHR '':'' \<in> set (cf_bind cfg) then sys_logged ''setsockopt IPV6_V6ONLY (staying dual-stack)'' (cf_bind cfg) k else k)"

definition note_port :: "int \<Rightarrow> loop \<Rightarrow> loop" where
  "note_port r l =
     (if r = 0 then l\<lparr>lp_bound_port := (if cf_port (lp_cfg l) = 0 then lp_ephemeral l else cf_port (lp_cfg l))\<rparr> else l)"

lemma setup_listenerE:
  assumes "setup_listener l = (ok, l')"
  obtains (no_socket) e l1 where "sys_new_fd l = (Inl e, l1)" "l' = note_io ''socket'' (cf_bind (lp_cfg l)) e l1"
  | (unbound) fd l1 v6 where "sys_new_fd l = (Inr fd, l1)" "listener_bind v6 fd (listener_opts (lp_cfg l) l1) = (False, l')"
  | (unwatched) fd l1 v6 l2 r l3 q l4 where "sys_new_fd l = (Inr fd, l1)" "listener_bind v6 fd (listener_opts (lp_cfg l) l1) = (True, l2)"
    "sys_result l2 = (r, l3)" "epoll_add fd (EPOLLIN OR EPOLLET) (note_port r l3) = (q, l4)"
    "l' = loop_close fd (note_io ''epoll_ctl ADD listener'' (cf_bind (lp_cfg l)) q l4)"
  | (listening) fd l1 v6 l2 r l3 q l4 l5 en where "sys_new_fd l = (Inr fd, l1)" "listener_bind v6 fd (listener_opts (lp_cfg l) l1) = (True, l2)"
    "sys_result l2 = (r, l3)" "epoll_add fd (EPOLLIN OR EPOLLET) (note_port r l3) = (q, l4)"
    "l5 = assign_fd lp_listen_update (lp_listen l4) fd l4"
    "l' = log_note en (if cf_port_file (lp_cfg l5) \<noteq> [] then write_port_file (lp_bound_port l5) l5 else l5)"
proof -
  let ?v6 = "CHR '':'' \<in> set (cf_bind (lp_cfg l))"
  obtain x l1 where n: "sys_new_fd l = (x, l1)" by fastforce
  show thesis
  proof (cases x)
    case (Inl e)
    with n assms no_socket show ?thesis by (auto simp: setup_listener_def Let_def)
  next
    case (Inr fd)
    obtain bnd l2 where b: "listener_bind ?v6 fd (listener_opts (lp_cfg l) l1) = (bnd, l2)" by fastforce
    obtain r l3 where r: "sys_result l2 = (r, l3)" by fastforce
    obtain q l4 where q: "epoll_add fd (EPOLLIN OR EPOLLET) (note_port r l3) = (q, l4)" by fastforce
    have "setup_listener l = (if \<not> bnd then (False, l2)
      else if q \<noteq> 0 then (False, loop_close fd (note_io ''epoll_ctl ADD listener'' (cf_bind (lp_cfg l)) q l4))
      else let l5 = assign_fd lp_listen_update (lp_listen l4) fd l4;
               l6 = (if cf_port_file (lp_cfg l5) \<noteq> [] then write_port_file (lp_bound_port l5) l5 else l5)
           in (True, log_note (LogListening (cf_bind (lp_cfg l)) (lp_bound_port l6) (if ?v6 then ''IPv6'' else ''IPv4'')) l6))"
      using n Inr b r q unfolding setup_listener_def listener_opts_def note_port_def Let_def by simp
    with assms n Inr b r q unbound unwatched listening show ?thesis by (auto simp: Let_def split: if_splits)
  qed
qed

lemma setting_up_opts: "setting_up fd l (listener_opts cfg k) = setting_up fd l k" "setting_up fd l (note_port r k) = setting_up fd l k"
  by (simp_all add: listener_opts_def note_port_def Let_def)

lemma setup_listener_inv:
  assumes st: "starting l" and free: "lp_listen l = - 1" and s: "setup_listener l = (ok, l')"
  shows "starting l'"
proof -
  note su = setting_up_new_fd [OF starting_setting_up [OF st]]
  have one: "setting_up (if bound then Some fd else None) l l2"
    if "sys_new_fd l = (Inr fd, l1)" "listener_bind v6 fd (listener_opts (lp_cfg l) l1) = (bound, l2)" for fd l1 v6 bound l2
    by (rule listener_bind_inv [OF _ that(2)]) (use su that(1) in \<open>simp add: setting_up_opts\<close>)
  have two: "setting_up (Some fd) l l4" if "setting_up (Some fd) l l2" "sys_result l2 = (r, l3)" "epoll_add x m (note_port r l3) = (q, l4)"
    for fd l2 r l3 x m q l4
    by (rule setting_up_add [OF _ that(3)]) (use setting_up_result [OF that(1,2)] in \<open>simp add: setting_up_opts\<close>)
  from s show ?thesis
  proof (cases rule: setup_listenerE)
    case (no_socket e l1)
    with su show ?thesis by (simp add: setting_up_def)
  next
    case (unbound fd l1 v6)
    with one [OF unbound] show ?thesis by (simp add: setting_up_def)
  next
    case (unwatched fd l1 v6 l2 r l3 q l4)
    have "setting_up (Some fd) l (note_io ''epoll_ctl ADD listener'' (cf_bind (lp_cfg l)) q l4)"
      using two [OF _ unwatched(3,4)] one [OF unwatched(1,2)] by simp
    from setting_up_close [OF this] unwatched(5) show ?thesis by (simp add: setting_up_def)
  next
    case (listening fd l1 v6 l2 r l3 q l4 l5 en)
    have su4: "setting_up (Some fd) l l4" using two [OF _ listening(3,4)] one [OF listening(1,2)] by simp
    then have "l5 = l4\<lparr>lp_listen := fd\<rparr>" using free listening(5) by (simp add: setting_up_def mem4_def assign_fd_def)
    then have "starting l5" using setting_up_assign [OF su4] by simp
    with write_port_file_inv [of l5] listening(6) show ?thesis by simp
  qed
qed

section \<open>The whole run\<close>

lemma starting_init:
  assumes "\<not> ft_bad_close (lp_fds k)"
  shows "starting (loop_init cfg created w k)"
  using assms by (simp add: starting_def loop_inv_def store_inv_def ticket_inv_def loop_init_def held_def live_def tickets_def
      members_def pool_init_def)

lemma fold_post_view:
  "loop_view (fold (\<lambda>j. post_completion (g j)) js l) = loop_view (l\<lparr>lp_completions := lp_completions l @ map g js\<rparr>)"
proof (induction js arbitrary: l)
  case (Cons j js)
  let ?p = "post_completion (g j) l"
  have v: "loop_view ?p = loop_view (l\<lparr>lp_completions := lp_completions l @ [g j]\<rparr>)"
    by (simp add: post_completion_def wake_def)
  have c: "lp_completions ?p = lp_completions l @ [g j]" using v by (simp add: loop_view_def)
  have "loop_view (?p\<lparr>lp_completions := x\<rparr>) = loop_view (l\<lparr>lp_completions := x\<rparr>)" for x using v by (simp add: loop_view_def)
  with Cons.IH [of ?p] show ?case by (simp add: c)
qed (simp add: loop_view_def)

text \<open>Stopping the pool turns every job under way into a completion.\<close>

lemma pool_stop_inv:
  assumes inv: "loop_inv [] E l"
  shows "loop_inv [] E (pool_stop l) \<and> lp_conns (pool_stop l) = lp_conns l"
proof (cases "stop_section (w_pool (lp_world l))")
  case None
  with inv show ?thesis by (simp add: pool_stop_def Let_def)
next
  case (Some x)
  obtain ths p where x: "x = (ths, p)" by fastforce
  let ?g = "run_job (lp_cfg l) False" and ?jobs = "lp_running l @ tp_queue (w_pool (lp_world l))"
  let ?l = "l\<lparr>lp_running := [], lp_world := (lp_world l)\<lparr>w_pool := p\<lparr>tp_queue := []\<rparr>\<rparr>\<rparr>"
  have v: "loop_view (pool_stop l) = loop_view (?l\<lparr>lp_completions := lp_completions ?l @ map ?g ?jobs\<rparr>)"
    by (simp only: pool_stop_def Some x Let_def option.case prod.case fold_post_view)
  have "loop_inv [] E (?l\<lparr>lp_completions := lp_completions ?l @ map ?g ?jobs\<rparr>)"
    by (rule loop_inv_tickets [OF inv])
       (simp_all add: members_def tickets_def multiset.map_comp comp_def ac_simps)
  with loop_inv_view [OF v] v show ?thesis by (simp add: loop_view_def)
qed

text \<open>Completions that nobody will read any more are dropped only after the connections have gone.\<close>

lemma run_end_closed: "run_end polls l = Some l' \<Longrightarrow> lp_conns l' = []"
  by (auto simp: run_end_def Let_def log_stats_def log_note_def close_all_conns split: option.splits)

lemma release_wake_inv:
  assumes inv: "loop_inv [] E l"
  shows "loop_inv [] E (l\<lparr>lp_wake := - 1\<rparr>)" (is "loop_inv [] E ?l")
proof -
  have h: "held [] ?l = held [] l" "tickets ?l = tickets l" by (simp_all add: held_def live_def tickets_def fun_eq_iff)
  have m: "members ?l \<subseteq> insert (- 1) (members l)" by (auto simp: members_def)
  have "obj_ok ?l oid" if "held [] l oid" for oid
    using loop_invD(1) [OF inv that] m by (auto simp: obj_ok_def Let_def)
  then have "store_inv [] ?l" using inv m unfolding loop_inv_def store_inv_def h by auto
  moreover have "ticket_inv [] E ?l" using inv unfolding loop_inv_def ticket_inv_def h by simp
  ultimately show ?thesis by (simp add: loop_inv_def)
qed

text \<open>Nothing on the way out touches the exit code.\<close>

lemma wake_exit_code: "lp_exit_code (wake_loop es l) = lp_exit_code l"
  by (induction es l rule: wake_loop.induct) auto

lemma fold_post_exit_code: "lp_exit_code (fold (\<lambda>j. post_completion (g j)) js l) = lp_exit_code l"
  by (induction js arbitrary: l) (simp_all add: post_completion_def wake_def wake_exit_code)

lemma reap_one_exit_code: "lp_exit_code (reap_one fd l) = lp_exit_code l"
  by (auto simp: reap_one_def Let_def epoll_del_def sys_result_def note_io_def log_note_def destroy_def loop_close_def
      split: option.split list.split)

lemma close_all_exit_code: "lp_exit_code (close_all l) = lp_exit_code l"
proof -
  have "lp_exit_code (fold reap_one fds k) = lp_exit_code k" for fds k
    by (induction fds arbitrary: k) (simp_all add: reap_one_exit_code)
  moreover have "lp_exit_code (fold (\<lambda>oid. with_conn oid f) oids k) = lp_exit_code k" for f oids k
    by (induction oids arbitrary: k) (simp_all add: with_conn_def split: prod.split)
  ultimately show ?thesis by (simp add: close_all_def reap_def for_conns_def Let_def)
qed

lemma stop_workers_inv:
  assumes inv: "loop_inv [] {#} l" and e: "stop_workers polls l = Some m"
  shows "loop_inv [] {#} m \<and> lp_exit_code m = lp_exit_code l"
proof (cases "lp_forced_shutdown l")
  case True
  obtain now k where n: "loop_now l = (now, k)" by fastforce
  obtain jn p where sf: "stop_forced now 250 polls (w_pool (lp_world k)) = (jn, p)" by fastforce
  have q: "tp_queue p = tp_queue (w_pool (lp_world k))"
    using sf by (auto simp: stop_forced_def stop_forced_section_def Let_def)
  define k1 where "k1 = k\<lparr>lp_world := (lp_world k)\<lparr>w_pool := p\<rparr>\<rparr>"
  have "loop_inv [] {#} k" using inv loop_inv_view [OF loop_now_view [OF n]] by simp
  then have ik: "loop_inv [] {#} k1"
    unfolding k1_def by (rule loop_inv_tickets) (simp_all add: members_def tickets_def q)
  have "loop_inv [] {#} (log_note en k1)" for en using ik loop_inv_view [of "log_note en k1" k1] by simp
  from release_wake_inv [OF this] have ir: "loop_inv [] {#} ((log_note en k1)\<lparr>lp_wake := - 1\<rparr>)" for en .
  have x: "lp_exit_code k1 = lp_exit_code l" using n by (auto simp: k1_def loop_now_def split: prod.splits)
  obtain j where "jn = Some j" and
    "m = (if j then k1 else (log_note (LogNote ''hard shutdown: detaching worker(s) still running application work'') k1)\<lparr>lp_wake := - 1\<rparr>)"
    using e True by (auto simp: stop_workers_def n sf Let_def k1_def fd_release_def split: option.splits)
  with ik ir x show ?thesis by (cases j) (simp_all add: log_note_def)
next
  case False
  with e pool_stop_inv [OF inv] show ?thesis
    by (auto simp: stop_workers_def pool_stop_def Let_def fold_post_exit_code split: option.splits)
qed

lemma run_end_inv:
  assumes inv: "loop_inv [] {#} l" and e: "run_end polls l = Some l'"
  shows "(\<exists>E. loop_inv [] E l') \<and> lp_exit_code l' = lp_exit_code l"
proof -
  from e obtain m where sw: "stop_workers polls l = Some m" and l': "l' = log_stats (close_all (m\<lparr>lp_completions := []\<rparr>))"
    by (auto simp: run_end_def split: option.splits)
  let ?m = "m\<lparr>lp_completions := []\<rparr>" and ?E = "image_mset cm_ticket (mset (lp_completions m))"
  have "loop_inv [] ?E ?m"
    by (rule loop_inv_tickets [of "[]" "{#}" m]) (use stop_workers_inv [OF inv sw] in \<open>simp_all add: members_def tickets_def\<close>)
  from close_all_inv [OF this] have "loop_inv [] ?E l'"
    using loop_inv_view [of "log_stats (close_all ?m)" "close_all ?m"] by (simp add: l' log_stats_def Let_def)
  moreover have "lp_exit_code l' = lp_exit_code l"
    using close_all_exit_code [of ?m] stop_workers_inv [OF inv sw] by (simp add: l' log_stats_def log_note_def Let_def)
  ultimately show ?thesis by blast
qed

text \<open>The three setups, one after the other, from a loop that owns only its epoll descriptor.\<close>

lemma setups_starting:
  assumes "starting l2" and "lp_wake l2 = - 1" "lp_sig l2 = - 1" "lp_listen l2 = - 1"
    and w1: "setup_wake l2 = (o1, l3)" and w2: "(if o1 then setup_signals l3 else (False, l3)) = (o2, l4)"
    and w3: "(if o2 then setup_listener l4 else (False, l4)) = (o3, l5)"
  shows "starting l5"
proof -
  have st3: "starting l3" "lp_sig l3 = - 1" "lp_listen l3 = - 1"
    using setup_wake_inv [OF assms(1) _ w1] assms(2-4) by simp_all
  have st4: "starting l4" "lp_listen l4 = - 1" using setup_signals_inv [OF st3(1,2)] st3 w2 by (auto split: if_splits)
  show ?thesis using setup_listener_inv [OF st4] st4 w3 by (auto split: if_splits)
qed

lemma setup_failed_closes:
  assumes "starting l"
  shows "starting (pool_stop (l\<lparr>lp_exit_code := 1\<rparr>))"
proof -
  have "loop_inv [] {#} (l\<lparr>lp_exit_code := 1\<rparr>)" "lp_conns l = []"
    using assms starting_simps(4) [of 1 l] unfolding starting_def by simp_all
  from pool_stop_inv [OF this(1)] this(2) show ?thesis by (simp add: starting_def)
qed

lemma serve_closes:
  assumes "starting l" and "loop_now l = (now, l1)"
    and "run_loop oob ws (l1\<lparr>lp_last_tick := now\<rparr>) = Some l2" and "run_end polls l2 = Some l'"
  shows "lp_conns l' = [] \<and> (\<exists>E. loop_inv [] E l')"
proof -
  have "loop_view (l1\<lparr>lp_last_tick := now\<rparr>) = loop_view l" using loop_now_view [OF assms(2)] by simp
  then have inv: "loop_inv [] {#} (l1\<lparr>lp_last_tick := now\<rparr>)"
    using assms(1) loop_inv_view [of "l1\<lparr>lp_last_tick := now\<rparr>" l "[]" "{#}"] by (simp add: starting_def)
  from run_loop_steps [OF assms(3)] obtain ops
    where v: "loop_view l2 = loop_view (fold (server_step oob) ops (l1\<lparr>lp_last_tick := now\<rparr>))" by blast
  have "loop_inv [] {#} l2" using loop_inv_view [OF v] sm.ok_run [OF inv] by simp
  from run_end_inv [OF this assms(4)] run_end_closed [OF assms(4)] show ?thesis by blast
qed

text \<open>The ways through \<^verbatim>\<open>run\<close>.\<close>

lemma runE:
  assumes "run oob polls ws l = Some (code, l')"
  obtains (no_epoll) e l1 where "sys_new_fd l = (Inl e, l1)" "l' = note_io ''epoll_create1'' ''startup'' e l1" "code = 1"
  | (no_setup) fd l1 o1 l3 o2 l4 l5 where "sys_new_fd l = (Inr fd, l1)" "setup_wake (assign_fd lp_epfd_update (lp_epfd l1) fd l1) = (o1, l3)"
    "(if o1 then setup_signals l3 else (False, l3)) = (o2, l4)" "(if o2 then setup_listener l4 else (False, l4)) = (False, l5)"
    "l' = pool_stop (l5\<lparr>lp_exit_code := 1\<rparr>)" "code = lp_exit_code l'"
  | (served) fd l1 o1 l3 o2 l4 l5 now l6 l7 where "sys_new_fd l = (Inr fd, l1)" "setup_wake (assign_fd lp_epfd_update (lp_epfd l1) fd l1) = (o1, l3)"
    "(if o1 then setup_signals l3 else (False, l3)) = (o2, l4)" "(if o2 then setup_listener l4 else (False, l4)) = (True, l5)"
    "loop_now l5 = (now, l6)" "run_loop oob ws (l6\<lparr>lp_last_tick := now\<rparr>) = Some l7" "run_end polls l7 = Some l'" "code = lp_exit_code l'"
proof -
  obtain x l1 where n: "sys_new_fd l = (x, l1)" by fastforce
  show thesis
  proof (cases x)
    case (Inl e)
    with n assms no_epoll show ?thesis by (auto simp: run_def)
  next
    case (Inr fd)
    obtain o1 l3 where w1: "setup_wake (assign_fd lp_epfd_update (lp_epfd l1) fd l1) = (o1, l3)" by fastforce
    obtain o2 l4 where w2: "(if o1 then setup_signals l3 else (False, l3)) = (o2, l4)" by fastforce
    obtain o3 l5 where w3: "(if o2 then setup_listener l4 else (False, l4)) = (o3, l5)" by fastforce
    obtain now l6 where nw: "loop_now l5 = (now, l6)" by fastforce
    have "(if \<not> o3 then (let l = pool_stop (l5\<lparr>lp_exit_code := 1\<rparr>) in Some (lp_exit_code l, l))
        else let (now, l) = loop_now l5; l = l\<lparr>lp_last_tick := now\<rparr>
             in (case run_loop oob ws l of None \<Rightarrow> None
                 | Some l \<Rightarrow> (case run_end polls l of None \<Rightarrow> None | Some l \<Rightarrow> Some (lp_exit_code l, l)))) = Some (code, l')"
      using assms n Inr w1 w2 w3 by (simp add: run_def)
    with no_setup [OF n [unfolded Inr] w1 w2] served [OF n [unfolded Inr] w1 w2 _ nw] w3 nw show ?thesis
      by (cases o3) (auto simp: Let_def split: option.splits)
  qed
qed

text \<open>
  When \<^verbatim>\<open>run\<close> returns, no connection is left, and the state is in order: no descriptor was ever closed that was not open.
\<close>

lemma run_closes:
  assumes fds: "\<not> ft_bad_close (lp_fds k)"
    and r: "run oob polls ws (loop_init cfg created w k) = Some (code, l')"
  shows "lp_conns l' = [] \<and> (\<exists>E. loop_inv [] E l')"
proof -
  let ?l = "loop_init cfg created w k"
  have st: "starting ?l" by (rule starting_init [OF fds])
  have free: "lp_epfd ?l = - 1" "lp_listen ?l = - 1" "lp_wake ?l = - 1" "lp_sig ?l = - 1" by (simp_all add: loop_init_def)
  note su = setting_up_new_fd [OF starting_setting_up [OF st]]
  have ready: "starting l5" if n: "sys_new_fd ?l = (Inr fd, l1)"
    and w: "setup_wake (assign_fd lp_epfd_update (lp_epfd l1) fd l1) = (o1, l3)" "(if o1 then setup_signals l3 else (False, l3)) = (o2, l4)"
      "(if o2 then setup_listener l4 else (False, l4)) = (o3, l5)" for fd l1 o1 l3 o2 l4 o3 l5
  proof -
    have su1: "setting_up (Some fd) ?l l1" using su n by simp
    then have m: "lp_epfd l1 = - 1" "lp_listen l1 = - 1" "lp_wake l1 = - 1" "lp_sig l1 = - 1"
      using free by (simp_all add: setting_up_def mem4_def)
    have "starting (l1\<lparr>lp_epfd := fd\<rparr>)" by (rule setting_up_assign [OF su1]) simp
    then have "starting (assign_fd lp_epfd_update (lp_epfd l1) fd l1)" by (simp add: assign_fd_def m)
    from setups_starting [OF this _ _ _ w] m show ?thesis by (simp add: assign_fd_def)
  qed
  have closed: "lp_conns l = [] \<and> (\<exists>E. loop_inv [] E l)" if "starting l" for l using that by (auto simp: starting_def)
  from r show ?thesis
  proof (cases rule: runE)
    case (no_epoll e l1)
    with su closed show ?thesis by (simp add: setting_up_def)
  next
    case (no_setup fd l1 o1 l3 o2 l4 l5)
    with closed [OF setup_failed_closes [OF ready [OF no_setup(1-4)]]] show ?thesis by simp
  next
    case (served fd l1 o1 l3 o2 l4 l5 now l6 l7)
    from serve_closes [OF ready [OF served(1-4)] served(5-7)] show ?thesis .
  qed
qed

section \<open>Waking up, draining, ending\<close>

text \<open>The write that wakes the loop may be interrupted any number of times; it is repeated until it counts.\<close>

lemma counter_up_pos: "counter_up n \<noteq> 0"
proof (cases "n < - 2")
  case True
  then have "n \<noteq> - 1" by auto
  with True show ?thesis by (metis counter_up_def add.commute add_eq_0_iff minus_minus)
next
  case False
  moreover have "(0 :: u64) < - 2" by code_simp
  ultimately show ?thesis by (auto simp: counter_up_def)
qed

lemma wake_loop_counts: "set es \<subseteq> {0, EINTR} \<Longrightarrow> lp_counter (wake_loop es l) \<noteq> 0"
  by (induction es l rule: wake_loop.induct) (auto simp: counter_up_pos)

text \<open>What a loop over the connections does to each of them.\<close>

lemma fold_with_conn_pure:
  "lp_objs (fold (\<lambda>oid. with_conn oid (\<lambda>c w. (g c, w))) oids l) =
     (\<lambda>oid. (g ^^ count_list oids oid) (lp_objs l oid))"
proof (induction oids arbitrary: l)
  case (Cons x oids)
  then show ?case by (auto simp: with_conn_def fun_eq_iff funpow_swap1)
qed simp

lemma begin_draining_draining: "0 < n \<Longrightarrow> cn_draining ((begin_draining ^^ n) c)"
  by (cases n) (simp_all add: begin_draining_def Let_def)

lemma maybe_begin_drain_all:
  assumes "lp_shutdown_requested l" "\<not> lp_draining l"
  shows "lp_draining (maybe_begin_drain oob l) \<and> lp_conns (maybe_begin_drain oob l) = lp_conns l \<and>
    (\<forall>e \<in> set (lp_conns l). cn_draining (lp_objs (maybe_begin_drain oob l) (snd e)))"
proof -
  obtain now l1 where n: "loop_now (l\<lparr>lp_draining := True\<rparr>) = (now, l1)" by fastforce
  define l2 where "l2 = log_note (LogDraining (length (lp_conns l1)) (queue_size (w_pool (lp_world l1)))
     (cf_shutdown_timeout_sec (lp_cfg l1))) (l1\<lparr>lp_drain_deadline := now + to_ticks oob (cf_shutdown_timeout_sec (lp_cfg l1))\<rparr>)"
  have "still (l\<lparr>lp_draining := True\<rparr>) l1" using still_simps(4) [of "l\<lparr>lp_draining := True\<rparr>"] n by simp
  then have l2: "lp_draining l2" "lp_conns l2 = lp_conns l" by (simp_all add: l2_def still_def log_note_def)
  have eq: "maybe_begin_drain oob l = push_finished (for_conns (\<lambda>c w. (begin_draining c, w)) l2)"
    using assms by (simp add: maybe_begin_drain_def n Let_def l2_def)
  have "0 < count_list (map snd (lp_conns l)) (snd e)" if "e \<in> set (lp_conns l)" for e
  proof -
    have "snd e \<in> set (map snd (lp_conns l))" using that by simp
    then show ?thesis by (metis count_list_0_iff gr0I)
  qed
  then have "cn_draining (lp_objs (for_conns (\<lambda>c w. (begin_draining c, w)) l2) (snd e))" if "e \<in> set (lp_conns l)" for e
    using that by (simp add: for_conns_def l2 fold_with_conn_pure begin_draining_draining)
  with still_for_conns [of l2] l2 show ?thesis unfolding eq by (simp add: push_finished_def still_def)
qed

text \<open>The end of a shutdown that is forced: by a second signal, or by the deadline.\<close>

lemma shutdown_forced:
  assumes "lp_draining l" and "lp_second_signal l \<or> fst (loop_now l) \<ge> lp_drain_deadline l"
  shows "fst (shutdown_complete l) \<and> lp_conns (snd (shutdown_complete l)) = []"
proof -
  obtain now l1 where n: "loop_now l = (now, l1)" by fastforce
  have "lp_drain_deadline l1 = lp_drain_deadline l" using n by (auto simp: loop_now_def split: prod.splits)
  with assms n show ?thesis by (auto simp: shutdown_complete_def close_all_conns)
qed

text \<open>
  Renewing the interest of a connection: when the call succeeds, the kernel has what the connection wants,
  and a connection that begins to read again is scanned, since no new edge may come for what it has missed.
\<close>

lemma set_interest_rescans:
  assumes "cn_alive (lp_objs l oid)" "fst (sys_result l) = 0"
    and "want_read (lp_cfg l) (lp_objs l oid)" "cn_applied_mask (lp_objs l oid) AND EPOLLIN = 0"
  shows "oid \<in> set (lp_rescan (set_interest oid l)) \<and>
    lp_epoll (set_interest oid l) (cn_fd (lp_objs l oid)) = Some (interest_mask (lp_cfg l) (lp_objs l oid)) \<and>
    cn_applied_mask (lp_objs (set_interest oid l) oid) = interest_mask (lp_cfg l) (lp_objs l oid)"
proof -
  let ?c = "lp_objs l oid"
  obtain l1 where r: "sys_result l = (0, l1)" using assms(2) by (cases "sys_result l") simp
  have "interest_mask (lp_cfg l) ?c AND EPOLLIN = EPOLLIN"
    using assms(3) unfolding interest_mask_def Let_def EPOLLIN_def EPOLLET_def EPOLLOUT_def by simp
  then have i: "interest_mask (lp_cfg l) ?c AND EPOLLIN \<noteq> 0" by (simp add: EPOLLIN_def)
  then have "interest_mask (lp_cfg l) ?c \<noteq> cn_applied_mask ?c" using assms(4) by auto
  with i assms show ?thesis by (simp add: set_interest_def epoll_mod_def r Let_def)
qed

end
