(* ===== verification/Response_Read.thy ===== *)
theory Response_Read
  imports Connection_Props
begin

text \<open>
  Responses delimit themselves.  \<open>read_response\<close> is a client: it reads lines up to the empty one, takes the
  status from the first, and finds the end of the body by the rules of HTTP, from whether it asked with
  \<^verbatim>\<open>HEAD\<close>, from the status, and from the one \<^verbatim>\<open>Content-Length\<close> field.  Whatever the server's workers produce,
  serialised one after another, such a client takes apart again.
\<close>

section \<open>A client\<close>

definition take_line :: "bytes \<Rightarrow> (bytes \<times> bytes) option" where
  "take_line s =
     (case index_of LF s of
        None \<Rightarrow> None
      | Some i \<Rightarrow> if i = 0 \<or> s ! (i - 1) \<noteq> CR then None else Some (take (i - 1) s, drop (i + 1) s))"

lemma take_line_shorter: "take_line s = Some (l, rest) \<Longrightarrow> length rest < length s"
  by (auto simp: take_line_def split: option.splits if_splits dest!: index_of_SomeD)

function read_head :: "bytes \<Rightarrow> (bytes list \<times> bytes) option" where
  "read_head s =
     (case take_line s of
        None \<Rightarrow> None
      | Some (l, rest) \<Rightarrow>
        if l = [] then Some ([], rest)
        else (case read_head rest of None \<Rightarrow> None | Some (ls, rest') \<Rightarrow> Some (l # ls, rest')))"
  by pat_completeness auto
termination
  by (relation "measure length") (auto dest: take_line_shorter)

declare read_head.simps [simp del]

definition status_of :: "bytes \<Rightarrow> nat option" where
  "status_of l = (case split_on SP l of _ # s # _ \<Rightarrow> numval 10 dec_digit 0 s | _ \<Rightarrow> None)"

definition field_name :: "bytes \<Rightarrow> bytes" where
  "field_name l = takeWhile (\<lambda>c. c \<noteq> CHR '':'') l"

definition field_value :: "bytes \<Rightarrow> bytes" where
  "field_value l = trim_ows (drop (length (field_name l) + 1) l)"

definition body_length :: "bytes list \<Rightarrow> nat option" where
  "body_length ls =
     (case filter (\<lambda>l. equals_ignore_case (field_name l) ''Content-Length'') ls of
        [l] \<Rightarrow> numval 10 dec_digit 0 (field_value l)
      | _ \<Rightarrow> None)"

definition read_response :: "bool \<Rightarrow> bytes \<Rightarrow> (nat \<times> bytes \<times> bytes) option" where
  "read_response head s =
     (case read_head s of
        Some (l # ls, rest) \<Rightarrow>
          (case status_of l of
             None \<Rightarrow> None
           | Some st \<Rightarrow>
             if head \<or> st = 204 \<or> st = 304 then Some (st, [], rest)
             else (case body_length ls of
                 None \<Rightarrow> None
               | Some n \<Rightarrow> if n \<le> length rest then Some (st, take n rest, drop n rest) else None))
      | _ \<Rightarrow> None)"

fun read_responses :: "bool list \<Rightarrow> bytes \<Rightarrow> ((nat \<times> bytes) list \<times> bytes) option" where
  "read_responses [] s = Some ([], s)"
| "read_responses (h # hs) s =
     (case read_response h s of
        None \<Rightarrow> None
      | Some (st, body, rest) \<Rightarrow>
        (case read_responses hs rest of None \<Rightarrow> None | Some (rs, rest') \<Rightarrow> Some ((st, body) # rs, rest')))"

section \<open>Lines and fields are found again\<close>

lemma clean_no_LF: "clean_line l \<Longrightarrow> LF \<notin> set l"
  using is_ctl_LF unfolding clean_line_def list_all_iff by blast

lemma take_line_clean: "clean_line l \<Longrightarrow> take_line (l @ CRLF @ s) = Some (l, s)"
  using index_of_split [of LF "l @ [CR]" s] clean_no_LF [of l] by (simp add: take_line_def)

lemma read_head_lines:
  "list_all (\<lambda>l. clean_line l \<and> l \<noteq> []) ls \<Longrightarrow> read_head (wire_lines ls @ CRLF @ s) = Some (ls, s)"
proof (induction ls)
  case Nil
  then show ?case using take_line_clean [of "[]" s] by (subst read_head.simps) simp
next
  case (Cons l ls)
  then have "take_line (l @ CRLF @ wire_lines ls @ CRLF @ s) = Some (l, wire_lines ls @ CRLF @ s)"
    by (intro take_line_clean) simp
  with Cons show ?case by (subst read_head.simps) simp
qed

lemma field_name_colon: "CHR '':'' \<notin> set n \<Longrightarrow> field_name (n @ CHR '':'' # v) = n"
proof -
  assume "CHR '':'' \<notin> set n"
  then have "takeWhile (\<lambda>c. c \<noteq> CHR '':'') (n @ CHR '':'' # v) = n @ takeWhile (\<lambda>c. c \<noteq> CHR '':'') (CHR '':'' # v)"
    by (intro takeWhile_append2) auto
  then show ?thesis by (simp add: field_name_def)
qed

lemma token_sanitized: "valid_token n \<Longrightarrow> sanitize_header_value n = n \<and> CHR '':'' \<notin> set n"
  by (auto simp: valid_token_def sanitize_header_value_def list_all_iff is_tchar_def byte_of_def filter_id_conv
      split: if_splits)

section \<open>Which responses can be read\<close>

text \<open>
  The body is sent exactly when the client expects one, and no field but the one the server adds is called
  \<^verbatim>\<open>Content-Length\<close>.
\<close>

definition framed :: "bool \<Rightarrow> response \<Rightarrow> bool" where
  "framed head res =
     (0 \<le> rs_status res \<and> (rs_no_body_framing res \<longleftrightarrow> rs_status res = 204 \<or> rs_status res = 304) \<and>
      (rs_send_body res \<longleftrightarrow> \<not> head \<and> \<not> rs_no_body_framing res) \<and>
      list_all (\<lambda>h. valid_token (hdr_name h) \<and> \<not> equals_ignore_case (hdr_name h) ''Content-Length'') (rs_headers res))"

lemma status_of_line: "0 \<le> rs_status res \<Longrightarrow> status_of (hd (response_lines date res)) = Some (nat (rs_status res))"
proof -
  assume st: "0 \<le> rs_status res"
  have sp: "SP \<notin> set (show_int i)" for i
    using set_show_nat [of SP] by (auto simp: show_int_def byte_of_def)
  let ?v = "''HTTP/'' @ show_int (rs_req_major res) @ ''.'' @ show_int (rs_req_minor res)"
  have "split_on SP (?v @ SP # show_int (rs_status res) @ SP # status_reason (rs_status res)) =
      ?v # show_int (rs_status res) # split_on SP (status_reason (rs_status res))"
    using sp by (subst split_on_append) (simp, simp add: split_on_append)
  with st show ?thesis by (simp add: status_of_def response_lines_def show_int_def)
qed

lemma response_lines_ne: "list_all (\<lambda>l. l \<noteq> []) (response_lines date res)"
  by (simp add: response_lines_def list.pred_map comp_def list.pred_True)

lemma body_length_lines:
  assumes "framed head res" and "\<not> rs_no_body_framing res"
  shows "body_length (tl (response_lines date res)) = Some (length (rs_body res))"
proof -
  let ?P = "\<lambda>l. equals_ignore_case (field_name l) ''Content-Length''"
  let ?f = "\<lambda>h. sanitize_header_value (hdr_name h) @ '': '' @ sanitize_header_value (hdr_value h)"
  have hs: "list_all (\<lambda>h. valid_token (hdr_name h) \<and> \<not> equals_ignore_case (hdr_name h) ''Content-Length'') (rs_headers res)"
    using assms(1) by (simp add: framed_def)
  have none: "filter ?P (map ?f hs) = []"
    if "list_all (\<lambda>h. valid_token (hdr_name h) \<and> \<not> equals_ignore_case (hdr_name h) ''Content-Length'') hs" for hs
    using that by (induction hs) (auto simp: field_name_colon token_sanitized)
  have nohdr: "\<not> has_header ''Content-Length'' (rs_headers res)" using hs by (auto simp: has_header_def list_ex_iff list_all_iff)
  let ?cl = "''Content-Length: '' @ show_nat (length (rs_body res))"
  have fixed: "\<not> ?P (''Date: '' @ date)" "\<not> ?P ''Server: cpp-http/0.1''" "\<not> ?P ''Content-Type: text/plain; charset=utf-8''"
    "\<not> ?P ''Connection: close''" "\<not> ?P ''Connection: keep-alive''" "?P ?cl"
    by (simp_all add: field_name_def equals_ignore_case_def tolower_def byte_of_def)
  have one: "filter ?P (tl (response_lines date res)) = [?cl]"
    using none [OF hs] fixed nohdr assms(2) by (simp add: response_lines_def)
  have "trim_ows (SP # show_nat n) = show_nat n" for n by (simp add: trim_ows_Cons is_ows_def)
  then have "field_value ?cl = show_nat (length (rs_body res))" by (simp add: field_value_def field_name_def)
  then show ?thesis unfolding body_length_def one by simp
qed

lemma read_response_serialized:
  assumes "framed head res" and "clean_line date"
  shows "read_response head (serialize_response date res @ s) =
    Some (nat (rs_status res), if rs_send_body res then rs_body res else [], s)"
proof -
  let ?ls = "response_lines date res" and ?b = "if rs_send_body res then rs_body res else []"
  have ls: "list_all (\<lambda>l. clean_line l \<and> l \<noteq> []) ?ls"
    using response_lines_clean [OF assms(2)] response_lines_ne [of date res] by (simp add: list_all_iff)
  have rd: "read_head (serialize_response date res @ s) = Some (?ls, ?b @ s)"
    using read_head_lines [OF ls, of "?b @ s"] by (simp add: serialize_response_lines)
  have split: "?ls = hd ?ls # tl ?ls" by (simp add: response_lines_def)
  have st: "status_of (hd ?ls) = Some (nat (rs_status res))" using assms(1) by (intro status_of_line) (simp add: framed_def)
  have nb: "nat (rs_status res) = 204 \<or> nat (rs_status res) = 304 \<longleftrightarrow> rs_no_body_framing res"
    and sb: "rs_send_body res \<longleftrightarrow> \<not> head \<and> \<not> rs_no_body_framing res"
    using assms(1) by (auto simp: framed_def)
  show ?thesis
  proof (cases "head \<or> rs_no_body_framing res")
    case True
    with rd st nb sb show ?thesis by (subst (asm) split) (auto simp: read_response_def)
  next
    case False
    then have "body_length (tl ?ls) = Some (length (rs_body res))" using assms(1) by (intro body_length_lines) simp_all
    with rd st nb sb False show ?thesis by (subst (asm) split) (simp add: read_response_def)
  qed
qed

section \<open>The workers' responses\<close>

lemma known_tokens: "valid_token ''Content-Type''" "valid_token ''Allow''" "valid_token ''Retry-After''"
  "\<not> equals_ignore_case ''Content-Type'' ''Content-Length''" "\<not> equals_ignore_case ''Allow'' ''Content-Length''"
  "\<not> equals_ignore_case ''Retry-After'' ''Content-Length''"
  by (simp_all add: valid_token_def is_tchar_def byte_of_def equals_ignore_case_def tolower_def)

lemma make_error_framed: "0 \<le> st \<Longrightarrow> framed False (make_error_response st d ka)"
  by (simp add: framed_def make_error_response_def response_init_def rs_set_def known_tokens Let_def)

lemma text_framed: "framed (is_head req) (text_response req 200 body ct)"
  by (simp add: framed_def response_simps known_tokens)

lemma error_framed: "0 \<le> st \<Longrightarrow> framed (is_head req) (error_response req st d)"
  by (simp add: framed_def error_response_def make_error_response_def response_init_def rs_set_def known_tokens Let_def)

lemma options_framed: "framed (is_head req) (options_response req)"
  by (simp add: framed_def response_simps) (simp add: options_response_def rs_set_def response_init_def known_tokens)

lemma slow_framed: "framed (is_head req) (fst (slow_response req ms))"
  using text_framed by (simp add: slow_response_def Let_def)

lemma framed_update [simp]:
  "framed h (res\<lparr>rs_keep_alive := k\<rparr>) = framed h res" "framed h (res\<lparr>rs_close_after := k\<rparr>) = framed h res"
  "framed h (res\<lparr>rs_req_major := i\<rparr>) = framed h res" "framed h (res\<lparr>rs_req_minor := i\<rparr>) = framed h res"
  by (simp_all add: framed_def)

lemmas route_framed = text_framed error_framed options_framed slow_framed

lemma handle_request_framed: "framed (is_head req) (fst (handle_request req cfg))"
proof -
  have "framed (is_head req) (fst (handle_get_head req cfg))"
    by (auto simp: handle_get_head_def Let_def route_framed split: option.split)
  moreover have "framed (is_head req) (fst (handle_post req cfg))"
    by (auto simp: handle_post_def Let_def route_framed split: option.split)
  ultimately show ?thesis by (cases "rq_method req") (simp_all add: handle_request_def route_framed)
qed

lemma framed_head: "framed h res \<Longrightarrow> framed True (res\<lparr>rs_send_body := False\<rparr>)"
  by (simp add: framed_def)

lemma run_job_framed: "framed (is_head (jb_req j)) (cm_response (run_job cfg throws j))"
  using handle_request_framed [of "jb_req j" cfg] make_error_framed [of 500 "''handler failed''" "rq_keep_alive (jb_req j)"]
  by (auto simp: run_job_def Let_def intro: framed_head)

lemma read_responses_serialized:
  "list_all (\<lambda>(h, date, res). framed h res \<and> clean_line date) rs \<Longrightarrow>
   read_responses (map fst rs) (concat (map (\<lambda>(h, date, res). serialize_response date res) rs) @ s) =
     Some (map (\<lambda>(h, date, res). (nat (rs_status res), if rs_send_body res then rs_body res else [])) rs, s)"
  by (induction rs) (auto simp: read_response_serialized)

end
