(* ===== verification/Exchange.thy ===== *)
theory Exchange
  imports Parser_Roundtrip Response_Read
begin

text \<open>
  The parts put together: a client and a connection.  A \<open>round\<close> is a message the client has written, what the socket
  does meanwhile, and the time.  \<open>exchange\<close> runs the server's part of it: \<^verbatim>\<open>on_readable\<close> (receive, parse, hand over), a
  worker (take the job, run the handler) and \<^verbatim>\<open>on_worker_result\<close> (serialise, send).  \<open>answer\<close> is the specification: the
  status and the body that a request deserves.  \<open>exchange_refines\<close> shows that a client who reads the stream finds the
  answers to its messages, in order, and nothing else.
\<close>

section \<open>Rounds\<close>

text \<open>
  The bytes of a round arrive in any pieces, and a message may have arrived in part, or entirely, in an earlier round.
\<close>

record round =
  rd_method :: bytes
  rd_target :: bytes
  rd_minor :: int
  rd_headers :: "header list"
  rd_payload :: payload
  rd_recv :: "bytes list"
  rd_send :: "send_event list"
  rd_time :: int
  rd_throws :: bool

definition message :: "round \<Rightarrow> bytes" where
  "message rd = render (rd_method rd) (rd_target rd) (rd_minor rd) (rd_headers rd) (rd_payload rd)"

definition message_request :: "bytes \<Rightarrow> round \<Rightarrow> request" where
  "message_request peer rd =
     (rendered_request (rd_method rd) (rd_target rd) (rd_minor rd) (rd_headers rd) (rd_payload rd))\<lparr>rq_peer := peer\<rparr>"

definition worker_reply :: "config \<Rightarrow> bool \<Rightarrow> request \<Rightarrow> response" where
  "worker_reply cfg throws req = cm_response (run_job cfg throws \<lparr>jb_conn = 0, jb_cid = 0, jb_seq = 0, jb_req = req\<rparr>)"

definition reply :: "config \<Rightarrow> bytes \<Rightarrow> round \<Rightarrow> response" where
  "reply cfg peer rd = worker_reply cfg (rd_throws rd) (message_request peer rd)"

definition reply_text :: "config \<Rightarrow> bytes \<Rightarrow> round \<Rightarrow> bytes" where
  "reply_text cfg peer rd = serialize_response (format_date (rd_time rd)) (reply cfg peer rd)"

definition keeps_open :: "response \<Rightarrow> bool" where
  "keeps_open res = (rs_keep_alive res \<and> \<not> rs_close_after res)"

text \<open>What a client is to be told: the status and the body, in terms of the handler alone.\<close>

definition answer :: "config \<Rightarrow> bytes \<Rightarrow> round \<Rightarrow> nat \<times> bytes" where
  "answer cfg peer rd =
     (let req = message_request peer rd; res = fst (handle_request req cfg)
      in if rd_throws rd
         then (500, if is_head req then [] else rs_body (make_error_response 500 ''handler failed'' (rq_keep_alive req)))
         else (nat (rs_status res), if is_head req \<or> rs_no_body_framing res then [] else rs_body res))"

text \<open>The server's part of a round.\<close>

definition arrive :: "round \<Rightarrow> int \<Rightarrow> world \<Rightarrow> world" where
  "arrive rd fd w = (sock_update fd (\<lambda>s. s\<lparr>sk_recv := sk_recv s @ map RecvBytes (rd_recv rd), sk_send := sk_send s @ rd_send rd\<rparr>) w)
     \<lparr>w_time := rd_time rd\<rparr>"

definition exchange :: "config \<Rightarrow> round \<Rightarrow> connection \<times> world \<Rightarrow> connection \<times> world" where
  "exchange cfg rd s =
     (case s of (c, w) \<Rightarrow>
       let (c, w) = on_readable cfg c (arrive rd (cn_fd c) w)
       in case run_section (w_pool w) of
            (Take j, p) \<Rightarrow>
              let cm = run_job cfg (rd_throws rd) j
              in on_worker_result (cm_response cm) (cm_seq cm) c (w\<lparr>w_pool := p\<rparr>)
          | (_, _) \<Rightarrow> (c, w))"

text \<open>A socket that does not fail: it takes some bytes, or asks to be tried again.\<close>

definition friendly :: "send_event \<Rightarrow> bool" where
  "friendly ev = (case ev of SendRoom n \<Rightarrow> 0 < n | SendErr e \<Rightarrow> e = EINTR \<or> e = EAGAIN)"

text \<open>
  A conversation that starts with \<open>pend\<close> already received.  In each round the message is complete, what has arrived fits the
  request limit, and only the last answer ends the connection.
\<close>

fun conversation :: "config \<Rightarrow> bytes \<Rightarrow> bytes \<Rightarrow> round list \<Rightarrow> bool" where
  "conversation cfg peer pend [] = True"
| "conversation cfg peer pend (rd # rds) =
     (let input = pend @ concat (rd_recv rd)
      in sendable (limits_of cfg) (rd_method rd) (rd_target rd) (rd_minor rd) (rd_headers rd) (rd_payload rd) \<and>
         list_all (\<lambda>bs. bs \<noteq> []) (rd_recv rd) \<and> list_all friendly (rd_send rd) \<and> length input \<le> unat (cf_max_request_bytes cfg) \<and>
         take (length (message rd)) input = message rd \<and> length (format_date (rd_time rd)) < 64 \<and>
         (rds \<noteq> [] \<longrightarrow> keeps_open (reply cfg peer rd)) \<and>
         conversation cfg peer (drop (length (message rd)) input) rds)"

section \<open>A well-behaved socket\<close>

text \<open>Only the output buffer, the time of the last activity and the script of \<^verbatim>\<open>send\<close> have moved.\<close>

definition still_open :: "connection \<Rightarrow> world \<Rightarrow> connection \<Rightarrow> world \<Rightarrow> bool" where
  "still_open c w c' w' =
     ((\<exists>b t. c' = c\<lparr>cn_out := b, cn_last_activity := t\<rparr>) \<and> w_pool w' = w_pool w \<and> w_date w' = w_date w \<and>
      w_requests_received w' = w_requests_received w \<and>
      sk_recv (w_socks w' (cn_fd c)) = sk_recv (w_socks w (cn_fd c)) \<and> list_all friendly (sk_send (w_socks w' (cn_fd c))))"

lemma still_open_refl: "list_all friendly (sk_send (w_socks w (cn_fd c))) \<Longrightarrow> still_open c w c w"
  unfolding still_open_def by (intro conjI exI [of _ "cn_out c"] exI [of _ "cn_last_activity c"]) simp_all

lemma flush_friendly:
  assumes "list_all friendly (sk_send (w_socks w (cn_fd c)))" and "flush c w = (c', w')"
  shows "still_open c w c' w'"
proof (rule flush_rule [where I = "still_open c w", OF still_open_refl [OF assms(1)] _ assms(2)])
  fix d v again d' v'
  assume I: "still_open c w d v" and "\<not> bb_empty (cn_out d)" and it: "flush_iter d v = (again, d', v')"
  then have "bb_view (cn_out d) \<noteq> []" by (simp add: bb_empty_iff)
  with I it show "still_open c w d' v'"
    by (auto simp: still_open_def flush_iter_def sys_send_def friendly_def EINTR_def EAGAIN_def sock_update_def
        split: list.splits send_event.splits if_splits)
qed

lemma read_loop_all:
  assumes "bb_wf (cn_in c)" and "want_read cfg c" and "sk_recv (w_socks w (cn_fd c)) = map RecvBytes ps"
    and "list_all (\<lambda>bs. bs \<noteq> []) ps"
    and "ps_consumed (cn_parser c) + length (bb_view (cn_in c) @ concat ps) \<le> unat (cf_max_request_bytes cfg)"
  shows "\<exists>b t v. read_loop cfg c w = (ReadBreak, c\<lparr>cn_in := b, cn_last_activity := t\<rparr>, v) \<and> bb_view b = bb_view (cn_in c) @ concat ps \<and>
    w_socks v = (w_socks w)(cn_fd c := (w_socks w (cn_fd c))\<lparr>sk_recv := []\<rparr>) \<and> w_pool v = w_pool w \<and> w_date v = w_date w \<and>
    w_time v = w_time w \<and> w_requests_received v = w_requests_received w"
  using assms
proof (induction "recv_measure (map RecvBytes ps)" arbitrary: c w ps rule: less_induct)
  case less
  show ?case
  proof (cases ps)
    case Nil
    with less.prems have "read_loop cfg c w = (ReadBreak, c\<lparr>cn_in := cn_in c, cn_last_activity := cn_last_activity c\<rparr>, w)"
      by (subst read_loop.simps) (simp add: read_iter_def sys_recv_def EINTR_def EAGAIN_def)
    moreover have "w_socks w = (w_socks w)(cn_fd c := (w_socks w (cn_fd c))\<lparr>sk_recv := []\<rparr>)"
      using less.prems(3) Nil by (intro ext) (simp add: sock.splits)
    ultimately show ?thesis using Nil by fastforce
  next
    case (Cons bs qs)
    define x where "x = take recv_buf_size bs"
    define ps' where "ps' = (if length bs \<le> recv_buf_size then qs else drop recv_buf_size bs # qs)"
    define v where "v = sock_update (cn_fd c) (sk_recv_update (\<lambda>_. map RecvBytes ps')) w"
    define d where "d = c\<lparr>cn_in := bb_append x (cn_in c), cn_last_activity := fst (clock_now v)\<rparr>"
    have pos: "0 < recv_buf_size" by (simp add: recv_buf_size_def)
    have x: "x \<noteq> []" using less.prems(4) Cons pos by (simp add: x_def)
    have all: "x @ concat ps' = concat ps" "list_all (\<lambda>bs. bs \<noteq> []) ps'" "recv_measure (map RecvBytes ps') < recv_measure (map RecvBytes ps)"
      using less.prems(4) Cons pos by (auto simp: x_def ps'_def)
    have rc: "sys_recv (cn_fd c) w = (Inr x, v)"
      using less.prems(3) Cons by (simp add: sys_recv_def x_def v_def ps'_def)
    have view: "bb_view (bb_append x (cn_in c)) = bb_view (cn_in c) @ x" using less.prems(1) by (rule bb_view_append)
    have len: "ps_consumed (cn_parser c) + (length (bb_view (cn_in c)) + length x) \<le> unat (cf_max_request_bytes cfg)"
      using less.prems(5) unfolding all(1) [symmetric] by simp
    have "read_iter cfg c w = (ReadMore, d, snd (clock_now v))"
      using less.prems(2) x len view length_bb_view [of "bb_append x (cn_in c)"]
      by (simp add: read_iter_def rc d_def bytes_consumed_def Let_def)
    then have rl: "read_loop cfg c w = read_loop cfg d (snd (clock_now v))" by (subst read_loop.simps) simp
    have "\<exists>b t u. read_loop cfg d (snd (clock_now v)) = (ReadBreak, d\<lparr>cn_in := b, cn_last_activity := t\<rparr>, u) \<and>
      bb_view b = bb_view (cn_in d) @ concat ps' \<and>
      w_socks u = (w_socks (snd (clock_now v)))(cn_fd d := (w_socks (snd (clock_now v)) (cn_fd d))\<lparr>sk_recv := []\<rparr>) \<and>
      w_pool u = w_pool (snd (clock_now v)) \<and> w_date u = w_date (snd (clock_now v)) \<and> w_time u = w_time (snd (clock_now v)) \<and>
      w_requests_received u = w_requests_received (snd (clock_now v))"
      by (rule less.hyps [OF all(3)])
         (use less.prems all(1,2) view len in \<open>auto simp: d_def v_def bb_wf_append want_read_def split: if_splits\<close>)
    then show ?thesis unfolding rl by (auto simp: d_def v_def view all(1) [symmetric] sock_update_def)
  qed
qed

section \<open>One round\<close>

definition idle_conn :: "config \<Rightarrow> connection \<Rightarrow> bool" where
  "idle_conn cfg c =
     (conn_inv cfg c \<and> cn_alive c \<and> \<not> cn_close_after c \<and> \<not> cn_peer_eof c \<and> \<not> cn_in_flight c \<and> \<not> cn_draining c \<and>
      cn_parser c = parser_init (limits_of cfg))"

definition pool_free :: "'j pool \<Rightarrow> bool" where
  "pool_free p = (\<not> tp_stopping p \<and> tp_threads p \<noteq> [] \<and> tp_queue p = [] \<and> 0 < tp_max_queue p)"

definition quiet_world :: "int \<Rightarrow> world \<Rightarrow> bool" where
  "quiet_world fd w =
     (sk_recv (w_socks w fd) = [] \<and> list_all friendly (sk_send (w_socks w fd)) \<and> date_cache_ok (w_date w) \<and> pool_free (w_pool w))"

text \<open>The connection that has handed over a request, with \<open>b\<close> left in its input buffer.\<close>

definition handed :: "request \<Rightarrow> bytebuf \<Rightarrow> int \<Rightarrow> connection \<Rightarrow> connection" where
  "handed req b t c =
     c\<lparr>cn_in := b, cn_last_activity := t, cn_req_major := rq_major req, cn_req_minor := rq_minor req, cn_last_head := is_head req,
       cn_in_flight := True, cn_inflight_seq := cn_next_seq c, cn_next_seq := cn_next_seq c + 1, cn_served := cn_served c + 1\<rparr>"

lemma drain_hands_over:
  assumes "cn_alive c" "\<not> cn_in_flight c" "\<not> cn_close_after c" "cn_parser c = parser_init (limits_of cfg)" "pool_free (w_pool w)"
    and "sendable (limits_of cfg) (rd_method rd) (rd_target rd) (rd_minor rd) (rd_headers rd) (rd_payload rd)"
    and "bb_view (cn_in c) = message rd @ rest" and "length (message rd @ rest) \<le> unat (cf_max_request_bytes cfg)"
  shows "\<exists>b. drain_requests cfg c w =
    (handed (message_request (cn_peer c) rd) b (cn_last_activity c) c,
     w\<lparr>w_requests_received := w_requests_received w + 1, w_pool := (w_pool w)\<lparr>tp_queue :=
        [\<lparr>jb_conn = cn_self c, jb_cid = cn_id c, jb_seq = cn_next_seq c, jb_req = message_request (cn_peer c) rd\<rparr>]\<rparr>\<rparr>) \<and>
    bb_view b = rest"
proof -
  let ?req = "rendered_request (rd_method rd) (rd_target rd) (rd_minor rd) (rd_headers rd) (rd_payload rd)"
  obtain b where p: "parse (cn_parser c) (cn_in c) request_init = \<lparr>pr_status = KRequest, pr_out = ?req, pr_err = [],
      pr_parser = parser_init (limits_of cfg), pr_buf = b\<rparr>" and b: "bb_view b = rest"
    using parse_render [OF assms(6), of rest "cn_in c" request_init] assms(4,7,8) by (auto simp: message_def limits_of_def)
  have "drain_iter cfg c w = (False, handed (message_request (cn_peer c) rd) b (cn_last_activity c) c,
     w\<lparr>w_requests_received := w_requests_received w + 1, w_pool := (w_pool w)\<lparr>tp_queue :=
        [\<lparr>jb_conn = cn_self c, jb_cid = cn_id c, jb_seq = cn_next_seq c, jb_req = message_request (cn_peer c) rd\<rparr>]\<rparr>\<rparr>)"
    unfolding drain_iter_def p using assms(4,5)
    by (cases c) (simp add: submit_eq try_submit_def pool_free_def handed_def message_request_def is_head_def Let_def)
  with assms(1-3) b show ?thesis by (subst drain_requests.simps) auto
qed

lemma readable_hands_over:
  assumes idle: "idle_conn cfg c" and room: "length (bb_view (cn_out c)) < unat (cf_max_output_bytes cfg)"
    and rc: "sk_recv (w_socks w (cn_fd c)) = map RecvBytes ps" "list_all (\<lambda>bs. bs \<noteq> []) ps" and pool: "pool_free (w_pool w)"
    and ok: "sendable (limits_of cfg) (rd_method rd) (rd_target rd) (rd_minor rd) (rd_headers rd) (rd_payload rd)"
    and input: "bb_view (cn_in c) @ concat ps = message rd @ rest" "length (message rd @ rest) \<le> unat (cf_max_request_bytes cfg)"
  shows "\<exists>b t v. on_readable cfg c w = (handed (message_request (cn_peer c) rd) b t c, v) \<and> bb_view b = rest \<and>
    w_socks v = (w_socks w)(cn_fd c := (w_socks w (cn_fd c))\<lparr>sk_recv := []\<rparr>) \<and> w_date v = w_date w \<and> w_time v = w_time w \<and>
    w_requests_received v = w_requests_received w + 1 \<and> w_pool v = (w_pool w)\<lparr>tp_queue :=
        [\<lparr>jb_conn = cn_self c, jb_cid = cn_id c, jb_seq = cn_next_seq c, jb_req = message_request (cn_peer c) rd\<rparr>]\<rparr>"
proof -
  have want: "want_read cfg c" using idle room by (simp add: idle_conn_def want_read_def length_bb_view)
  have wf: "bb_wf (cn_in c)" "ps_consumed (cn_parser c) = 0" using idle by (simp_all add: idle_conn_def conn_inv_def)
  have fits: "ps_consumed (cn_parser c) + length (bb_view (cn_in c) @ concat ps) \<le> unat (cf_max_request_bytes cfg)"
    using input(2) wf(2) unfolding input(1) by simp
  from read_loop_all [OF wf(1) want rc fits] obtain b t v where
    rl: "read_loop cfg c w = (ReadBreak, c\<lparr>cn_in := b, cn_last_activity := t\<rparr>, v)" and b: "bb_view b = message rd @ rest"
    and v: "w_socks v = (w_socks w)(cn_fd c := (w_socks w (cn_fd c))\<lparr>sk_recv := []\<rparr>)" "w_pool v = w_pool w" "w_date v = w_date w"
      "w_time v = w_time w" "w_requests_received v = w_requests_received w"
    unfolding input(1) by blast
  let ?d = "c\<lparr>cn_in := b, cn_last_activity := t\<rparr>"
  have "\<exists>b'. drain_requests cfg ?d v = (handed (message_request (cn_peer ?d) rd) b' (cn_last_activity ?d) ?d,
     v\<lparr>w_requests_received := w_requests_received v + 1, w_pool := (w_pool v)\<lparr>tp_queue :=
        [\<lparr>jb_conn = cn_self ?d, jb_cid = cn_id ?d, jb_seq = cn_next_seq ?d, jb_req = message_request (cn_peer ?d) rd\<rparr>]\<rparr>\<rparr>) \<and>
    bb_view b' = rest"
    by (rule drain_hands_over) (use idle pool ok b v input(2) in \<open>simp_all add: idle_conn_def\<close>)
  then obtain b' where dr: "drain_requests cfg ?d v = (handed (message_request (cn_peer c) rd) b' t c,
     v\<lparr>w_requests_received := w_requests_received v + 1, w_pool := (w_pool v)\<lparr>tp_queue :=
        [\<lparr>jb_conn = cn_self c, jb_cid = cn_id c, jb_seq = cn_next_seq c, jb_req = message_request (cn_peer c) rd\<rparr>]\<rparr>\<rparr>)"
    and b': "bb_view b' = rest" by (auto simp: handed_def)
  have "on_readable cfg c w = drain_requests cfg ?d v"
    using want idle by (simp add: on_readable_def rl dr idle_conn_def handed_def)
  with dr b' v show ?thesis by auto
qed

text \<open>A reply does not depend on the identity of its job, and says for itself whether it has a body.\<close>

lemma run_job_reply: "cm_response (run_job cfg throws j) = worker_reply cfg throws (jb_req j)" "cm_seq (run_job cfg throws j) = jb_seq j"
  by (simp_all add: worker_reply_def run_job_def Let_def)

lemma head_reply: "is_head req \<Longrightarrow> (worker_reply cfg throws req)\<lparr>rs_send_body := False\<rparr> = worker_reply cfg throws req"
  by (auto simp: worker_reply_def run_job_def Let_def)

lemma reply_answer:
  "(nat (rs_status (reply cfg peer rd)), if rs_send_body (reply cfg peer rd) then rs_body (reply cfg peer rd) else []) =
     answer cfg peer rd"
proof -
  let ?req = "message_request peer rd"
  have f: "framed (is_head ?req) (fst (handle_request ?req cfg))" by (rule handle_request_framed)
  have h: "\<not> framed True res" if "rs_send_body res" for res using that by (simp add: framed_def)
  show ?thesis using f h
    by (auto simp: reply_def worker_reply_def run_job_def answer_def framed_def make_error_response_def response_init_def rs_set_def Let_def)
qed

lemma reply_framed: "framed (is_head (message_request peer rd)) (reply cfg peer rd)"
  using run_job_framed [of "\<lparr>jb_conn = 0, jb_cid = 0, jb_seq = 0, jb_req = message_request peer rd\<rparr>" cfg "rd_throws rd"]
  by (simp add: reply_def worker_reply_def)

lemma result_sent:
  assumes idle: "idle_conn cfg c" and d: "d = handed req b t c" and inv: "conn_inv cfg d" and send: "list_all friendly (sk_send (w_socks w (cn_fd c)))"
    and date: "date_cache_ok (w_date w)" "length (format_date (w_time w)) < 64"
    and res: "res = worker_reply cfg throws req" and step: "on_worker_result res (cn_next_seq c) d w = (c', w')"
  shows "wire c' w' = wire d w @ serialize_response (format_date (w_time w)) res \<and>
    (\<exists>b t. c' = d\<lparr>cn_in_flight := False, cn_close_after := \<not> keeps_open res, cn_out := b, cn_last_activity := t\<rparr>) \<and>
    w_pool w' = w_pool w \<and> date_cache_ok (w_date w') \<and> w_requests_received w' = w_requests_received w \<and>
    sk_recv (w_socks w' (cn_fd c)) = sk_recv (w_socks w (cn_fd c)) \<and> list_all friendly (sk_send (w_socks w' (cn_fd c)))"
proof -
  have df: "cn_alive d" "cn_in_flight d" "cn_inflight_seq d = cn_next_seq c" "\<not> cn_close_after d" "cn_fd d = cn_fd c" "cn_last_head d = is_head req"
    using idle by (simp_all add: d handed_def idle_conn_def)
  let ?o = "bb_append_target (response_out res (d\<lparr>cn_in_flight := False\<rparr>) w) (cn_out d)"
  define e where "e = d\<lparr>cn_in_flight := False, cn_out := ?o, cn_close_after := \<not> keeps_open res\<rparr>"
  define v where "v = w\<lparr>w_date := snd (http_date_now (w_time w) (w_date w))\<rparr>"
  have f: "flush e v = (c', w')"
    using step df by (simp add: on_worker_result_def queue_response_eq e_def v_def keeps_open_def Let_def)
  have so: "still_open e v c' w'" by (rule flush_friendly [OF _ f]) (use send df in \<open>simp add: e_def v_def\<close>)
  then have al: "cn_alive c'" using df by (auto simp: still_open_def e_def)
  have now: "fst (http_date_now (w_time w) (w_date w)) = format_date (w_time w)" "date_cache_ok (w_date v)"
    using http_date_now_correct [OF date prod.collapse [symmetric]] by (simp_all add: v_def)
  have out: "response_out res d w = serialize_response (format_date (w_time w)) res"
    using head_reply [of req cfg throws] by (simp add: response_out_def now df res)
  have "wire c' w' = wire d w @ response_out res d w"
    using on_worker_result_wire [OF inv df(1,2), of res w c' w'] step al by (simp add: df)
  with so now df show ?thesis unfolding out by (auto simp: still_open_def e_def v_def)
qed

lemma evolves_sent: "evolves c w c' w' \<Longrightarrow> length (sent c w) \<le> length (sent c' w')"
  by (auto simp: evolves_def dest: prefix_length_le)

lemma arrive_simps:
  assumes "sk_recv (w_socks w fd) = []" "list_all friendly (sk_send (w_socks w fd))" "list_all friendly (rd_send rd)"
  shows "sk_recv (w_socks (arrive rd fd w) fd) = map RecvBytes (rd_recv rd)" "w_pool (arrive rd fd w) = w_pool w"
    "w_date (arrive rd fd w) = w_date w" "w_time (arrive rd fd w) = rd_time rd"
    "w_requests_received (arrive rd fd w) = w_requests_received w" "sk_sent (w_socks (arrive rd fd w) fd) = sk_sent (w_socks w fd)"
    "list_all friendly (sk_send (w_socks (arrive rd fd w) fd))"
  using assms by (simp_all add: arrive_def sock_update_def)

lemma exchange_round:
  assumes idle: "idle_conn cfg c" and quiet: "quiet_world (cn_fd c) w" and room: "length (bb_view (cn_out c)) < unat (cf_max_output_bytes cfg)"
    and conv: "conversation cfg (cn_peer c) (bb_view (cn_in c)) (rd # rds)" and step: "exchange cfg rd (c, w) = (c', w')"
  shows "wire c' w' = wire c w @ reply_text cfg (cn_peer c) rd \<and> cn_fd c' = cn_fd c \<and> cn_peer c' = cn_peer c \<and> cn_alive c' \<and>
    bb_view (cn_in c') = drop (length (message rd)) (bb_view (cn_in c) @ concat (rd_recv rd)) \<and> quiet_world (cn_fd c) w' \<and>
    w_requests_received w' = w_requests_received w + 1 \<and> \<not> cn_in_flight c' \<and> cn_close_after c' = (\<not> keeps_open (reply cfg (cn_peer c) rd)) \<and>
    (keeps_open (reply cfg (cn_peer c) rd) \<longrightarrow> idle_conn cfg c') \<and> length (sent c w) \<le> length (sent c' w')"
proof -
  let ?in = "bb_view (cn_in c) @ concat (rd_recv rd)" and ?req = "message_request (cn_peer c) rd"
  let ?w = "arrive rd (cn_fd c) w"
  have q: "sk_recv (w_socks w (cn_fd c)) = []" "list_all friendly (sk_send (w_socks w (cn_fd c)))" "date_cache_ok (w_date w)" "pool_free (w_pool w)"
    using quiet by (simp_all add: quiet_world_def)
  have r: "sendable (limits_of cfg) (rd_method rd) (rd_target rd) (rd_minor rd) (rd_headers rd) (rd_payload rd)"
    "list_all (\<lambda>bs. bs \<noteq> []) (rd_recv rd)" "list_all friendly (rd_send rd)" "length ?in \<le> unat (cf_max_request_bytes cfg)"
    "take (length (message rd)) ?in = message rd" "length (format_date (rd_time rd)) < 64"
    using conv by (simp_all only: conversation.simps Let_def)
  define rest where "rest = drop (length (message rd)) ?in"
  have input: "?in = message rd @ rest" using r(5) unfolding rest_def by (metis append_take_drop_id)
  note aw = arrive_simps [OF q(1,2) r(3)]
  have p: "pool_free (w_pool ?w)" using q(4) aw(2) by simp
  have fits: "length (message rd @ rest) \<le> unat (cf_max_request_bytes cfg)" using r(4) unfolding input .
  obtain b t v where rd: "on_readable cfg c ?w = (handed ?req b t c, v)" and b: "bb_view b = rest"
    and vs: "w_socks v = (w_socks ?w)(cn_fd c := (w_socks ?w (cn_fd c))\<lparr>sk_recv := []\<rparr>)" and vd: "w_date v = w_date w"
    and vt: "w_time v = rd_time rd" and vr: "w_requests_received v = w_requests_received w + 1"
    and vp: "w_pool v = (w_pool w)\<lparr>tp_queue := [\<lparr>jb_conn = cn_self c, jb_cid = cn_id c, jb_seq = cn_next_seq c, jb_req = ?req\<rparr>]\<rparr>"
    using readable_hands_over [OF idle room aw(1) r(2) p r(1) input fits] aw(2-5) by (auto simp del: length_append)
  let ?d = "handed ?req b t c" and ?v = "v\<lparr>w_pool := w_pool w\<rparr>"
  have inv: "conn_inv cfg ?d" and ev: "evolves c ?w ?d v"
    using conn_ok_on_readable [OF _ rd] idle by (simp_all add: idle_conn_def conn_ok_def)
  have pw: "(w_pool w)\<lparr>tp_queue := []\<rparr> = w_pool w" using q(4) by (cases "w_pool w") (simp add: pool_free_def)
  have step': "on_worker_result (reply cfg (cn_peer c) rd) (cn_next_seq c) ?d ?v = (c', w')"
    using step by (simp add: exchange_def rd vp run_section_def run_job_reply reply_def pw Let_def)
  have "wire c' w' = wire ?d ?v @ serialize_response (format_date (w_time ?v)) (reply cfg (cn_peer c) rd) \<and>
    (\<exists>b t. c' = ?d\<lparr>cn_in_flight := False, cn_close_after := \<not> keeps_open (reply cfg (cn_peer c) rd), cn_out := b, cn_last_activity := t\<rparr>) \<and>
    w_pool w' = w_pool ?v \<and> date_cache_ok (w_date w') \<and> w_requests_received w' = w_requests_received ?v \<and>
    sk_recv (w_socks w' (cn_fd c)) = sk_recv (w_socks ?v (cn_fd c)) \<and> list_all friendly (sk_send (w_socks w' (cn_fd c)))"
    by (rule result_sent [OF idle refl inv _ _ _ reply_def step']) (use aw q r(6) vs vd vt in simp_all)
  moreover have "wire ?d ?v = wire c w" using vs aw by (simp add: wire_def sent_def handed_def)
  moreover have "conn_inv cfg c'" and ev': "evolves ?d ?v c' w'"
    using conn_ok_on_worker_result [OF inv step'] by (simp_all add: conn_ok_def)
  moreover have "sent c w = sent c ?w" "sent ?d v = sent ?d ?v" using aw(6) by (simp_all add: sent_def)
  then have "length (sent c w) \<le> length (sent c' w')"
    using evolves_sent [OF ev] evolves_sent [OF ev'] by simp
  ultimately show ?thesis
    using idle q(4) b vs vr vt unfolding rest_def by (auto simp: reply_text_def quiet_world_def idle_conn_def handed_def)
qed

section \<open>The whole conversation\<close>

lemma reply_text_ne: "reply_text cfg peer rd \<noteq> []"
  by (simp add: reply_text_def serialize_response_def)

lemma exchange_all:
  assumes "idle_conn cfg c" and "quiet_world (cn_fd c) w" and "conversation cfg (cn_peer c) (bb_view (cn_in c)) rds"
    and "length (bb_view (cn_out c)) + length (concat (map (reply_text cfg (cn_peer c)) rds)) \<le> unat (cf_max_output_bytes cfg)"
    and "fold (exchange cfg) rds (c, w) = (c', w')"
  shows "wire c' w' = wire c w @ concat (map (reply_text cfg (cn_peer c)) rds) \<and> cn_alive c' \<and> \<not> cn_in_flight c' \<and>
    w_requests_received w' = w_requests_received w + of_nat (length rds) \<and>
    (cn_close_after c' \<longleftrightarrow> rds \<noteq> [] \<and> \<not> keeps_open (reply cfg (cn_peer c) (last rds)))"
  using assms
proof (induction rds arbitrary: c w)
  case Nil
  then show ?case by (simp add: idle_conn_def)
next
  case (Cons rd rds)
  obtain d v where st: "exchange cfg rd (c, w) = (d, v)" by fastforce
  have room: "length (bb_view (cn_out c)) < unat (cf_max_output_bytes cfg)"
    using Cons.prems(4) reply_text_ne [of cfg "cn_peer c" rd] by (cases "reply_text cfg (cn_peer c) rd") auto
  note rnd = exchange_round [OF Cons.prems(1,2) room Cons.prems(3) st]
  have fold: "fold (exchange cfg) rds (d, v) = (c', w')" using Cons.prems(5) st by simp
  show ?case
  proof (cases rds)
    case Nil
    with fold rnd show ?thesis by simp
  next
    case rest: (Cons rd' rds')
    have keep: "keeps_open (reply cfg (cn_peer c) rd)" using Cons.prems(3) rest by (simp add: Let_def)
    have conv: "conversation cfg (cn_peer d) (bb_view (cn_in d)) rds"
      using Cons.prems(3) rnd by (simp only: conversation.simps Let_def)
    have "length (wire d v) = length (wire c w) + length (reply_text cfg (cn_peer c) rd)" using rnd by simp
    then have "length (bb_view (cn_out d)) + length (concat (map (reply_text cfg (cn_peer d)) rds)) \<le> unat (cf_max_output_bytes cfg)"
      using Cons.prems(4) rnd by (simp add: wire_def)
    from Cons.IH [OF _ _ conv this fold] rnd keep rest show ?thesis by simp
  qed
qed

lemma exchange_refines:
  assumes "idle_conn cfg c" and "quiet_world (cn_fd c) w" and "conversation cfg (cn_peer c) (bb_view (cn_in c)) rds"
    and "length (bb_view (cn_out c)) + length (concat (map (reply_text cfg (cn_peer c)) rds)) \<le> unat (cf_max_output_bytes cfg)"
    and "fold (exchange cfg) rds (c, w) = (c', w')"
  shows "\<exists>replies. wire c' w' = wire c w @ replies \<and>
    read_responses (map (\<lambda>rd. is_head (message_request (cn_peer c) rd)) rds) replies = Some (map (answer cfg (cn_peer c)) rds, [])"
proof -
  let ?rs = "map (\<lambda>rd. (is_head (message_request (cn_peer c) rd), format_date (rd_time rd), reply cfg (cn_peer c) rd)) rds"
  have "list_all (\<lambda>(h, date, res). framed h res \<and> clean_line date) ?rs"
    by (simp add: list.pred_map comp_def reply_framed format_date_clean list.pred_True)
  from read_responses_serialized [OF this, of "[]"]
  have "read_responses (map (\<lambda>rd. is_head (message_request (cn_peer c) rd)) rds) (concat (map (reply_text cfg (cn_peer c)) rds)) =
      Some (map (answer cfg (cn_peer c)) rds, [])"
    by (simp add: comp_def reply_text_def [abs_def] reply_answer)
  with exchange_all [OF assms] show ?thesis by blast
qed

end
