(* ===== verification/Fd_Balance.thy ===== *)
theory Fd_Balance
  imports Event_Loop_Run
begin

text \<open>
  The balance of descriptors.  Every descriptor that is open is one the process started with, one that a member of
  the loop owns, or the socket of a connection that a shared pointer holds; and the server never closes one that it was started with.
\<close>

section \<open>Handlers keep the descriptor of their connection\<close>

lemma queue_error_fd: "(case queue_error st d c w of (c, w) \<Rightarrow> flush c w) = (c', w') \<Longrightarrow> cn_fd c' = cn_fd c"
  by (auto simp: queue_error_eq dest: flush_frames)

lemma read_iter_fd: "read_iter cfg c w = (ctl, c', w') \<Longrightarrow> cn_fd c' = cn_fd c"
  by (erule read_iterE) (auto simp: conn_kill_def dest: queue_error_fd)

lemma read_loop_fd: "read_loop cfg c w = (ctl, c', w') \<Longrightarrow> cn_fd c' = cn_fd c"
  by (rule read_rule [where I = "\<lambda>d v. cn_fd d = cn_fd c"]) (auto dest: read_iter_fd)

lemma submit_fd: "submit req c w = (c', w') \<Longrightarrow> cn_fd c' = cn_fd c"
  by (auto simp: submit_eq queue_error_eq split: prod.splits if_splits)

lemma drain_iter_fd: "drain_iter cfg c w = (again, c', w') \<Longrightarrow> cn_fd c' = cn_fd c"
  by (erule drain_iterE) (auto dest: flush_frames queue_error_fd submit_fd)

lemma drain_requests_fd: "drain_requests cfg c w = (c', w') \<Longrightarrow> cn_fd c' = cn_fd c"
  by (rule drain_rule [where I = "\<lambda>d v. cn_fd d = cn_fd c" and Q = "\<lambda>d v. cn_fd d = cn_fd c"])
     (auto dest: drain_iter_fd split: prod.split)

definition keeps_fd :: "(connection \<Rightarrow> world \<Rightarrow> connection \<times> world) \<Rightarrow> bool" where
  "keeps_fd f = (\<forall>c w. cn_fd (fst (f c w)) = cn_fd c)"

lemma keeps_fd_flush: "keeps_fd flush"
  unfolding keeps_fd_def using flush_frames [OF prod.collapse [symmetric]] by blast

lemma keeps_fd_handlers [simp]:
  "keeps_fd (on_readable cfg)" "keeps_fd on_writable" "keeps_fd (on_hangup ev)" "keeps_fd (on_tick oob cfg now)"
  "keeps_fd (\<lambda>c w. (begin_draining c, w))" "keeps_fd (\<lambda>c w. (conn_kill c, w))" "keeps_fd (on_worker_result res seq)"
proof -
  have fl: "cn_fd (fst (flush c w)) = cn_fd c" for c w using keeps_fd_flush by (simp add: keeps_fd_def)
  show "keeps_fd (on_readable cfg)"
    unfolding keeps_fd_def on_readable_def Let_def
    by (auto dest: read_loop_fd split: prod.split) (metis read_loop_fd drain_requests_fd)+
  show "keeps_fd on_writable" "keeps_fd (on_hangup ev)"
    by (simp_all add: keeps_fd_def on_writable_def on_hangup_def conn_kill_def fl)
  show "keeps_fd (on_tick oob cfg now)"
    by (auto simp: keeps_fd_def on_tick_def conn_kill_def fl queue_error_eq Let_def)
  show "keeps_fd (\<lambda>c w. (begin_draining c, w))" "keeps_fd (\<lambda>c w. (conn_kill c, w))"
    by (simp_all add: keeps_fd_def begin_draining_def conn_kill_def Let_def)
  show "keeps_fd (on_worker_result res seq)"
    by (auto simp: keeps_fd_def on_worker_result_def queue_response_eq fl Let_def)
qed

section \<open>The balance\<close>

text \<open>
  \<open>K\<close> are the descriptors the process was started with, \<open>X\<close> those that are open and owned by a local variable or by nobody;
  \<open>H\<close> are the local pointers to connections.
\<close>

definition mems :: "loop \<Rightarrow> int set" where
  "mems l = {fd \<in> members l. 0 \<le> fd}"

text \<open>The descriptors the members own, in the order in which the members are destroyed.\<close>

definition mem_list :: "loop \<Rightarrow> int list" where
  "mem_list l = filter (\<lambda>fd. 0 \<le> fd) [lp_sig l, lp_wake l, lp_listen l, lp_epfd l]"

lemma set_mem_list: "set (mem_list l) = mems l"
  by (auto simp: mem_list_def mems_def members_def)

definition fds_owned :: "int set \<Rightarrow> int set \<Rightarrow> nat list \<Rightarrow> loop \<Rightarrow> bool" where
  "fds_owned K X H l =
     (K \<subseteq> set (ft_open (lp_fds l)) \<and>
      (\<forall>fd \<in> set (ft_open (lp_fds l)). fd \<in> K \<union> X \<union> mems l \<or> (\<exists>oid. held H l oid \<and> cn_fd (lp_objs l oid) = fd)) \<and>
      mems l \<inter> K = {} \<and>
      (\<forall>oid. held H l oid \<longrightarrow> cn_fd (lp_objs l oid) \<notin> K \<and> oid < lp_next_obj l) \<and>
      distinct (map fst (lp_conns l)) \<and> distinct (mem_list l) \<and> lp_exit_code l \<in> {0, 1})"

lemma fds_ownedI:
  assumes "K \<subseteq> set (ft_open (lp_fds l))"
    and "\<And>fd. fd \<in> set (ft_open (lp_fds l)) \<Longrightarrow> fd \<notin> K \<Longrightarrow> fd \<notin> X \<Longrightarrow> fd \<notin> mems l \<Longrightarrow> \<exists>oid. held H l oid \<and> cn_fd (lp_objs l oid) = fd"
    and "mems l \<inter> K = {}" and "\<And>oid. held H l oid \<Longrightarrow> cn_fd (lp_objs l oid) \<notin> K \<and> oid < lp_next_obj l"
    and "distinct (map fst (lp_conns l))" and "lp_exit_code l \<in> {0, 1}" and "distinct (mem_list l)"
  shows "fds_owned K X H l"
  using assms unfolding fds_owned_def by blast

lemma fds_ownedD:
  assumes "fds_owned K X H l"
  shows "K \<subseteq> set (ft_open (lp_fds l))"
    and "fd \<in> set (ft_open (lp_fds l)) \<Longrightarrow> fd \<notin> K \<Longrightarrow> fd \<notin> X \<Longrightarrow> fd \<notin> mems l \<Longrightarrow> \<exists>oid. held H l oid \<and> cn_fd (lp_objs l oid) = fd"
    and "mems l \<inter> K = {}" and "held H l oid \<Longrightarrow> cn_fd (lp_objs l oid) \<notin> K \<and> oid < lp_next_obj l"
    and "distinct (map fst (lp_conns l))" and "lp_exit_code l \<in> {0, 1}" and "distinct (mem_list l)"
  using assms unfolding fds_owned_def by blast+

text \<open>What most operations leave alone, and that a pointer is only copied from one that exists.\<close>

definition grows :: "nat list \<Rightarrow> loop \<Rightarrow> loop \<Rightarrow> bool" where
  "grows H l l' =
     (lp_conns l' = lp_conns l \<and> lp_fds l' = lp_fds l \<and> mem4 l' = mem4 l \<and> lp_next_obj l' = lp_next_obj l \<and>
      lp_exit_code l' = lp_exit_code l \<and> (\<forall>oid. cn_fd (lp_objs l' oid) = cn_fd (lp_objs l oid)) \<and>
      set (lp_rescan l) \<subseteq> set (lp_rescan l') \<and> (\<forall>oid \<in> set (lp_rescan l'). held H l oid))"

lemma mem4_members: "mem4 l' = mem4 l \<Longrightarrow> mems l' = mems l \<and> mem_list l' = mem_list l"
  by (simp add: mem4_def members_def mems_def mem_list_def)

lemma growsD: "grows H l l' \<Longrightarrow> held H l' = held H l"
  by (auto simp: grows_def held_def live_def fun_eq_iff)

lemma grows_refl [simp]: "grows H l l"
  by (simp add: grows_def held_def live_def)

lemma grows_trans: "grows H l l' \<Longrightarrow> grows H l' l'' \<Longrightarrow> grows H l l''"
  using growsD [of H l l'] by (simp add: grows_def) blast

lemma grows_owned:
  assumes "grows H l l'" and b: "fds_owned K X H l"
  shows "fds_owned K X H l'"
proof -
  have same: "mems l' = mems l" "mem_list l' = mem_list l" "held H l' = held H l" "lp_fds l' = lp_fds l" "lp_conns l' = lp_conns l"
    "lp_next_obj l' = lp_next_obj l" "lp_exit_code l' = lp_exit_code l" "\<And>oid. cn_fd (lp_objs l' oid) = cn_fd (lp_objs l oid)"
    using assms(1) mem4_members [of l' l] growsD [OF assms(1)] by (simp_all add: grows_def)
  from b show ?thesis unfolding fds_owned_def same .
qed

lemma grows_fold: "(\<And>x k. x \<in> set xs \<Longrightarrow> held H k = held H l \<Longrightarrow> grows H k (f x k)) \<Longrightarrow> grows H l (fold f xs l)"
proof (induction xs arbitrary: l)
  case (Cons x xs)
  then have 1: "grows H l (f x l)" by simp
  have "grows H (f x l) (fold f xs (f x l))" by (rule Cons.IH) (use Cons.prems growsD [OF 1] in simp)
  with 1 show ?case by (auto intro: grows_trans)
qed simp

lemma grows_simps [simp]:
  "grows H l (note_io what peer e l)" "grows H l (log_note en l)" "grows H l (snd (loop_now l))" "grows H l (snd (sys_result l))"
  "grows H l (push_finished l)" "grows H l (sys_logged what peer l)" "grows H l (snd (epoll_add fd m l))" "grows H l (snd (epoll_del fd l))"
  "grows H l (l\<lparr>lp_reap := fds\<rparr>)" "grows H l (l\<lparr>lp_last_tick := now\<rparr>)" "grows H l (l\<lparr>lp_completions := cms\<rparr>)"
  "grows H l (l\<lparr>lp_accept := es\<rparr>)" "grows H l (l\<lparr>lp_accept_retry := r\<rparr>)" "grows H l (l\<lparr>lp_world := w\<rparr>)"
  "grows H l (l\<lparr>lp_forced_shutdown := r\<rparr>)" "grows H l (l\<lparr>lp_drain_deadline := now\<rparr>)" "grows H l (l\<lparr>lp_draining := r\<rparr>)"
  "grows H l (l\<lparr>lp_files := fs\<rparr>)" "grows H l (l\<lparr>lp_bound_port := port\<rparr>)"
  by (simp_all add: grows_def held_def live_def mem4_def note_io_def log_note_def loop_now_def sys_result_def push_finished_def
      sys_logged_def epoll_add_def epoll_del_def case_prod_unfold split: list.split)

lemma grows_with_conn: "keeps_fd f \<Longrightarrow> grows H l (with_conn oid f l)"
  by (auto simp: grows_def keeps_fd_def with_conn_def held_def live_def mem4_def split: prod.split) (metis fst_conv)

lemma grows_after_callback: "held H l oid \<Longrightarrow> grows H l (after_callback oid l)"
  by (auto simp: grows_def after_callback_def set_interest_def epoll_mod_def sys_result_def note_io_def held_def live_def mem4_def Let_def
      split: list.split)

lemma grows_callback:
  assumes "keeps_fd f" and "held H l oid"
  shows "grows H l (after_callback oid (with_conn oid f l))"
  by (rule grows_trans [OF grows_with_conn [OF assms(1)] grows_after_callback]) (use assms(2) in simp)

lemma grows_wake: "grows H l (wake_loop es l)" "grows H l (drain_wake_loop es l)" "grows H l (signal_loop ss l)"
proof -
  show "grows H l (wake_loop es l)"
    by (induction es l rule: wake_loop.induct) (auto simp: grows_def mem4_def held_def live_def)
  show "grows H l (drain_wake_loop es l)"
    by (induction es l rule: drain_wake_loop.induct) (auto simp: grows_def mem4_def held_def live_def)
  show "grows H l (signal_loop ss l)"
    by (induction ss l rule: signal_loop.induct)
       (auto simp: grows_def mem4_def held_def live_def on_signal_def log_note_def split: if_splits)
qed

section \<open>Closing\<close>

lemma set_sys_close: "set (ft_open (sys_close fd t)) = set (ft_open t) - {fd}"
  by (auto simp: sys_close_def)

lemma set_loop_close: "set (ft_open (lp_fds (loop_close fd l))) = set (ft_open (lp_fds l)) - {fd}"
  by (simp add: loop_close_def set_sys_close)

lemma loop_close_frames [simp]:
  "held H (loop_close fd l) = held H l" "mems (loop_close fd l) = mems l" "mem_list (loop_close fd l) = mem_list l" "lp_objs (loop_close fd l) = lp_objs l"
  "lp_next_obj (loop_close fd l) = lp_next_obj l" "lp_conns (loop_close fd l) = lp_conns l"
  "lp_exit_code (loop_close fd l) = lp_exit_code l" "lp_rescan (loop_close fd l) = lp_rescan l"
  by (simp_all add: loop_close_def held_def live_def mems_def mem_list_def members_def fun_eq_iff)

lemma destroy_owned: "fds_owned K X (oid # H) l \<Longrightarrow> fds_owned K X H (destroy oid l)"
  unfolding fds_owned_def destroy_def set_loop_close loop_close_frames by (auto simp: held_def)

lemma fold_destroy_owned: "fds_owned K X (oids @ H) l \<Longrightarrow> fds_owned K X H (fold destroy oids l)"
  by (induction oids arbitrary: l) (auto intro: destroy_owned)

lemma owned_held: "fds_owned K X H l \<Longrightarrow> held H' l = held H l \<Longrightarrow> fds_owned K X H' l"
  by (simp add: fds_owned_def)

lemma drop_refs_owned:
  assumes "fds_owned K X oids l"
  shows "fds_owned K X [] (drop_refs oids l)"
proof -
  let ?os = "filter (\<lambda>oid. \<not> live l oid) (remdups oids)"
  have "held (?os @ []) l = held oids l" by (auto simp: held_def fun_eq_iff)
  from fold_destroy_owned [OF owned_held [OF assms this]] show ?thesis by (simp add: drop_refs_def)
qed

lemma close_extra_owned: "fds_owned K (insert fd X) H l \<Longrightarrow> fd \<notin> K \<Longrightarrow> fds_owned K X H (loop_close fd l)"
  unfolding fds_owned_def set_loop_close loop_close_frames by auto

lemma remove_conn_owned:
  assumes b: "fds_owned K X [] l" and oid: "map_of (lp_conns l) fd = Some oid"
  shows "fds_owned K X [oid] (l\<lparr>lp_conns := filter (\<lambda>e. fst e \<noteq> fd) (lp_conns l)\<rparr>)" (is "fds_owned K X [oid] ?l")
proof -
  have "o' = oid" if "(fd, o') \<in> set (lp_conns l)" for o'
    using map_of_is_SomeI [OF fds_ownedD(5) [OF b] that] oid by simp
  then have "snd e = oid \<or> e \<in> set (filter (\<lambda>e. fst e \<noteq> fd) (lp_conns l))" if "e \<in> set (lp_conns l)" for e
    using that by (cases e) auto
  moreover have "oid \<in> snd ` set (lp_conns l)" using map_of_SomeD [OF oid] by force
  ultimately have "insert oid (snd ` set (filter (\<lambda>e. fst e \<noteq> fd) (lp_conns l))) = snd ` set (lp_conns l)" by fastforce
  then have "held [oid] ?l = held [] l" by (auto simp: held_def live_def fun_eq_iff)
  moreover have "distinct (map fst (filter (\<lambda>e. fst e \<noteq> fd) (lp_conns l)))" using fds_ownedD(5) [OF b] by (rule distinct_map_filter)
  ultimately show ?thesis using b by (simp add: fds_owned_def mems_def members_def mem_list_def)
qed

lemma reap_one_owned:
  assumes b: "fds_owned K X [] l"
  shows "fds_owned K X [] (reap_one fd l)"
proof (cases "map_of (lp_conns l) fd")
  case (Some oid)
  let ?c = "lp_objs l oid"
  obtain r l1 where d: "epoll_del fd l = (r, l1)" by fastforce
  define l2 where "l2 = (if r \<noteq> 0 \<and> r \<noteq> ENOENT \<and> r \<noteq> EBADF then note_io ''epoll_ctl DEL'' (cn_peer ?c) r l1 else l1)"
  define l3 where "l3 = (if cf_verbose (lp_cfg l2) then log_note (LogClosing (cn_peer ?c) (cn_served ?c)) l2 else l2)"
  let ?l4 = "l3\<lparr>lp_conns := filter (\<lambda>e. fst e \<noteq> fd) (lp_conns l3)\<rparr>"
  have "grows [] l l1" using grows_simps(8) [of "[]" l fd] d by simp
  moreover have "grows [] l1 l2" "grows [] l2 l3" by (simp_all add: l3_def l2_def)
  ultimately have g: "grows [] l l3" by (blast intro: grows_trans)
  have "fds_owned K X [oid] ?l4"
    by (rule remove_conn_owned [OF grows_owned [OF g b]]) (use g Some in \<open>simp add: grows_def\<close>)
  moreover have "held [oid] ?l4 = held [] ?l4" if "live ?l4 oid" using that by (auto simp: held_def fun_eq_iff)
  moreover have "reap_one fd l = (if live ?l4 oid then ?l4 else destroy oid ?l4)"
    by (simp only: reap_one_def Some d Let_def l2_def [symmetric] l3_def [symmetric] option.case prod.case)
  ultimately show ?thesis using destroy_owned owned_held by metis
qed (use b in \<open>simp add: reap_one_def\<close>)

lemma reap_owned: "fds_owned K X [] l \<Longrightarrow> fds_owned K X [] (reap l)"
proof -
  assume b: "fds_owned K X [] l"
  have "fds_owned K X [] (fold reap_one fds l)" for fds
    using b by (induction fds arbitrary: l) (simp_all add: reap_one_owned)
  with b show ?thesis by (auto simp: reap_def intro: grows_owned [OF grows_simps(9)])
qed

section \<open>Opening\<close>

lemma sys_open_owned:
  assumes b: "fds_owned K X H l" and op: "sys_open (lp_fds l) = (fd, t)"
  shows "fds_owned K (insert fd X) H (l\<lparr>lp_fds := t\<rparr>)" "fd \<notin> K" "0 \<le> fd"
proof -
  have fd: "fd = lowest_unused (ft_open (lp_fds l))" and t: "set (ft_open t) = insert fd (set (ft_open (lp_fds l)))"
    using op by (auto simp: sys_open_def Let_def)
  show "fd \<notin> K" using fds_ownedD(1) [OF b] lowest_unused_fresh [of "ft_open (lp_fds l)"] unfolding fd by blast
  show "0 \<le> fd" unfolding fd by (rule lowest_unused_nonneg)
  have "held H (l\<lparr>lp_fds := t\<rparr>) = held H l" "mems (l\<lparr>lp_fds := t\<rparr>) = mems l"
    "mem_list (l\<lparr>lp_fds := t\<rparr>) = mem_list l"
    by (simp_all add: held_def live_def mem_list_def mems_def members_def fun_eq_iff)
  with b show "fds_owned K (insert fd X) H (l\<lparr>lp_fds := t\<rparr>)" unfolding fds_owned_def by (auto simp: t)
qed

lemma new_object_owned:
  assumes b: "fds_owned K (insert fd X) H l" and fd: "fd \<notin> K" "cn_fd c = fd"
  shows "fds_owned K X (lp_next_obj l # H) (l\<lparr>lp_next_obj := Suc (lp_next_obj l), lp_objs := (lp_objs l)(lp_next_obj l := c)\<rparr>)"
    (is "fds_owned K X (?oid # H) ?l")
proof -
  have h: "held (?oid # H) ?l oid \<longleftrightarrow> oid = ?oid \<or> held H l oid" for oid by (auto simp: held_def live_def)
  have same: "mems ?l = mems l" "mem_list ?l = mem_list l" by (simp_all add: mems_def members_def mem_list_def)
  have o: "oid \<noteq> ?oid" if "held H l oid" for oid using fds_ownedD(4) [OF b that] by simp
  show ?thesis
  proof (rule fds_ownedI)
    fix x assume x: "x \<in> set (ft_open (lp_fds ?l))" "x \<notin> K" "x \<notin> X" "x \<notin> mems ?l"
    show "\<exists>oid. held (?oid # H) ?l oid \<and> cn_fd (lp_objs ?l oid) = x"
    proof (cases "x = fd")
      case True
      with fd h show ?thesis by (intro exI [of _ ?oid]) simp
    next
      case False
      with fds_ownedD(2) [OF b, of x] x same obtain oid where "held H l oid" "cn_fd (lp_objs l oid) = x" by auto
      with o h show ?thesis by (intro exI [of _ oid]) auto
    qed
  qed (use fds_ownedD [OF b] fd h o same in \<open>auto simp: less_SucI\<close>)
qed

lemma add_conn_owned:
  assumes b: "fds_owned K X (oid # H) l" and new: "fd \<notin> fst ` set (lp_conns l)"
  shows "fds_owned K X H (l\<lparr>lp_conns := lp_conns l @ [(fd, oid)]\<rparr>)" (is "fds_owned K X H ?l")
proof -
  have "held H ?l = held (oid # H) l" by (auto simp: held_def live_def fun_eq_iff)
  with b new show ?thesis by (simp add: fds_owned_def mems_def members_def mem_list_def)
qed

section \<open>The operations of the loop\<close>

lemma admit_owned:
  assumes b: "fds_owned K (insert fd X) [] l" and fd: "fd \<notin> K"
  shows "fds_owned K X [] (admit fd peer l)"
proof -
  obtain now l1 where n: "loop_now (l\<lparr>lp_next_conn_id := lp_next_conn_id l + 1\<rparr>) = (now, l1)" by fastforce
  have "grows [] l (l\<lparr>lp_next_conn_id := lp_next_conn_id l + 1\<rparr>)" by (simp add: grows_def held_def live_def mem4_def)
  with grows_simps(3) [of "[]" "l\<lparr>lp_next_conn_id := lp_next_conn_id l + 1\<rparr>"] have g: "grows [] l l1"
    unfolding n snd_conv by (blast intro: grows_trans)
  define c where "c = connection_init (lp_next_obj l1) fd (lp_next_conn_id l + 1) peer (lp_cfg l1) now"
  let ?oid = "lp_next_obj l1" and ?m = "interest_mask (lp_cfg l1) c"
  define l2 where "l2 = l1\<lparr>lp_next_obj := Suc (lp_next_obj l1), lp_objs := (lp_objs l1)(lp_next_obj l1 := c)\<rparr>"
  have c: "cn_fd c = fd" by (simp add: c_def connection_init_def)
  have b2: "fds_owned K X [?oid] l2" unfolding l2_def by (rule new_object_owned [OF grows_owned [OF g b] fd c])
  obtain r l3 where r: "epoll_add fd ?m l2 = (r, l3)" by fastforce
  then have "grows [?oid] l2 l3" using grows_simps(7) [of "[?oid]" l2 fd ?m] by simp
  then have b3: "fds_owned K X [?oid] l3" by (rule grows_owned [OF _ b2])
  define l4 where "l4 = l3\<lparr>lp_objs := (lp_objs l3)(?oid := c\<lparr>cn_applied_mask := ?m\<rparr>)\<rparr>"
  have "cn_fd (lp_objs l3 ?oid) = fd" using \<open>grows [?oid] l2 l3\<close> c by (simp add: grows_def l2_def)
  then have "grows [?oid] l3 l4" using c by (auto simp: l4_def grows_def held_def live_def mem4_def)
  then have b4: "fds_owned K X [?oid] l4" by (rule grows_owned [OF _ b3])
  define l5 where "l5 = (if map_of (lp_conns l4) fd = None then l4\<lparr>lp_conns := lp_conns l4 @ [(fd, ?oid)]\<rparr> else destroy ?oid l4)"
  have b5: "fds_owned K X [] l5" unfolding l5_def using add_conn_owned [OF b4] destroy_owned [OF b4] by (simp add: map_of_eq_None_iff)
  have "fds_owned K X [] (l5\<lparr>lp_accepted := n\<rparr>)" for n
    by (rule grows_owned [OF _ b5]) (simp add: grows_def held_def live_def mem4_def)
  moreover have "fds_owned K X [] (destroy ?oid (note_io ''epoll_ctl ADD connection'' peer r l3))"
    by (rule destroy_owned [OF grows_owned [OF grows_simps(1) b3]])
  moreover have "lp_next_obj l1 = lp_next_obj l" using g by (simp add: grows_def)
  then have "admit fd peer l = (if r \<noteq> 0 then destroy ?oid (note_io ''epoll_ctl ADD connection'' peer r l3)
      else let l6 = l5\<lparr>lp_accepted := lp_accepted l5 + 1\<rparr>
           in if cf_verbose (lp_cfg l6) then log_note (LogAccepted (length (lp_conns l6))) l6 else l6)"
    using n r by (simp add: admit_def next_connection_id_def c_def l2_def l5_def l4_def Let_def)
  ultimately show ?thesis using grows_owned [OF grows_simps(2)] by (simp add: Let_def)
qed

lemma reject_owned:
  assumes "fds_owned K (insert fd X) [] l" and "fd \<notin> K"
  shows "fds_owned K X [] (reject_connection fd reason l)"
proof -
  have "fds_owned K X [] (loop_close fd (l\<lparr>lp_world := w\<rparr>))" for w
    by (rule close_extra_owned [OF grows_owned [OF grows_simps(14) assms(1)] assms(2)])
  moreover have "grows [] k (k\<lparr>lp_rejected_connections := n\<rparr>)" for k n by (simp add: grows_def held_def live_def mem4_def)
  ultimately show ?thesis unfolding reject_connection_def Let_def by (auto intro: grows_owned split: prod.split)
qed

lemma accepted_fd_owned:
  assumes b: "fds_owned K X [] l"
  shows "fds_owned K X [] (accepted_fd s peer l)"
proof -
  obtain fd t where o: "sys_open (lp_fds l) = (fd, t)" by fastforce
  note op = sys_open_owned [OF b o]
  define l1 where "l1 = l\<lparr>lp_fds := t, lp_world := sock_update fd (\<lambda>_. s) (lp_world l)\<rparr>"
  define l2 where "l2 = sys_logged ''setsockopt SO_KEEPALIVE'' ''accepted'' (sys_logged ''setsockopt TCP_NODELAY'' ''accepted'' l1)"
  have "l1 = (l\<lparr>lp_fds := t\<rparr>)\<lparr>lp_world := sock_update fd (\<lambda>_. s) (lp_world l)\<rparr>" by (simp add: l1_def)
  then have "fds_owned K (insert fd X) [] l1" using grows_owned [OF grows_simps(14) op(1)] by simp
  then have b2: "fds_owned K (insert fd X) [] l2" unfolding l2_def by (intro grows_owned [OF grows_simps(6)])
  have "accepted_fd s peer l = (if lp_draining l2 then reject_connection fd ''server is shutting down'' l2
      else if length (lp_conns l2) \<ge> unat (cf_max_connections (lp_cfg l2))
      then reject_connection fd ''connection limit reached'' l2 else admit fd peer l2)"
    by (simp only: accepted_fd_def o Let_def prod.case l1_def [symmetric] l2_def [symmetric])
  with reject_owned [OF b2 op(2)] admit_owned [OF b2 op(2)] show ?thesis by simp
qed

lemma accept_iter_owned: "fds_owned K X [] l \<Longrightarrow> fds_owned K X [] (snd (accept_iter l))"
proof (cases "lp_accept l")
  case (Cons e es)
  assume "fds_owned K X [] l"
  then have b: "fds_owned K X [] (l\<lparr>lp_accept := es\<rparr>)" by (rule grows_owned [OF grows_simps(12)])
  have "grows [] (l\<lparr>lp_accept := es\<rparr>) ((note_io what peer x (l\<lparr>lp_accept := es\<rparr>))\<lparr>lp_accept_retry := True\<rparr>)" for what peer x
    by (rule grows_trans [OF grows_simps(1) grows_simps(13)])
  from grows_owned [OF this b] grows_owned [OF grows_simps(1) b] grows_owned [OF grows_simps(13) b] accepted_fd_owned [OF b] b Cons
  show ?thesis by (cases e) (auto simp: accept_iter_def Let_def)
qed (simp add: accept_iter_def)

lemma accept_loop_owned: "fds_owned K X [] l \<Longrightarrow> fds_owned K X [] (accept_loop n l)"
proof (induction n arbitrary: l)
  case (Suc n)
  obtain again l' where it: "accept_iter l = (again, l')" by fastforce
  with accept_iter_owned [OF Suc.prems] Suc.IH [of l'] show ?case by simp
qed (simp add: grows_owned [OF grows_simps(13)])

lemma grows_for_conns: "keeps_fd f \<Longrightarrow> grows H l (for_conns f l)"
  unfolding for_conns_def by (rule grows_fold) (rule grows_with_conn)

lemma tick_owned:
  assumes b: "fds_owned K X [] l"
  shows "fds_owned K X [] (tick oob l)"
proof -
  obtain now l1 where n: "loop_now l = (now, l1)" by fastforce
  define l2 where "l2 = (if lp_accept_retry l1 then accept_batch (l1\<lparr>lp_accept_retry := False\<rparr>) else l1)"
  have b1: "fds_owned K X [] l1" using grows_owned [OF grows_simps(3) b] n by simp
  then have "fds_owned K X [] l2" using accept_loop_owned [OF grows_owned [OF grows_simps(13) b1]] by (simp add: l2_def accept_batch_def)
  moreover have "grows [] l2 (push_finished (for_conns (on_tick oob (lp_cfg l2) now) l2))"
    by (rule grows_trans [OF grows_for_conns grows_simps(5)]) simp
  moreover have "tick oob l = push_finished (for_conns (on_tick oob (lp_cfg l2) now) l2)"
    by (simp only: tick_def n Let_def prod.case l2_def [symmetric])
  ultimately show ?thesis using grows_owned by metis
qed

lemma grows_deliver: "grows [] l (deliver cm l)"
  by (simp add: deliver_def held_def grows_callback)

lemma drain_completions_owned: "fds_owned K X [] l \<Longrightarrow> fds_owned K X [] (drain_completions l)"
  unfolding drain_completions_def
  by (rule grows_owned [OF grows_fold [OF grows_deliver] grows_owned [OF grows_simps(11)]])

lemma process_rescans_owned:
  assumes b: "fds_owned K X [] l"
  shows "fds_owned K X [] (process_rescans l)"
proof -
  let ?H = "lp_rescan l" and ?l = "l\<lparr>lp_rescan := []\<rparr>"
  have "held ?H ?l = held [] l" "mems ?l = mems l" "mem_list ?l = mem_list l"
    by (auto simp: held_def live_def fun_eq_iff mems_def members_def mem_list_def)
  with b have b1: "fds_owned K X ?H ?l" by (simp add: fds_owned_def)
  have "grows ?H ?l (fold rescan_one ?H ?l)"
    by (rule grows_fold) (auto simp: rescan_one_def Let_def held_def intro!: grows_callback)
  from drop_refs_owned [OF grows_owned [OF this b1]] show ?thesis by (simp add: process_rescans_def Let_def)
qed

lemma grows_maybe_begin_drain: "grows [] l (maybe_begin_drain oob l)"
proof (cases "lp_shutdown_requested l \<and> \<not> lp_draining l")
  case True
  obtain now l1 where n: "loop_now (l\<lparr>lp_draining := True\<rparr>) = (now, l1)" by fastforce
  define l2 where "l2 = log_note (LogDraining (length (lp_conns l1)) (queue_size (w_pool (lp_world l1)))
     (cf_shutdown_timeout_sec (lp_cfg l1))) (l1\<lparr>lp_drain_deadline := now + to_ticks oob (cf_shutdown_timeout_sec (lp_cfg l1))\<rparr>)"
  have "grows [] (l\<lparr>lp_draining := True\<rparr>) l1" using grows_simps(3) [of "[]" "l\<lparr>lp_draining := True\<rparr>"] n by simp
  moreover have "grows [] l1 l2" unfolding l2_def by (rule grows_trans [OF grows_simps(16) grows_simps(2)])
  moreover have "grows [] l2 (push_finished (for_conns (\<lambda>c w. (begin_draining c, w)) l2))"
    by (rule grows_trans [OF grows_for_conns grows_simps(5)]) simp
  moreover have "maybe_begin_drain oob l = push_finished (for_conns (\<lambda>c w. (begin_draining c, w)) l2)"
    using True by (simp add: maybe_begin_drain_def n Let_def l2_def)
  ultimately show ?thesis using grows_simps(17) [of "[]" l True] by (metis grows_trans)
qed (auto simp: maybe_begin_drain_def)

lemma close_all_owned: "fds_owned K X [] l \<Longrightarrow> fds_owned K X [] (close_all l)"
  unfolding close_all_def Let_def
  by (rule reap_owned [OF grows_owned [OF grows_trans [OF grows_for_conns grows_simps(9)]]]) simp_all

lemma exit_code_owned: "fds_owned K X [] l \<Longrightarrow> i \<in> {0, 1} \<Longrightarrow> fds_owned K X [] (l\<lparr>lp_exit_code := i\<rparr>)"
  by (auto simp: fds_owned_def held_def live_def mems_def members_def mem_list_def)

lemma shutdown_complete_owned:
  assumes b: "fds_owned K X [] l"
  shows "fds_owned K X [] (snd (shutdown_complete l))"
proof -
  obtain now l1 where n: "loop_now l = (now, l1)" by fastforce
  then have b1: "fds_owned K X [] l1" using grows_owned [OF grows_simps(3) b] by simp
  have "fds_owned K X [] ((log_note en l1)\<lparr>lp_exit_code := 0, lp_forced_shutdown := True\<rparr>)" for en
    using grows_owned [OF grows_simps(15) exit_code_owned [OF grows_owned [OF grows_simps(2) b1]]] by simp
  then show ?thesis
    using b b1 grows_owned [OF grows_simps(15) b] by (auto simp: shutdown_complete_def n Let_def intro!: close_all_owned)
qed

lemma dispatch_owned:
  assumes b: "fds_owned K X [] l"
  shows "fds_owned K X [] (dispatch e l)"
proof -
  obtain fd ev where e: "e = (fd, ev)" by fastforce
  show ?thesis
  proof (cases "fd \<in> {lp_wake l, lp_sig l, lp_listen l}")
    case True
    then show ?thesis
      using grows_owned [OF grows_wake(2) b] grows_owned [OF grows_wake(3) b] accept_loop_owned [OF b]
      by (auto simp: dispatch_def e drain_wake_def handle_signals_def accept_batch_def)
  next
    case False
    show ?thesis
    proof (cases "map_of (lp_conns l) fd")
      case None
      with False grows_owned [OF grows_simps(8) b] show ?thesis by (simp add: dispatch_def e)
    next
      case (Some oid)
      have h: "held [] l oid" using map_of_SomeD [OF Some] by (force simp: held_def live_def)
      define l1 where "l1 = (if ev AND EPOLLIN \<noteq> 0 then with_conn oid (on_readable (lp_cfg l)) l else l)"
      define l2 where "l2 = (if cn_alive (lp_objs l1 oid) \<and> ev AND EPOLLOUT \<noteq> 0 then with_conn oid on_writable l1 else l1)"
      have "grows [] l l1" "grows [] l1 l2" by (simp_all add: l1_def l2_def grows_with_conn)
      then have g: "grows [] l l2" by (rule grows_trans)
      have "grows [] l2 (after_callback oid l2)" by (rule grows_after_callback) (use growsD [OF g] h in simp)
      with g have "grows [] l (after_callback oid l2)" by (rule grows_trans)
      moreover have "grows [] l (after_callback oid (with_conn oid (on_hangup ev) l))" by (rule grows_callback [OF _ h]) simp
      ultimately show ?thesis using False Some grows_owned [OF _ b]
        by (simp add: dispatch_def e Let_def flip: l1_def l2_def)
    qed
  qed
qed

lemma grows_post: "grows H l (post_completion cm l)"
  unfolding post_completion_def wake_def by (rule grows_trans [OF grows_simps(11) grows_wake(1)])

lemma grows_running: "grows H l (l\<lparr>lp_running := js\<rparr>)"
  by (simp add: grows_def held_def live_def mem4_def)

lemma grows_work: "grows [] l (work act l)"
proof (cases act)
  case WorkerTake
  have "grows [] l (l\<lparr>lp_world := w, lp_running := js\<rparr>)" for w js by (rule grows_trans [OF grows_simps(14) grows_running])
  then show ?thesis by (auto simp: WorkerTake split: prod.split taken.split)
next
  case (WorkerFinish i throws)
  then show ?thesis by (simp add: grows_trans [OF grows_running grows_post])
qed

lemma server_step_owned: "fds_owned K X [] l \<Longrightarrow> fds_owned K X [] (server_step oob oper l)"
proof (cases oper)
  case (OpNow ticks)
  assume "fds_owned K X [] l"
  then have b: "fds_owned K X [] (snd (loop_now l))" by (rule grows_owned [OF grows_simps(3)])
  with grows_owned [OF grows_simps(10) b] show ?thesis by (auto simp: OpNow split: prod.split)
qed (simp_all add: dispatch_owned drain_completions_owned process_rescans_owned reap_owned tick_owned shutdown_complete_owned
    grows_owned [OF grows_maybe_begin_drain] grows_owned [OF grows_work])

lemma fold_step_owned: "fds_owned K X [] l \<Longrightarrow> fds_owned K X [] (fold (server_step oob) ops l)"
  by (induction ops arbitrary: l) (simp_all add: server_step_owned)

lemma run_loop_owned:
  assumes "run_loop oob ws l = Some l'" and "fds_owned K X [] l"
  shows "fds_owned K X [] l'"
  using assms
proof (induction oob ws l rule: run_loop.induct)
  case (2 oob e ws l)
  then show ?case using exit_code_owned [OF grows_owned [OF grows_simps(1)]] by (auto split: if_splits)
next
  case (3 oob acts evs ws l)
  let ?l = "fold dispatch (take kMaxEvents evs) (fold work acts l)"
  have w: "fds_owned K X [] (fold work acts l)" by (rule grows_owned [OF grows_fold [OF grows_work] 3(3)])
  have "fds_owned K X [] (fold dispatch es k)" if "fds_owned K X [] k" for es k
    using that by (induction es arbitrary: k) (simp_all add: dispatch_owned)
  from this [OF w] have b: "fds_owned K X [] ?l" .
  obtain fin l2 where a: "after_events oob ?l = (fin, l2)" by fastforce
  obtain ops where "l2 = fold (server_step oob) ops ?l" using after_events_steps [of oob ?l] a by auto
  then have "fds_owned K X [] l2" using fold_step_owned [OF b] by simp
  with 3(1) [OF a [symmetric]] 3(2) a show ?case by (auto split: if_splits)
qed simp

section \<open>Setup\<close>

text \<open>During setup at most one descriptor is in a local variable; \<open>M\<close> are the four members.\<close>

definition owns_one :: "int set \<Rightarrow> int option \<Rightarrow> int \<times> int \<times> int \<times> int \<Rightarrow> loop \<Rightarrow> bool" where
  "owns_one K x M l =
     (fds_owned K (set_option x) [] l \<and> mems l \<subseteq> set (ft_open (lp_fds l)) \<and> mem4 l = M \<and>
      (\<forall>fd \<in> set_option x. fd \<notin> K \<and> fd \<notin> mems l \<and> 0 \<le> fd \<and> fd \<in> set (ft_open (lp_fds l))))"

lemma owns_one_grows: "owns_one K x M l \<Longrightarrow> grows [] l l' \<Longrightarrow> owns_one K x M l'"
  using grows_owned [of "[]" l l'] mem4_members [of l' l] by (auto simp: owns_one_def grows_def)

lemma owns_one_result: "owns_one K x M l \<Longrightarrow> sys_result l = (r, l') \<Longrightarrow> owns_one K x M l'"
  using owns_one_grows [OF _ grows_simps(4)] by (metis snd_conv)

lemma owns_one_add: "owns_one K x M l \<Longrightarrow> epoll_add fd m l = (r, l') \<Longrightarrow> owns_one K x M l'"
  using owns_one_grows [OF _ grows_simps(7)] by (metis snd_conv)

lemma owns_one_simps [intro]:
  "owns_one K x M l \<Longrightarrow> owns_one K x M (note_io what peer e l)" "owns_one K x M l \<Longrightarrow> owns_one K x M (log_note en l)"
  "owns_one K x M l \<Longrightarrow> owns_one K x M (sys_logged what peer l)" "owns_one K x M l \<Longrightarrow> owns_one K x M (l\<lparr>lp_files := fs\<rparr>)"
  "owns_one K x M l \<Longrightarrow> owns_one K x M (l\<lparr>lp_bound_port := port\<rparr>)"
  by (erule owns_one_grows, simp)+

lemma owns_one_close: "owns_one K (Some fd) M l \<Longrightarrow> owns_one K None M (loop_close fd l)"
  using close_extra_owned [of K fd "{}" "[]" l] by (auto simp: owns_one_def set_loop_close mem4_def) (simp_all add: loop_close_def)

lemma owns_one_new_fd:
  assumes o: "owns_one K None M l"
  shows "case sys_new_fd l of (Inl e, l') \<Rightarrow> owns_one K None M l' | (Inr fd, l') \<Rightarrow> owns_one K (Some fd) M l'"
proof -
  obtain r l1 where r: "sys_result l = (r, l1)" by fastforce
  have o1: "owns_one K None M l1" by (rule owns_one_result [OF o r])
  obtain fd t where t: "sys_open (lp_fds l1) = (fd, t)" by fastforce
  have "fds_owned K {} [] l1" using o1 by (simp add: owns_one_def)
  note so = sys_open_owned [OF this t]
  have fd: "fd = lowest_unused (ft_open (lp_fds l1))" and st: "set (ft_open t) = insert fd (set (ft_open (lp_fds l1)))"
    using t by (auto simp: sys_open_def Let_def)
  have "fd \<notin> set (ft_open (lp_fds l1))" unfolding fd by (rule lowest_unused_fresh)
  then have "fd \<notin> mems l1" "mems l1 \<subseteq> set (ft_open (lp_fds l1))" "mem4 l1 = M" using o1 by (auto simp: owns_one_def)
  moreover have "mems (l1\<lparr>lp_fds := t\<rparr>) = mems l1" "mem4 (l1\<lparr>lp_fds := t\<rparr>) = mem4 l1" by (simp_all add: mems_def members_def mem4_def)
  ultimately have "owns_one K (Some fd) M (l1\<lparr>lp_fds := t\<rparr>)" using so st by (auto simp: owns_one_def)
  with o1 show ?thesis by (simp add: sys_new_fd_def r t)
qed

text \<open>The descriptor goes to a member that owns nothing.\<close>

lemma owns_one_give:
  assumes o: "owns_one K (Some fd) M l" and ml: "mems l' = insert fd (mems l)" "distinct (mem_list l')"
    and same: "lp_fds l' = lp_fds l" "held [] l' = held [] l" "lp_objs l' = lp_objs l" "lp_next_obj l' = lp_next_obj l"
      "lp_conns l' = lp_conns l" "lp_exit_code l' = lp_exit_code l"
  shows "owns_one K None (mem4 l') l'"
proof -
  have b: "fds_owned K {fd} [] l" "mems l \<subseteq> set (ft_open (lp_fds l))" "fd \<notin> K" "fd \<in> set (ft_open (lp_fds l))"
    using o by (simp_all add: owns_one_def)
  have "fds_owned K {} [] l'"
    by (rule fds_ownedI) (use fds_ownedD [OF b(1)] b(3) ml in \<open>auto simp: same\<close>)
  with b(2,4) ml(1) show ?thesis by (simp add: owns_one_def same)
qed

lemma owns_one_assign:
  assumes o: "owns_one K (Some fd) M l"
    and l': "l' = l\<lparr>lp_wake := fd\<rparr> \<and> lp_wake l = - 1 \<or> l' = l\<lparr>lp_sig := fd\<rparr> \<and> lp_sig l = - 1 \<or>
      l' = l\<lparr>lp_listen := fd\<rparr> \<and> lp_listen l = - 1 \<or> l' = l\<lparr>lp_epfd := fd\<rparr> \<and> lp_epfd l = - 1"
  shows "owns_one K None (mem4 l') l'"
proof -
  have b: "fd \<notin> mems l" "0 \<le> fd" "distinct (mem_list l)" using o by (auto simp: owns_one_def dest: fds_ownedD(7))
  have "fd \<notin> set (mem_list l)" using b(1) by (simp add: set_mem_list)
  with l' b(2,3) have d: "distinct (mem_list l')" by (auto simp: mem_list_def)
  have "mems l' = insert fd (mems l)" using l' b(2) by (auto simp: mems_def members_def)
  moreover have "held [] l' = held [] l" using l' by (auto simp: held_def live_def fun_eq_iff)
  ultimately show ?thesis by (intro owns_one_give [OF o _ d]) (use l' in auto)
qed

lemma owns_one_new_fdE:
  assumes "owns_one K None M l" and "sys_new_fd l = (x, l')"
  shows "x = Inl e \<Longrightarrow> owns_one K None M l'" "x = Inr fd \<Longrightarrow> owns_one K (Some fd) M l'"
  using owns_one_new_fd [OF assms(1)] assms(2) by auto

lemma setup_wake_owned:
  assumes o: "owns_one K None M l" and free: "lp_wake l = - 1" and s: "setup_wake l = (ok, l')"
  shows "\<exists>wk. owns_one K None (lp_epfd l, lp_listen l, wk, lp_sig l) l'"
proof -
  obtain x l1 where n: "sys_new_fd l = (x, l1)" by fastforce
  note new = owns_one_new_fdE [OF o n]
  have m: "M = mem4 l" using o by (simp add: owns_one_def)
  show ?thesis
  proof (cases x)
    case (Inl e)
    with new(1) s n m free show ?thesis by (auto simp: setup_wake_def mem4_def)
  next
    case (Inr fd)
    have o1: "owns_one K (Some fd) M l1" by (rule new(2) [OF Inr])
    then have f: "mem4 l1 = mem4 l" using m by (simp add: owns_one_def)
    obtain r l2 where a: "epoll_add fd EPOLLIN (l1\<lparr>lp_wake := fd\<rparr>) = (r, l2)" by fastforce
    have "owns_one K None (mem4 (l1\<lparr>lp_wake := fd\<rparr>)) (l1\<lparr>lp_wake := fd\<rparr>)"
      by (rule owns_one_assign [OF o1]) (use f free in \<open>simp add: mem4_def\<close>)
    from owns_one_add [OF this a] have "owns_one K None (mem4 (l1\<lparr>lp_wake := fd\<rparr>)) l2" .
    with s n Inr a f free show ?thesis
      by (auto simp: setup_wake_def assign_fd_def mem4_def split: if_splits)
  qed
qed

lemma setup_signals_owned:
  assumes o: "owns_one K None M l" and free: "lp_sig l = - 1" and s: "setup_signals l = (ok, l')"
  shows "\<exists>sg. owns_one K None (lp_epfd l, lp_listen l, lp_wake l, sg) l'"
proof -
  obtain x l1 where n: "sys_new_fd l = (x, l1)" by fastforce
  note new = owns_one_new_fdE [OF o n]
  have m: "M = mem4 l" using o by (simp add: owns_one_def)
  show ?thesis
  proof (cases x)
    case (Inl e)
    with new(1) s n m free show ?thesis by (auto simp: setup_signals_def mem4_def)
  next
    case (Inr fd)
    have o1: "owns_one K (Some fd) M l1" by (rule new(2) [OF Inr])
    then have f: "mem4 l1 = mem4 l" using m by (simp add: owns_one_def)
    obtain r l2 where a: "epoll_add fd (EPOLLIN OR EPOLLET) (l1\<lparr>lp_sig := fd\<rparr>) = (r, l2)" by fastforce
    have "owns_one K None (mem4 (l1\<lparr>lp_sig := fd\<rparr>)) (l1\<lparr>lp_sig := fd\<rparr>)"
      by (rule owns_one_assign [OF o1]) (use f free in \<open>simp add: mem4_def\<close>)
    from owns_one_add [OF this a] have "owns_one K None (mem4 (l1\<lparr>lp_sig := fd\<rparr>)) l2" .
    with s n Inr a f free show ?thesis
      by (auto simp: setup_signals_def assign_fd_def mem4_def split: if_splits)
  qed
qed

lemma write_port_file_owned:
  assumes o: "owns_one K None M l"
  shows "owns_one K None M (write_port_file port l)"
proof -
  obtain x l1 where n: "sys_new_fd l = (x, l1)" by fastforce
  note new = owns_one_new_fdE [OF o n]
  show ?thesis
  proof (cases x)
    case (Inl e)
    with new(1) n show ?thesis by (auto simp: write_port_file_def Let_def)
  next
    case (Inr fd)
    obtain rc l2 where r: "sys_result l1 = (rc, l2)" by fastforce
    have "owns_one K (Some fd) M (l2\<lparr>lp_files := fs\<rparr>)" for fs using owns_one_result [OF new(2) [OF Inr] r] by blast
    then have o3: "owns_one K None M (loop_close fd (l2\<lparr>lp_files := fs\<rparr>))" for fs by (rule owns_one_close)
    have "owns_one K None M l4" if "sys_result (loop_close fd (l2\<lparr>lp_files := fs\<rparr>)) = (q, l4)" for fs q l4
      by (rule owns_one_result [OF o3 that])
    with n Inr r o3 show ?thesis by (auto simp: write_port_file_def Let_def split: prod.split)
  qed
qed

lemma listener_bind_owned:
  assumes o: "owns_one K (Some fd) M l" and lb: "listener_bind v6 fd l = (ok, l')"
  shows "owns_one K (if ok then Some fd else None) M l'"
proof -
  obtain r1 k1 where 1: "sys_result l = (r1, k1)" by fastforce
  obtain r2 k2 where 2: "sys_result k1 = (r2, k2)" by fastforce
  obtain r3 k3 where 3: "sys_result k2 = (r3, k3)" by fastforce
  note s1 = owns_one_result [OF o 1]
  note s2 = owns_one_result [OF s1 2]
  note s3 = owns_one_result [OF s2 3]
  have io: "owns_one K None M (loop_close fd (note_io a b e k))" "owns_one K None M (loop_close fd (log_note en k))"
    if "owns_one K (Some fd) M k" for a b e en k
    using that by (auto intro!: owns_one_close)
  show ?thesis using lb io [OF s1] io [OF s2] io [OF s3] s3
    by (auto simp: listener_bind_def 1 2 3 Let_def split: if_splits)
qed

lemma owns_one_owned: "owns_one K None M l \<Longrightarrow> fds_owned K {} [] l"
  by (simp add: owns_one_def)

lemma listener_opts_grows: "grows H l (listener_opts cfg l)" "grows H l (note_port r l)"
  using grows_trans [OF grows_simps(6) grows_simps(6)] by (simp_all add: listener_opts_def note_port_def Let_def)

lemma setup_listener_owned:
  assumes o: "owns_one K None M l" and free: "lp_listen l = - 1" and s: "setup_listener l = (ok, l')"
  shows "fds_owned K {} [] l'"
proof -
  have m: "M = mem4 l" using o by (simp add: owns_one_def)
  have one: "owns_one K (Some fd) M l4" if "sys_new_fd l = (Inr fd, l1)" "listener_bind v6 fd (listener_opts (lp_cfg l) l1) = (True, l2)"
    "sys_result l2 = (r, l3)" "epoll_add fd (EPOLLIN OR EPOLLET) (note_port r l3) = (q, l4)" for fd l1 v6 l2 r l3 q l4
  proof -
    have "owns_one K (Some fd) M (listener_opts (lp_cfg l) l1)"
      by (rule owns_one_grows [OF owns_one_new_fdE(2) [OF o that(1) refl] listener_opts_grows(1)])
    from listener_bind_owned [OF this that(2)] have "owns_one K (Some fd) M l2" by simp
    from owns_one_grows [OF owns_one_result [OF this that(3)] listener_opts_grows(2)] that(4) show ?thesis by (rule owns_one_add)
  qed
  from s show ?thesis
  proof (cases rule: setup_listenerE)
    case (no_socket e l1)
    with owns_one_new_fdE(1) [OF o no_socket(1) refl] show ?thesis by (auto intro!: owns_one_owned)
  next
    case (unbound fd l1 v6)
    have "owns_one K (Some fd) M (listener_opts (lp_cfg l) l1)"
      by (rule owns_one_grows [OF owns_one_new_fdE(2) [OF o unbound(1) refl] listener_opts_grows(1)])
    from listener_bind_owned [OF this unbound(2)] show ?thesis by (simp add: owns_one_def)
  next
    case (unwatched fd l1 v6 l2 r l3 q l4)
    with owns_one_owned [OF owns_one_close [OF owns_one_simps(1) [OF one [OF unwatched(1-4)]]]] show ?thesis by simp
  next
    case (listening fd l1 v6 l2 r l3 q l4 l5 en)
    note o4 = one [OF listening(1-4)]
    then have "lp_listen l4 = - 1" using free m by (simp add: owns_one_def mem4_def)
    then have "owns_one K None (mem4 l5) l5" using listening(5) by (intro owns_one_assign [OF o4]) (simp add: assign_fd_def)
    then have "owns_one K None (mem4 l5) (if cf_port_file (lp_cfg l5) \<noteq> [] then write_port_file (lp_bound_port l5) l5 else l5)"
      by (simp add: write_port_file_owned)
    from owns_one_owned [OF owns_one_simps(2) [OF this]] listening(6) show ?thesis by simp
  qed
qed

section \<open>The run and the destructor\<close>

lemma loop_init_owned: "owns_one (set (ft_open (lp_fds k))) None (- 1, - 1, - 1, - 1) (loop_init cfg created w k)"
  by (auto simp: owns_one_def fds_owned_def loop_init_def held_def live_def mems_def members_def mem_list_def mem4_def)

lemma setups_owned:
  assumes o: "owns_one K None (ep, - 1, - 1, - 1) l2"
    and w1: "setup_wake l2 = (o1, l3)" and w2: "(if o1 then setup_signals l3 else (False, l3)) = (o2, l4)"
    and w3: "(if o2 then setup_listener l4 else (False, l4)) = (o3, l5)"
  shows "fds_owned K {} [] l5"
proof -
  have "lp_epfd l2 = ep" "lp_listen l2 = - 1" "lp_wake l2 = - 1" "lp_sig l2 = - 1" using o by (simp_all add: owns_one_def mem4_def)
  with setup_wake_owned [OF o _ w1] obtain wk where 3: "owns_one K None (ep, - 1, wk, - 1) l3" by auto
  then have f3: "lp_epfd l3 = ep" "lp_listen l3 = - 1" "lp_wake l3 = wk" "lp_sig l3 = - 1" by (simp_all add: owns_one_def mem4_def)
  obtain sg where 4: "owns_one K None (ep, - 1, wk, sg) l4"
    using setup_signals_owned [OF 3, of o2 l4] w2 f3 3 by (auto split: if_splits)
  then have "lp_listen l4 = - 1" by (simp add: owns_one_def mem4_def)
  with setup_listener_owned [OF 4, of o3 l5] w3 owns_one_owned [OF 4] show ?thesis by (auto split: if_splits)
qed

lemma grows_fold_post: "grows H l (fold (\<lambda>j. post_completion (g j)) js l)"
  by (rule grows_fold) (rule grows_post)

lemma grows_pool_stop: "grows H l (pool_stop l)"
proof (cases "stop_section (w_pool (lp_world l))")
  case (Some x)
  obtain ths p where x: "x = (ths, p)" by fastforce
  show ?thesis unfolding pool_stop_def Let_def Some x option.case prod.case
    by (rule grows_trans [OF grows_trans [OF grows_running grows_simps(14)] grows_fold_post])
qed (simp add: pool_stop_def Let_def)

text \<open>A forced shutdown may leave the wake descriptor to a worker that is still running.\<close>

lemma release_wake_owned:
  assumes b: "fds_owned K {} [] l"
  shows "fds_owned K {lp_wake l} [] (l\<lparr>lp_wake := - 1\<rparr>)" (is "fds_owned K _ [] ?l")
proof -
  have h: "held [] ?l = held [] l" by (simp add: held_def live_def fun_eq_iff)
  have m: "fd \<notin> mems l" if "fd \<noteq> lp_wake l" "fd \<notin> mems ?l" for fd using that by (auto simp: mems_def members_def)
  have sub: "mems ?l \<subseteq> mems l" by (auto simp: mems_def members_def)
  have "distinct (mem_list ?l)" using fds_ownedD(7) [OF b] by (auto simp: mem_list_def split: if_splits)
  then show ?thesis by (intro fds_ownedI) (use fds_ownedD [OF b] h m sub in auto)
qed

lemma fds_owned_mono: "fds_owned K X H l \<Longrightarrow> X \<subseteq> Y \<Longrightarrow> fds_owned K Y H l"
  unfolding fds_owned_def by blast

text \<open>What may be left open when the run is over.\<close>

definition leaves :: "int set \<Rightarrow> loop \<Rightarrow> bool" where
  "leaves K l = ((\<exists>fd. fds_owned K {fd} [] l) \<and> (\<not> lp_forced_shutdown l \<longrightarrow> fds_owned K {} [] l))"

lemma owned_leaves: "fds_owned K {} [] l \<Longrightarrow> leaves K l"
  using fds_owned_mono [of K "{}" "[]" l] by (auto simp: leaves_def)

lemma stop_workers_leaves:
  assumes b: "fds_owned K {} [] l" and e: "stop_workers polls l = Some m"
  shows "leaves K m"
proof (cases "lp_forced_shutdown l")
  case True
  obtain now k where n: "loop_now l = (now, k)" by fastforce
  obtain jn p where sf: "stop_forced now 250 polls (w_pool (lp_world k)) = (jn, p)" by fastforce
  define k1 where "k1 = k\<lparr>lp_world := (lp_world k)\<lparr>w_pool := p\<rparr>\<rparr>"
  have "fds_owned K {} [] k" using grows_owned [OF grows_simps(3) b] n by simp
  then have b1: "fds_owned K {} [] k1" unfolding k1_def by (rule grows_owned [OF grows_simps(14)])
  have "fds_owned K {} [] (log_note en k1)" for en by (rule grows_owned [OF grows_simps(2) b1])
  from release_wake_owned [OF this] have r: "fds_owned K {lp_wake (log_note en k1)} [] ((log_note en k1)\<lparr>lp_wake := - 1\<rparr>)" for en .
  have f: "lp_forced_shutdown k1" using True n by (auto simp: k1_def loop_now_def split: prod.splits)
  obtain j where "jn = Some j" and
    "m = (if j then k1 else (log_note (LogNote ''hard shutdown: detaching worker(s) still running application work'') k1)\<lparr>lp_wake := - 1\<rparr>)"
    using e True by (auto simp: stop_workers_def n sf Let_def k1_def fd_release_def split: option.splits)
  with owned_leaves [OF b1] r f show ?thesis by (auto simp: leaves_def log_note_def split: if_splits)
next
  case False
  with e grows_owned [OF grows_pool_stop b] show ?thesis by (auto simp: stop_workers_def intro: owned_leaves)
qed

lemma reap_one_forced: "lp_forced_shutdown (reap_one fd l) = lp_forced_shutdown l"
  by (auto simp: reap_one_def Let_def epoll_del_def sys_result_def note_io_def log_note_def destroy_def loop_close_def
      split: option.split list.split)

lemma close_all_forced: "lp_forced_shutdown (close_all l) = lp_forced_shutdown l"
proof -
  have "lp_forced_shutdown (fold reap_one fds k) = lp_forced_shutdown k" for fds k
    by (induction fds arbitrary: k) (simp_all add: reap_one_forced)
  moreover have "lp_forced_shutdown (fold (\<lambda>oid. with_conn oid f) oids k) = lp_forced_shutdown k" for f oids k
    by (induction oids arbitrary: k) (simp_all add: with_conn_def split: prod.split)
  ultimately show ?thesis by (simp add: close_all_def reap_def for_conns_def Let_def)
qed

lemma run_end_leaves:
  assumes b: "fds_owned K {} [] l" and e: "run_end polls l = Some l'"
  shows "leaves K l'"
proof -
  from e obtain m where sw: "stop_workers polls l = Some m" and l': "l' = log_stats (close_all (m\<lparr>lp_completions := []\<rparr>))"
    by (auto simp: run_end_def split: option.splits)
  have "fds_owned K X [] l'" if "fds_owned K X [] m" for X
    unfolding l' log_stats_def Let_def
    by (rule grows_owned [OF grows_simps(2) close_all_owned [OF grows_owned [OF grows_simps(11) that]]])
  moreover have "lp_forced_shutdown l' = lp_forced_shutdown m" by (simp add: l' log_stats_def log_note_def Let_def close_all_forced)
  ultimately show ?thesis using stop_workers_leaves [OF b sw] by (auto simp: leaves_def)
qed

lemma run_leaves:
  assumes r: "run oob polls ws (loop_init cfg created w k) = Some (code, l')"
  shows "leaves (set (ft_open (lp_fds k))) l' \<and> code \<in> {0, 1}"
proof -
  let ?l = "loop_init cfg created w k" and ?K = "set (ft_open (lp_fds k))"
  have o: "owns_one ?K None (- 1, - 1, - 1, - 1) ?l" by (rule loop_init_owned)
  have ready: "fds_owned ?K {} [] l5" if n: "sys_new_fd ?l = (Inr fd, l1)"
    and w: "setup_wake (assign_fd lp_epfd_update (lp_epfd l1) fd l1) = (o1, l3)" "(if o1 then setup_signals l3 else (False, l3)) = (o2, l4)"
      "(if o2 then setup_listener l4 else (False, l4)) = (o3, l5)" for fd l1 o1 l3 o2 l4 o3 l5
  proof -
    note one = owns_one_new_fdE(2) [OF o n refl]
    then have m: "lp_epfd l1 = - 1" "lp_listen l1 = - 1" "lp_wake l1 = - 1" "lp_sig l1 = - 1" by (simp_all add: owns_one_def mem4_def)
    have "owns_one ?K None (mem4 (l1\<lparr>lp_epfd := fd\<rparr>)) (l1\<lparr>lp_epfd := fd\<rparr>)" by (rule owns_one_assign [OF one]) (simp add: m)
    then have "owns_one ?K None (fd, - 1, - 1, - 1) (assign_fd lp_epfd_update (lp_epfd l1) fd l1)" by (simp add: mem4_def m assign_fd_def)
    from setups_owned [OF this w] show ?thesis .
  qed
  have code: "leaves ?K l' \<Longrightarrow> lp_exit_code l' \<in> {0, 1}" by (auto simp: leaves_def dest: fds_ownedD(6))
  from r show ?thesis
  proof (cases rule: runE)
    case (no_epoll e l1)
    with owned_leaves [OF owns_one_owned [OF owns_one_simps(1) [OF owns_one_new_fdE(1) [OF o no_epoll(1) refl]]]] show ?thesis by simp
  next
    case (no_setup fd l1 o1 l3 o2 l4 l5)
    have "leaves ?K l'" unfolding no_setup(5)
      by (rule owned_leaves [OF grows_owned [OF grows_pool_stop exit_code_owned [OF ready [OF no_setup(1-4)]]]]) simp
    with code no_setup(6) show ?thesis by simp
  next
    case (served fd l1 o1 l3 o2 l4 l5 now l6 l7)
    have "fds_owned ?K {} [] (l6\<lparr>lp_last_tick := now\<rparr>)"
      using grows_owned [OF grows_simps(10) grows_owned [OF grows_simps(3) ready [OF served(1-4)]]] served(5) by simp
    from run_end_leaves [OF run_loop_owned [OF served(6) this] served(7)] code served(8) show ?thesis by simp
  qed
qed

text \<open>The destructor.\<close>

lemma drop_refs_frames:
  "mem_list (drop_refs oids l) = mem_list l" "lp_conns (drop_refs oids l) = lp_conns l" "lp_rescan (drop_refs oids l) = lp_rescan l"
proof -
  have "mem_list (fold destroy os k) = mem_list k \<and> lp_conns (fold destroy os k) = lp_conns k \<and> lp_rescan (fold destroy os k) = lp_rescan k" for os k
    by (induction os arbitrary: k) (simp_all add: destroy_def)
  then show "mem_list (drop_refs oids l) = mem_list l" "lp_conns (drop_refs oids l) = lp_conns l" "lp_rescan (drop_refs oids l) = lp_rescan l"
    by (simp_all add: drop_refs_def)
qed

lemma fold_close_open: "set (ft_open (lp_fds (fold loop_close fds l))) = set (ft_open (lp_fds l)) - set fds"
  by (induction fds arbitrary: l) (auto simp: set_loop_close)

lemma fold_close_good:
  "distinct fds \<Longrightarrow> set fds \<subseteq> set (ft_open (lp_fds l)) \<Longrightarrow> \<not> ft_bad_close (lp_fds l) \<Longrightarrow> \<not> ft_bad_close (lp_fds (fold loop_close fds l))"
proof (induction fds arbitrary: l)
  case (Cons fd fds)
  have "\<not> ft_bad_close (lp_fds (loop_close fd l))" using Cons.prems by (simp add: loop_close_def sys_close_def)
  moreover have "set fds \<subseteq> set (ft_open (lp_fds (loop_close fd l)))" using Cons.prems by (auto simp: set_loop_close)
  ultimately show ?case using Cons.IH [of "loop_close fd l"] Cons.prems(1) by simp
qed simp

lemma loop_destroy_eq:
  assumes "l1 = pool_stop l" and "l2 = drop_refs (map snd (lp_conns l1) @ lp_rescan l1) (l1\<lparr>lp_conns := [], lp_rescan := []\<rparr>)"
  shows "loop_destroy l = fold loop_close (mem_list l2) l2"
proof -
  have "fold (\<lambda>fd l. if fd \<ge> 0 then loop_close fd l else l) fds k = fold loop_close (filter (\<lambda>fd. 0 \<le> fd) fds) k" for fds k
    by (induction fds arbitrary: k) simp_all
  then show ?thesis unfolding loop_destroy_def Let_def assms [symmetric] mem_list_def by (simp only:)
qed

text \<open>The connections that the destructor gives up are in its hands first.\<close>

lemma give_up_inv:
  assumes inv: "loop_inv [] E l"
  shows "loop_inv (map snd (lp_conns l) @ lp_rescan l) E (l\<lparr>lp_conns := [], lp_rescan := []\<rparr>)" (is "loop_inv ?H E ?l")
proof -
  have h: "held ?H ?l = held [] l" by (auto simp: held_def live_def fun_eq_iff)
  have t: "tickets ?l = tickets l" "members ?l = members l" by (simp_all add: tickets_def members_def)
  have "store_inv ?H ?l" using inv unfolding loop_inv_def store_inv_def h t obj_ok_def by simp
  moreover have "ticket_inv ?H E ?l" using inv unfolding loop_inv_def ticket_inv_def h t by simp
  ultimately show ?thesis by (simp add: loop_inv_def)
qed

lemma give_up_owned:
  assumes b: "fds_owned K X [] l"
  shows "fds_owned K X (map snd (lp_conns l) @ lp_rescan l) (l\<lparr>lp_conns := [], lp_rescan := []\<rparr>)" (is "fds_owned K X ?H ?l")
proof -
  have "held ?H ?l = held [] l" "mems ?l = mems l" "mem_list ?l = mem_list l"
    by (auto simp: held_def live_def fun_eq_iff mems_def members_def mem_list_def)
  with b show ?thesis by (simp add: fds_owned_def)
qed

lemma loop_destroy_fds:
  assumes inv: "loop_inv [] E l" and b: "fds_owned K X [] l"
  shows "\<not> ft_bad_close (lp_fds (loop_destroy l)) \<and> K \<subseteq> set (ft_open (lp_fds (loop_destroy l))) \<and>
    set (ft_open (lp_fds (loop_destroy l))) \<subseteq> K \<union> X"
proof -
  define l1 where "l1 = pool_stop l"
  define l2 where "l2 = drop_refs (map snd (lp_conns l1) @ lp_rescan l1) (l1\<lparr>lp_conns := [], lp_rescan := []\<rparr>)"
  have "loop_inv [] E l1" using pool_stop_inv [OF inv] by (simp add: l1_def)
  then have i2: "loop_inv [] E l2" unfolding l2_def by (intro drop_refs_inv give_up_inv)
  have "fds_owned K X [] l1" unfolding l1_def by (rule grows_owned [OF grows_pool_stop b])
  then have b2: "fds_owned K X [] l2" unfolding l2_def by (intro drop_refs_owned give_up_owned)
  have none: "\<not> held [] l2 oid" for oid by (simp add: held_def live_def l2_def drop_refs_frames)
  have sub: "set (mem_list l2) \<subseteq> set (ft_open (lp_fds l2))" "\<not> ft_bad_close (lp_fds l2)"
    using i2 by (auto simp: set_mem_list mems_def loop_inv_def store_inv_def)
  note d = loop_destroy_eq [OF l1_def l2_def]
  have "\<not> ft_bad_close (lp_fds (loop_destroy l))" unfolding d by (rule fold_close_good [OF fds_ownedD(7) [OF b2] sub])
  moreover have "set (ft_open (lp_fds (loop_destroy l))) = set (ft_open (lp_fds l2)) - mems l2"
    unfolding d by (simp add: fold_close_open set_mem_list)
  ultimately show ?thesis using fds_ownedD(1,3) [OF b2] fds_ownedD(2) [OF b2] none by blast
qed

lemma run_then_destroy:
  assumes "\<not> ft_bad_close (lp_fds k)" and r: "run oob polls ws (loop_init cfg created w k) = Some (code, l')"
    and t: "t = lp_fds (loop_destroy l')" and K: "K = set (ft_open (lp_fds k))"
  shows "\<not> ft_bad_close t \<and> K \<subseteq> set (ft_open t) \<and> (\<exists>fd. set (ft_open t) \<subseteq> insert fd K) \<and>
    (\<not> lp_forced_shutdown l' \<longrightarrow> set (ft_open t) = K)"
proof -
  obtain E where inv: "loop_inv [] E l'" using run_closes [OF assms(1) r] by blast
  have "leaves K l'" using run_leaves [OF r] by (simp add: K)
  then obtain fd where "fds_owned K {fd} [] l'" "\<not> lp_forced_shutdown l' \<longrightarrow> fds_owned K {} [] l'" by (auto simp: leaves_def)
  with loop_destroy_fds [OF inv] show ?thesis unfolding t by fastforce
qed

end
