(* ===== verification/Program.thy ===== *)
theory Program
  imports Fd_Balance
begin

text \<open>
  The entry point, \<^verbatim>\<open>main\<close> of \<^verbatim>\<open>src/src/main.cpp\<close>: signals, command line, event loop, exit status; and what holds of the
  whole process when it ends.
\<close>

section \<open>The environment\<close>

text \<open>
  What the operating system, the command line and the other threads decide.  \<open>pe_sigpipe\<close> and \<open>pe_sigmask\<close>: whether the two signal
  calls succeed.  \<open>pe_thrown\<close>: the exception the event loop throws, if it throws one.
\<close>

datatype thrown = StdException bytes | OtherException

record program_env =
  pe_sigpipe :: bool
  pe_sigmask :: bool
  pe_strtod :: strtod_fun
  pe_hw :: u64
  pe_opts :: "(opt \<times> bytes option) list"
  pe_positional :: "bytes option"
  pe_thrown :: "thrown option"
  pe_created :: "nat \<Rightarrow> bool"
  pe_oob :: "double \<Rightarrow> int"
  pe_polls :: "nat \<Rightarrow> (int \<times> int) list"
  pe_waits :: "wait_event list"
  pe_world :: world
  pe_kernel :: loop

text \<open>
  The exit status, what is printed, and the state of the process at the end, which is not described when an exception has
  ended the event loop.  \<open>Perror\<close> is the label that \<^verbatim>\<open>perror\<close> puts before its message.
\<close>

datatype printed = Perror bytes | ToStdout bytes | ToStderr bytes

record main_result =
  mr_code :: int
  mr_output :: "printed list"
  mr_end :: "loop option"

definition program_args :: "program_env \<Rightarrow> args_result" where
  "program_args env = parse_args (pe_strtod env) (pe_hw env) (pe_opts env) (pe_positional env) config_init"

definition main_program :: "program_env \<Rightarrow> main_result option" where
  "main_program env =
     (if \<not> pe_sigpipe env
      then Some \<lparr>mr_code = 1, mr_output = [Perror ''signal(SIGPIPE)''], mr_end = Some (pe_kernel env)\<rparr>
      else if \<not> pe_sigmask env
      then Some \<lparr>mr_code = 1, mr_output = [Perror ''pthread_sigmask''], mr_end = Some (pe_kernel env)\<rparr>
      else let args = program_args env
           in if \<not> ar_ok args
              then Some \<lparr>mr_code = (if ar_wants_exit_success args then 0 else 2),
                     mr_output = [if ar_wants_exit_success args then ToStdout (ar_err args) else ToStderr (ar_err args)],
                     mr_end = Some (pe_kernel env)\<rparr>
              else case pe_thrown env of
                  Some (StdException what) \<Rightarrow>
                    Some \<lparr>mr_code = 1, mr_output = [ToStderr (''[server] fatal: '' @ what @ [LF])], mr_end = None\<rparr>
                | Some OtherException \<Rightarrow>
                    Some \<lparr>mr_code = 1, mr_output = [ToStderr (''[server] fatal: unknown exception'' @ [LF])], mr_end = None\<rparr>
                | None \<Rightarrow>
                    (case run (pe_oob env) (pe_polls env) (pe_waits env)
                            (loop_init (ar_cfg args) (pe_created env) (pe_world env) (pe_kernel env)) of
                       None \<Rightarrow> None
                     | Some (code, l) \<Rightarrow> Some \<lparr>mr_code = code, mr_output = [], mr_end = Some (loop_destroy l)\<rparr>))"

section \<open>The end of the process\<close>

lemma loop_destroy_forced: "lp_forced_shutdown (loop_destroy l) = lp_forced_shutdown l"
proof -
  have post: "lp_forced_shutdown (post_completion cm k) = lp_forced_shutdown k" for cm k
  proof -
    have "lp_forced_shutdown (wake_loop es k) = lp_forced_shutdown k" for es k by (induction es k rule: wake_loop.induct) auto
    then show ?thesis by (simp add: post_completion_def wake_def)
  qed
  have f: "lp_forced_shutdown (fold (\<lambda>j. post_completion (g j)) js k) = lp_forced_shutdown k" for g js k
    by (induction js arbitrary: k) (simp_all add: post)
  have p: "lp_forced_shutdown (pool_stop l) = lp_forced_shutdown l" for l by (simp add: pool_stop_def Let_def f split: option.split)
  have c: "lp_forced_shutdown (fold loop_close fds k) = lp_forced_shutdown k" for fds k
    by (induction fds arbitrary: k) (simp_all add: loop_close_def)
  have "lp_forced_shutdown (fold destroy os k) = lp_forced_shutdown k" for os k
    by (induction os arbitrary: k) (simp_all add: destroy_def loop_close_def)
  then show ?thesis unfolding loop_destroy_eq [OF refl refl] c by (simp add: drop_refs_def p)
qed

text \<open>Nothing is left behind: the descriptors that are open at the end are those that were open at the start.\<close>

definition nothing_left :: "fd_table \<Rightarrow> loop \<Rightarrow> bool" where
  "nothing_left t l =
     (\<not> ft_bad_close (lp_fds l) \<and> set (ft_open t) \<subseteq> set (ft_open (lp_fds l)) \<and>
      (\<exists>fd. set (ft_open (lp_fds l)) \<subseteq> insert fd (set (ft_open t))) \<and>
      (\<not> lp_forced_shutdown l \<longrightarrow> set (ft_open (lp_fds l)) = set (ft_open t)))"

lemma main_program_end:
  assumes "\<not> ft_bad_close (lp_fds (pe_kernel env))" and m: "main_program env = Some r"
  shows "mr_code r \<in> {0, 1, 2} \<and>
    (mr_code r = 2 \<longleftrightarrow> pe_sigpipe env \<and> pe_sigmask env \<and> \<not> ar_ok (program_args env) \<and> \<not> ar_wants_exit_success (program_args env)) \<and>
    (\<forall>l. mr_end r = Some l \<longrightarrow> nothing_left (lp_fds (pe_kernel env)) l)"
proof -
  have same: "nothing_left (lp_fds (pe_kernel env)) (pe_kernel env)" using assms(1) by (auto simp: nothing_left_def)
  consider (early) "mr_end r = Some (pe_kernel env)" "mr_code r \<in> {0, 1, 2}"
      "mr_code r = 2 \<longleftrightarrow> pe_sigpipe env \<and> pe_sigmask env \<and> \<not> ar_ok (program_args env) \<and> \<not> ar_wants_exit_success (program_args env)"
    | (threw) "mr_end r = None" "mr_code r = 1" "ar_ok (program_args env)"
    | (ran) l where "run (pe_oob env) (pe_polls env) (pe_waits env)
        (loop_init (ar_cfg (program_args env)) (pe_created env) (pe_world env) (pe_kernel env)) = Some (mr_code r, l)"
        "mr_end r = Some (loop_destroy l)" "ar_ok (program_args env)"
    using m by (auto simp: main_program_def Let_def split: if_splits option.splits thrown.splits)
  then show ?thesis
  proof cases
    case early
    with same show ?thesis by simp
  next
    case threw
    then show ?thesis by simp
  next
    case (ran l)
    with run_then_destroy [OF assms(1) ran(1) refl refl] have "nothing_left (lp_fds (pe_kernel env)) (loop_destroy l)"
      by (simp add: nothing_left_def loop_destroy_forced)
    with ran run_leaves [OF ran(1)] show ?thesis by auto
  qed
qed

end
