(* ===== verification/Samples.thy ===== *)
theory Samples
  imports Program Exchange
begin

text \<open>
  Concrete inputs on which the properties of the development are evaluated: limits and requests for the
  parser, a connection and the world around it, and a server that has been set up.
\<close>

section \<open>Requests\<close>

definition sample_limits :: parser_limits where
  "sample_limits = \<lparr>max_request_line_bytes = 64, max_header_bytes = 128, max_body_bytes = 64,
     max_request_bytes = 256, max_header_fields = 8\<rparr>"

definition sample_input :: bytes where
  "sample_input = ''GET / HTTP/1.1'' @ CRLF @ ''A: b'' @ CRLF @ CRLF @ ''GET''"

definition two_requests :: bytes where
  "two_requests = ''GET / HTTP/1.1'' @ CRLF @ CRLF @ ''GET / HTTP/1.1'' @ CRLF @ CRLF"

section \<open>Connections\<close>

text \<open>Sockets that take what they are given and deliver a script, and a pool of one worker.\<close>

definition sample_sock :: "recv_event list \<Rightarrow> sock" where
  "sample_sock es = \<lparr>sk_recv = es, sk_send = [SendRoom 4096], sk_sent = []\<rparr>"

definition sample_world :: "recv_event list \<Rightarrow> world" where
  "sample_world es = \<lparr>w_socks = (\<lambda>_. sample_sock es), w_clock = [], w_clock_last = 0, w_time = 0, w_date = date_cache_init,
     w_pool = pool_init 1 4 (\<lambda>_. True), w_requests_received = 0, w_overload_rejections = 0, w_timeouts = 0, w_log = []\<rparr>"

definition sample_conn :: connection where
  "sample_conn = connection_init 0 7 1 ''peer'' config_init 0"

definition sample_oob :: "double \<Rightarrow> int" where
  "sample_oob d = 0"

definition small_config :: config where
  "small_config = config_init\<lparr>cf_max_request_bytes := 20\<rparr>"

lemma sample_conn_ok:
  "conn_inv config_init sample_conn" "cn_alive sample_conn" "\<not> cn_in_flight sample_conn" "cn_inflight_seq sample_conn = 0"
  by (simp_all add: sample_conn_def conn_inv_init) (simp_all add: connection_init_def)

section \<open>A conversation\<close>

text \<open>A request with a chunked body that arrives in three pieces, and a second one that comes with its last bytes.\<close>

definition sample_echo :: round where
  "sample_echo = \<lparr>rd_method = ''POST'', rd_target = ''/echo'', rd_minor = 1, rd_headers = [\<lparr>hdr_name = ''A'', hdr_value = ''b''\<rparr>],
     rd_payload = ChunkedBody [''hello '', ''you''],
     rd_recv = [''POST /echo HTTP/1.1'' @ CRLF @ ''A: b'' @ CRLF @ ''Transfer-Enc'',
       ''oding: chunked'' @ CRLF @ CRLF @ ''6'' @ CRLF @ ''hello '' @ CRLF @ ''3'' @ CRLF @ ''you'' @ CRLF @ ''0'' @ CRLF @ CRLF @ ''GET /hea'',
       ''lth HTTP/1.1'' @ CRLF @ CRLF],
     rd_send = [SendErr EINTR, SendRoom 5], rd_time = 0, rd_throws = False\<rparr>"

definition sample_health :: round where
  "sample_health = \<lparr>rd_method = ''GET'', rd_target = ''/health'', rd_minor = 1, rd_headers = [], rd_payload = NoBody,
     rd_recv = [], rd_send = [SendErr EAGAIN, SendRoom 4096], rd_time = 1, rd_throws = False\<rparr>"

lemma sample_conn_idle: "idle_conn config_init sample_conn" "quiet_world (cn_fd sample_conn) (sample_world [])"
proof -
  show "idle_conn config_init sample_conn"
    using sample_conn_ok by (simp add: idle_conn_def) (simp add: sample_conn_def connection_init_def)
  have "quiet_world 7 (sample_world [])" by code_simp
  then show "quiet_world (cn_fd sample_conn) (sample_world [])" by (simp add: sample_conn_def connection_init_def)
qed

section \<open>Servers\<close>

text \<open>A kernel in which every call succeeds, with one client waiting.\<close>

definition sample_kernel :: loop where
  "sample_kernel = \<lparr>lp_cfg = config_init, lp_epfd = - 1, lp_listen = - 1, lp_wake = - 1, lp_sig = - 1, lp_conns = [], lp_reap = [],
     lp_rescan = [], lp_completions = [], lp_shutdown_requested = False, lp_second_signal = False, lp_draining = False,
     lp_forced_shutdown = False, lp_accept_retry = False, lp_exit_code = 0, lp_bound_port = 0, lp_drain_deadline = 0,
     lp_last_tick = 0, lp_accepted = 0, lp_rejected_connections = 0, lp_next_conn_id = 0, lp_objs = (\<lambda>_. sample_conn),
     lp_next_obj = 0, lp_world = sample_world [], lp_running = [], lp_fds = \<lparr>ft_open = [0, 1, 2], ft_bad_close = False\<rparr>,
     lp_epoll = (\<lambda>_. None), lp_counter = 0, lp_results = [],
     lp_accept = [Accept (sample_sock []) 0 False ''10.0.0.1'' ''4711''], lp_signals = [], lp_wake_errs = [],
     lp_ephemeral = 40000, lp_files = (\<lambda>_. None)\<rparr>"

definition sample_start :: loop where
  "sample_start = loop_init config_init (\<lambda>_. True) (sample_world []) sample_kernel"

text \<open>The server after its setup, and after it has accepted the client.\<close>

definition sample_server :: loop where
  "sample_server = snd (setup_listener (snd (setup_signals (snd (setup_wake sample_start)))))"

lemma sample_server_starting: "starting sample_server"
proof -
  have 0: "starting sample_start" unfolding sample_start_def by (rule starting_init) (simp add: sample_kernel_def)
  have f: "lp_wake sample_start = - 1" "lp_sig sample_start = - 1" "lp_listen sample_start = - 1"
    by (simp_all add: sample_start_def loop_init_def)
  have 1: "starting (snd (setup_wake sample_start))" "lp_sig (snd (setup_wake sample_start)) = - 1"
    "lp_listen (snd (setup_wake sample_start)) = - 1"
    using setup_wake_inv [OF 0 f(1) prod.collapse [symmetric]] f by simp_all
  have 2: "starting (snd (setup_signals (snd (setup_wake sample_start))))"
    "lp_listen (snd (setup_signals (snd (setup_wake sample_start)))) = - 1"
    using setup_signals_inv [OF 1(1,2) prod.collapse [symmetric]] 1(3) by simp_all
  show ?thesis unfolding sample_server_def by (rule setup_listener_inv [OF 2 prod.collapse [symmetric]])
qed

definition sample_ops :: "server_op list" where
  "sample_ops = [OpEvent (5, EPOLLIN), OpCompletions, OpRescans, OpReap]"

definition sample_accepted :: loop where
  "sample_accepted = fold (server_step sample_oob) sample_ops sample_server"

lemma sample_accepted_conns: "lp_conns sample_accepted = [(6, 0)] \<and> cn_alive (lp_objs sample_accepted 0)"
  by code_simp

section \<open>A process\<close>

text \<open>The program is started with an option, and finds its port in use (\<^verbatim>\<open>EADDRINUSE\<close>, 98) when it binds its socket.\<close>

definition sample_env :: program_env where
  "sample_env = \<lparr>pe_sigpipe = True, pe_sigmask = True, pe_strtod = (\<lambda>s. (NaN, s, True)), pe_hw = 2, pe_opts = [(OptWorkers, Some ''3'')],
     pe_positional = None, pe_thrown = None, pe_created = (\<lambda>_. True), pe_oob = sample_oob, pe_polls = (\<lambda>_. []), pe_waits = [],
     pe_world = sample_world [], pe_kernel = sample_kernel\<lparr>lp_results := [0, 0, 0, 0, 0, 0, 0, 0, 0, 98]\<rparr>\<rparr>"

end
