(* ===== verification/Divergences.thy ===== *)
theory Divergences
  imports Samples
begin

text \<open>
  Where the code and what is said about it part: one evaluated example for each place.  The two cases that are properties of their own
  (end of input, bursts) are in the root theory.
\<close>

text \<open>
  An error that is queued after a \<^verbatim>\<open>HEAD\<close> request has a \<^verbatim>\<open>Content-Length\<close> but no body, although it answers another
  request (\<^verbatim>\<open>connection.cpp\<close>, \<^verbatim>\<open>queue_response\<close>): a client cannot read it.  After any other request it can.
\<close>

lemma error_after_head_unreadable:
  "read_response False (response_out (error_out 400 ''malformed request'' sample_conn) (sample_conn\<lparr>cn_last_head := True\<rparr>) (sample_world [])) = None"
  "read_response False (response_out (error_out 400 ''malformed request'' sample_conn) sample_conn (sample_world [])) \<noteq> None"
proof -
  have "(case read_response False (response_out (error_out 400 ''malformed request'' sample_conn) (sample_conn\<lparr>cn_last_head := True\<rparr>) (sample_world [])) of
      None \<Rightarrow> True | Some _ \<Rightarrow> False)" by code_simp
  then show "read_response False (response_out (error_out 400 ''malformed request'' sample_conn) (sample_conn\<lparr>cn_last_head := True\<rparr>) (sample_world [])) = None"
    by (simp split: option.splits)
  have "(case read_response False (response_out (error_out 400 ''malformed request'' sample_conn) sample_conn (sample_world [])) of
      None \<Rightarrow> False | Some _ \<Rightarrow> True)" by code_simp
  then show "read_response False (response_out (error_out 400 ''malformed request'' sample_conn) sample_conn (sample_world [])) \<noteq> None"
    by (auto split: option.splits)
qed

text \<open>A timeout that is not a number passes the check (\<^verbatim>\<open>config.cpp\<close>).\<close>

lemma nan_timeout_accepted:
  "ar_ok (parse_args (\<lambda>s. (NaN, [], False)) 1 [(OptIdleTimeout, Some ''nan'')] None config_init)"
  by code_simp

text \<open>The sum of the body and the header limit wraps around, and the request limit is not raised to the body limit.\<close>

lemma request_limit_wraps:
  "let r = parse_args (\<lambda>s. (NaN, s, True)) 1 [(OptMaxBody, Some ''18446744073709551615'')] None config_init
   in ar_ok r \<and> cf_max_request_bytes (ar_cfg r) < cf_max_body_bytes (ar_cfg r)"
  by code_simp

text \<open>A trailer becomes a header of the request (\<^verbatim>\<open>http_parser.cpp\<close>, \<^verbatim>\<open>kChunkTrailer\<close>).\<close>

lemma trailer_is_header:
  "let r = parse (parser_init sample_limits) (buf_of (''POST / HTTP/1.1'' @ CRLF @ ''Transfer-Encoding: chunked'' @ CRLF @ CRLF
       @ ''0'' @ CRLF @ ''X: late'' @ CRLF @ CRLF)) request_init
   in pr_status r = KRequest \<and> request_header ''X'' (pr_out r) = ''late''"
  by code_simp

text \<open>A number is found behind any text that has no digits (\<^verbatim>\<open>handler.cpp\<close>, \<^verbatim>\<open>extract_number\<close>).\<close>

lemma number_behind_text: "extract_number ''/bigfoo/a/b7'' ''/big'' = Some 7"
  by code_simp

text \<open>The prefix is moved away although it is less than half, because the bytes to append would not fit (\<^verbatim>\<open>common.h\<close>).\<close>

lemma compacts_below_half:
  "bb_start (bb_compact_for_append 8 \<lparr>bb_data = ''abcdefghij'', bb_start = 2, bb_capacity = 15\<rparr>) = 0"
  by code_simp

end
