(* ===== verification/Spec2Isabelle.thy ===== *)
theory Spec2Isabelle
  imports Byte_Buf Http_Common Http_Parser Parser_Props Parser_Inv Parser_Resume Parser_Framing Parser_Roundtrip Config Handler Thread_Pool
  Connection Connection_Props Fd Event_Loop Event_Loop_Inv Event_Loop_Props Event_Loop_Run
  Response_Read Exchange Fd_Balance Program Samples Divergences
begin

text \<open>
  \<^bold>\<open>A verification library for cpp-http-server\<close>, an HTTP/1.0 and HTTP/1.1 server for Linux (16 C++ files under
  \<^verbatim>\<open>src/src/\<close>).  One thread runs an edge-triggered epoll loop over non-blocking sockets; a pool of workers runs the
  application.  A connection parses requests from its input buffer, hands one at a time to the pool, and writes
  the response that the worker posts back through the loop.

  \<^bold>\<open>The theories.\<close>

  \<^item> \<open>Http_Prelude\<close>: bytes, searching and slicing of strings, decimal numbers, and the interface \<open>capped_numeral\<close>
    of the loops that accumulate a number in 64 bits with a cap; it is interpreted for \<^verbatim>\<open>parse_content_length\<close>,
    \<^verbatim>\<open>extract_number\<close> and \<^verbatim>\<open>parse_chunk_size\<close>.
  \<^item> \<open>Byte_Buf\<close>: \<^verbatim>\<open>ByteBuf\<close> of \<^verbatim>\<open>common.h\<close> (string, capacity, read cursor) and the interface \<open>byte_queue\<close>, which it refines.
  \<^item> \<open>Http_Common\<close>: \<^verbatim>\<open>Request\<close> and \<^verbatim>\<open>Response\<close> of \<^verbatim>\<open>common.h\<close> and all of \<^verbatim>\<open>http_common.cpp\<close>: validation, lists, the cached
    date, serialisation.
  \<^item> \<open>Http_Parser\<close>: \<^verbatim>\<open>HttpRequestParser\<close> of \<^verbatim>\<open>http_parser.{h,cpp}\<close>, one definition per function, per case of the
    switch in \<^verbatim>\<open>parse()\<close> and per pass of its inner loops.  \<open>Parser_Props\<close> flattens the nested loops and gives the rule for
    invariants; \<open>Parser_Inv\<close> has the invariant \<open>parser_wf\<close> and what a call returns; \<open>Parser_Resume\<close> the interface
    \<open>incremental_reader\<close> and that the parser is one; \<open>Parser_Framing\<close> how the fields decide where a body ends;
    \<open>Parser_Roundtrip\<close> that what a client writes is what is parsed.
  \<^item> \<open>Config\<close>: \<^verbatim>\<open>Config\<close> and \<^verbatim>\<open>parse_args\<close> of \<^verbatim>\<open>config.{h,cpp}\<close>.
  \<^item> \<open>Handler\<close>: the routes of \<^verbatim>\<open>handler.cpp\<close>.
  \<^item> \<open>Thread_Pool\<close>: \<^verbatim>\<open>ThreadPool\<close> of \<^verbatim>\<open>thread_pool.{h,cpp}\<close>: each critical section as a function, the threads as the
    step relations \<open>worker_step\<close> and \<open>pool_step\<close>, and the interface \<open>bounded_queue\<close> that the loop uses.
  \<^item> \<open>Connection\<close>: \<^verbatim>\<open>Connection\<close> of \<^verbatim>\<open>connection.{h,cpp}\<close>.  \<open>Connection_Props\<close>: its invariant, how its stream evolves,
    and the interface \<open>guarded_machine\<close> of a machine whose every step keeps an invariant and moves forward; it is
    interpreted for a connection (\<open>conn_step\<close>) and for the server (\<open>server_step\<close>).  \<open>Response_Read\<close>: a client that takes
    the responses apart again.
  \<^item> \<open>Fd\<close>: the owner of a descriptor of \<^verbatim>\<open>fd.h\<close> over a table of open descriptors.
  \<^item> \<open>Event_Loop\<close>: \<^verbatim>\<open>EventLoop\<close> of \<^verbatim>\<open>event_loop.{h,cpp}\<close>.  \<open>Event_Loop_Inv\<close>: the invariant
    of the server and that every operation keeps it; \<open>Event_Loop_Props\<close>: operations of the loop and actions of the workers
    in any order, and that an iteration of \<^verbatim>\<open>run()\<close> is a sequence of them; \<open>Event_Loop_Run\<close>: setup, drain, shutdown and the end
    of \<^verbatim>\<open>run()\<close>; \<open>Fd_Balance\<close>: who owns each open descriptor, from the first system call to the destructor.
  \<^item> \<open>Program\<close>: \<^verbatim>\<open>main\<close> of \<^verbatim>\<open>main.cpp\<close>, over an environment that gives the command line and what the system decides.
  \<^item> \<open>Exchange\<close>: parser, connection, pool, handler and serialiser put together: a client writes requests (\<open>render\<close> of
    \<open>Parser_Roundtrip\<close>), the server serves them, the client reads (\<open>read_responses\<close> of \<open>Response_Read\<close>), and finds what the
    specification \<open>answer\<close> says.
  \<^item> \<open>Samples\<close>: the concrete inputs on which the properties below are evaluated.  \<open>Divergences\<close>: evaluated examples of places
    where the code does something else than its comments or its documentation say.

  \<^bold>\<open>How the code is modelled.\<close>  Classes are records with a field per member, operations are functions from the old to the
  new state.  A connection acts on a \<open>world\<close> (sockets, clock, cached date, pool, counters of the loop); the loop owns the
  world and a store of connection objects, addressed by number, so that shared and weak pointers are addresses of that store.
  \<^verbatim>\<open>std::size_t\<close> members of \<^verbatim>\<open>Config\<close> and the accumulators are 64-bit words; sizes of containers are natural numbers.
  What the kernel and the other threads decide is a script or an argument: the results of \<^verbatim>\<open>recv\<close>, \<^verbatim>\<open>send\<close>, \<^verbatim>\<open>accept4\<close>, of the
  system calls of the setup, the events of \<^verbatim>\<open>epoll_wait\<close>, the clock, whether a handler throws, which worker acts next.
  When a script is exhausted, a socket answers \<^verbatim>\<open>EAGAIN\<close>, the clock keeps its last reading and a system call of the loop
  succeeds; the loop of \<^verbatim>\<open>run()\<close> waits for ever once there are no more events, and then has no result (\<open>None\<close>).

  \<^bold>\<open>Loops.\<close>  The loops of the parser, of reading, of writing and of draining are total: each pass consumes input or a
  result of a script.  The loop over \<^verbatim>\<open>pthread_tryjoin_np\<close> gets the list of its polls; \<open>forced_stop_returns\<close> says which
  lists are long enough.  No definition takes fuel.

  \<^bold>\<open>What the properties show.\<close>  A client that writes requests reads the handler's answers to them, in order and nothing else,
  however its bytes are cut and however little the socket takes at a time.  The parser is independent of how input is cut, hands over only well-formed requests within the
  limits, accounts for every byte, reads back what a client writes, and never guesses where a body ends.  A connection keeps
  its invariant, never takes back output, works on one request at a time, applies each result once, and ends when idle; two
  properties state where the code departs from its documentation (end of input, bursts of pipelined requests).  The server has
  exactly one result under way for each request in flight, never exceeds its connection limit, never closes a descriptor
  twice and leaves none open
  (but for the wake descriptor of a worker that a forced shutdown has to abandon), loses no edge and no wake-up, and its shutdown reaches everybody and ends.  Responses cannot be injected into and
  delimit themselves.  The pool is bounded, in order and lossless, and both ways of stopping it end.

  \<^bold>\<open>Not modelled.\<close>  The text of log lines (a label and its arguments are recorded); \<^verbatim>\<open>getopt_long\<close>, \<^verbatim>\<open>strtod\<close>, \<^verbatim>\<open>getnameinfo\<close> and
  \<^verbatim>\<open>inet_pton\<close> (their results are arguments); the memory behaviour of \<^verbatim>\<open>std::string\<close> beyond its capacity; the memory model of
  the mutexes (critical sections are atomic); the state from which an exception that leaves
  the event loop unwinds (\<^verbatim>\<open>main\<close> then reports it and exits with 1); the tests, the benchmark script and the tool configuration.
\<close>

section \<open>A client and the server\<close>



section \<open>The request parser\<close>





text \<open>
  C4. A call of \<^verbatim>\<open>parse\<close> that does not refuse the input keeps the parser well formed and accounts for every
  byte: what is left in the buffer is an end of what was there, and what was taken is counted, in the total
  of the request that is handed over or in the count of the one under construction.
\<close>

theorem parse_keeps_invariant:
  assumes "parser_wf p" and "ps_scan p \<le> length (bb_view b)" and "r = parse p b out"
    and "pr_status r \<in> {KNeedMore, KRequest, KExpect100}"
  shows "parser_wf (pr_parser r) \<and> ps_scan (pr_parser r) \<le> length (bb_view (pr_buf r)) \<and>
    suffix (bb_view (pr_buf r)) (bb_view b) \<and>
    (if pr_status r = KRequest then rq_total_bytes (pr_out r) else ps_consumed (pr_parser r)) + length (bb_view (pr_buf r)) =
      ps_consumed p + length (bb_view b)"
  using parse_return_ok [of p b out] assms by (auto simp: goes_on_def return_ok_def Let_def suffix_drop split: if_splits)

theorem parse_keeps_invariant_witness:
  "let r = parse (parser_init sample_limits) (buf_of sample_input) request_init
   in parser_wf (pr_parser r) \<and> suffix (bb_view (pr_buf r)) sample_input"
proof -
  have "pr_status (parse (parser_init sample_limits) (buf_of sample_input) request_init) = KRequest" by code_simp
  then show ?thesis
    using parse_keeps_invariant [of "parser_init sample_limits" "buf_of sample_input" _ request_init]
    by (simp add: parser_wf_init Let_def)
qed



text \<open>
  C6. The end of a body is never ambiguous.  If the end of the header block is accepted, there is no body, or one
  \<^verbatim>\<open>Content-Length\<close> field with one plain decimal number within the limit and no \<^verbatim>\<open>Transfer-Encoding\<close>, or one
  \<^verbatim>\<open>Transfer-Encoding\<close> field that is exactly \<^verbatim>\<open>chunked\<close>, on HTTP/1.1, and no \<^verbatim>\<open>Content-Length\<close>; and the parser goes on
  to read the body that way.
\<close>

theorem framing_unambiguous:
  assumes "finish_headers p = (oc, p', err)" and "oc \<noteq> KError"
  shows "framing (ps_cur p) (max_body_bytes (ps_limits p)) oc p'"
  using finish_headers_framing [OF assms] .

theorem framing_unambiguous_witness:
  "let p = (parser_init sample_limits)\<lparr>ps_cur := request_init\<lparr>rq_headers := [\<lparr>hdr_name = ''content-length'', hdr_value = ''7''\<rparr>]\<rparr>\<rparr>
   in framing (ps_cur p) 64 KBodyPending (fst (snd (finish_headers p)))"
proof -
  let ?p = "(parser_init sample_limits)\<lparr>ps_cur := request_init\<lparr>rq_headers := [\<lparr>hdr_name = ''content-length'', hdr_value = ''7''\<rparr>]\<rparr>\<rparr>"
  have "fst (finish_headers ?p) = KBodyPending" by code_simp
  then have f: "finish_headers ?p = (KBodyPending, fst (snd (finish_headers ?p)), snd (snd (finish_headers ?p)))"
    by (metis prod.collapse)
  have "max_body_bytes (ps_limits ?p) = 64" by (simp add: parser_init_def sample_limits_def)
  with framing_unambiguous [OF f] show ?thesis by (simp add: Let_def)
qed

section \<open>The connection\<close>

text \<open>
  C7. A connection from its construction, through any sequence of events: its parser is well formed for the
  configured limits as long as it may still parse, and its input buffer never holds more than the configured
  request size and one read.
\<close>

theorem connection_invariant:
  "case fold (conn_step oob cfg) es (connection_init self fd cid peer cfg now, w) of (c, w') \<Rightarrow>
     conn_inv cfg c \<and> length (bb_view (cn_in c)) \<le> unat (cf_max_request_bytes cfg) + 16 * 1024"
proof -
  have "case fold (conn_step oob cfg) es (connection_init self fd cid peer cfg now, w) of (c, w') \<Rightarrow> conn_inv cfg c"
    using cm.ok_run [of cfg "(connection_init self fd cid peer cfg now, w)" oob es] by (simp add: conn_inv_init)
  then show ?thesis by (auto simp: conn_inv_def recv_buf_size_def)
qed

text \<open>
  C8. Whatever happens to a connection, it keeps its identity, touches no other socket, never takes back a
  byte that was sent or, while it lives, one that is queued, and is never revived.
\<close>

theorem connection_stream_grows:
  "case fold (conn_step oob cfg) es (connection_init self fd cid peer cfg now, w) of (c, w1) \<Rightarrow>
     case fold (conn_step oob cfg) fs (c, w1) of (c', w2) \<Rightarrow> evolves c w1 c' w2"
  using cm.forward_split [of cfg "(connection_init self fd cid peer cfg now, w)" oob es fs]
  by (simp add: conn_inv_init split: prod.splits)

text \<open>
  C9. At most one request of a connection is being worked on.  In any state of a connection, an event leaves
  the pool alone, or it puts exactly one job at the end of the queue: only when none was in flight, under the next
  sequence number, for a request that is well formed and within the limits.
\<close>

theorem one_request_in_flight:
  "case fold (conn_step oob cfg) es (connection_init self fd cid peer cfg now, w) of (c, w1) \<Rightarrow>
     case conn_step oob cfg e (c, w1) of (c', w2) \<Rightarrow>
       (case e of WorkerResult res seq \<Rightarrow> w_pool w2 = w_pool w1 | _ \<Rightarrow> hands_over cfg c w1 c' w2)"
proof -
  obtain c w1 where r: "fold (conn_step oob cfg) es (connection_init self fd cid peer cfg now, w) = (c, w1)" by fastforce
  obtain c' w2 where s: "conn_step oob cfg e (c, w1) = (c', w2)" by fastforce
  have "conn_inv cfg c"
    using cm.ok_run [of cfg "(connection_init self fd cid peer cfg now, w)" oob es] r by (simp add: conn_inv_init)
  from conn_step_hands_over [OF this s] on_worker_result_flight [of _ _ c w1 c' w2] s show ?thesis
    unfolding r by (cases e) auto
qed

text \<open>
  C10. A result that a connection is waiting for is appended to its stream exactly once: the bytes of the
  response follow everything sent or queued before, and the same result delivered again changes nothing.
\<close>

theorem result_appended_once:
  assumes "conn_inv cfg c" and "cn_alive c" and "cn_in_flight c"
    and "on_worker_result res (cn_inflight_seq c) c w = (c', w')" and "cn_alive c'"
  shows "wire c' w' = wire c w @ response_out res c w \<and> on_worker_result res' (cn_inflight_seq c) c' w' = (c', w')"
  using on_worker_result_wire [OF assms] on_worker_result_once [OF assms(4)] by simp

theorem result_appended_once_witness:
  "let c = sample_conn\<lparr>cn_in_flight := True\<rparr>; w = sample_world []; r = on_worker_result response_init 0 c w
   in wire (fst r) (snd r) = wire c w @ response_out response_init c w \<and> on_worker_result response_init 0 (fst r) (snd r) = r"
proof -
  let ?c = "sample_conn\<lparr>cn_in_flight := True\<rparr>" and ?w = "sample_world []"
  have "conn_inv config_init ?c" "cn_alive ?c" "cn_in_flight ?c" "cn_inflight_seq ?c = 0"
    by (simp_all add: sample_conn_ok conn_inv_in_flight)
  moreover have "cn_alive (fst (on_worker_result response_init 0 ?c ?w))" by code_simp
  ultimately show ?thesis
    using result_appended_once [of config_init ?c response_init ?w "fst (on_worker_result response_init 0 ?c ?w)"
        "snd (on_worker_result response_init 0 ?c ?w)" response_init]
    by (simp add: Let_def)
qed

text \<open>
  C11. What is queued reaches the socket: if the socket takes enough bytes, in any portions, \<^verbatim>\<open>flush\<close> sends
  everything, in order, and leaves nothing queued.
\<close>

theorem flush_sends_all:
  assumes "sk_send (w_socks w (cn_fd c)) = map SendRoom ns @ rest" and "\<forall>n \<in> set ns. 0 < n"
    and "length (bb_view (cn_out c)) \<le> sum_list ns" and "cn_alive c"
  shows "case flush c w of (c', w') \<Rightarrow>
    bb_view (cn_out c') = [] \<and> cn_alive c' \<and> sent c' w' = sent c w @ bb_view (cn_out c)"
  using flush_all_sent [OF assms] by (simp add: case_prod_unfold)

theorem flush_sends_all_witness:
  "let c = sample_conn\<lparr>cn_out := buf_of ''hello''\<rparr>;
       w = (sample_world [])\<lparr>w_socks := (\<lambda>_. \<lparr>sk_recv = [], sk_send = [SendRoom 2, SendRoom 4], sk_sent = []\<rparr>)\<rparr>
   in case flush c w of (c', w') \<Rightarrow> bb_view (cn_out c') = [] \<and> cn_alive c' \<and> sent c' w' = sent c w @ ''hello''"
  using flush_sends_all [of "(sample_world [])\<lparr>w_socks := (\<lambda>_. \<lparr>sk_recv = [], sk_send = [SendRoom 2, SendRoom 4], sk_sent = []\<rparr>)\<rparr>"
      "sample_conn\<lparr>cn_out := buf_of ''hello''\<rparr>" "[2, 4]" "[]"]
  by (simp add: Let_def sample_conn_def connection_init_def)



text \<open>
  C13. After the end of the input a connection hands over no further request, whatever happens, even when
  complete requests are still in its buffer.
\<close>

theorem nothing_after_end_of_input:
  assumes "cn_peer_eof c"
  shows "w_pool (snd (fold (conn_step oob cfg) es (c, w))) = w_pool w"
  using conn_run_eof [of "(c, w)" oob cfg es] assms by simp

theorem nothing_after_end_of_input_witness:
  "let c = sample_conn\<lparr>cn_peer_eof := True, cn_in := buf_of (''GET / HTTP/1.1'' @ CRLF @ CRLF)\<rparr>; w = sample_world []
   in pr_status (parse (cn_parser c) (cn_in c) request_init) = KRequest \<and>
      w_pool (snd (fold (conn_step sample_oob config_init) [Readable, Writable, Readable] (c, w))) = w_pool w"
proof -
  let ?c = "sample_conn\<lparr>cn_peer_eof := True, cn_in := buf_of (''GET / HTTP/1.1'' @ CRLF @ CRLF)\<rparr>"
  have "pr_status (parse (cn_parser ?c) (cn_in ?c) request_init) = KRequest" by code_simp
  then show ?thesis
    using nothing_after_end_of_input [of ?c sample_oob config_init "[Readable, Writable, Readable]" "sample_world []"]
    by (simp only: Let_def simp_thms) simp
qed

text \<open>
  C14. The size limit is applied to what is buffered, not to one request: bytes that arrive beyond the
  configured request size are answered 413 and end the connection without being parsed, even if they are
  several complete requests each of which is within the limit.
\<close>

theorem burst_beyond_limit_refused:
  assumes "conn_inv cfg c" and "want_read cfg c" and "sk_recv (w_socks w (cn_fd c)) = RecvBytes bs # es"
    and "length bs \<le> 16 * 1024"
    and "ps_consumed (cn_parser c) + length (bb_view (cn_in c)) + length bs > unat (cf_max_request_bytes cfg)"
    and "on_readable cfg c w = (c', w')"
  shows "cn_close_after c' \<and> w_pool w' = w_pool w \<and>
    (cn_alive c' \<longrightarrow> wire c' w' = wire c w @ response_out (error_out 413 ''request exceeds the configured limit'' c) c w)"
  using burst_refused [of cfg c w bs es c' w'] assms by (simp add: recv_buf_size_def)

theorem burst_beyond_limit_refused_witness:
  "let c = connection_init 0 7 1 ''peer'' small_config 0; w = sample_world [RecvBytes two_requests];
       r = on_readable small_config c w
   in cn_close_after (fst r) \<and> w_pool (snd r) = w_pool w"
proof -
  let ?c = "connection_init 0 7 1 ''peer'' small_config 0" and ?w = "sample_world [RecvBytes two_requests]"
  have len: "length two_requests = 36" by (simp add: two_requests_def)
  have max: "unat (cf_max_request_bytes small_config) = 20" by (simp add: small_config_def)
  have "want_read small_config ?c" by code_simp
  moreover have "sk_recv (w_socks ?w (cn_fd ?c)) = [RecvBytes two_requests]" by (simp add: sample_world_def sample_sock_def)
  moreover have "ps_consumed (cn_parser ?c) + length (bb_view (cn_in ?c)) + length two_requests > unat (cf_max_request_bytes small_config)"
    by (simp add: len max)
  ultimately show ?thesis
    using burst_beyond_limit_refused [of small_config ?c ?w two_requests "[]" "fst (on_readable small_config ?c ?w)"
        "snd (on_readable small_config ?c ?w)"] conn_inv_init [of small_config 0 7 1 "''peer''" 0]
    by (simp add: Let_def len)
qed

text \<open>
  C15. Whatever the handler does, return or throw, the worker posts one completion for the job's connection,
  identity and sequence number, whose response has the version of the request, no body for \<^verbatim>\<open>HEAD\<close>, and does not
  keep a connection that the client asked to close.
\<close>

theorem worker_response_contract:
  "let cm = run_job cfg throws j; res = cm_response cm; req = jb_req j
   in cm_conn cm = jb_conn j \<and> cm_conn_id cm = jb_cid j \<and> cm_seq cm = jb_seq j \<and>
      rs_req_major res = rq_major req \<and> rs_req_minor res = rq_minor req \<and>
      \<not> (is_head req \<and> rs_send_body res) \<and> \<not> (rs_keep_alive res \<and> \<not> rq_keep_alive req) \<and>
      (if throws then rs_status res = 500 else rs_status res \<in> {200, 204, 400, 404, 405, 500})"
  using handle_request_ok [of "jb_req j" cfg]
  by (auto simp: run_job_def Let_def handled_ok_def make_error_response_def)

section \<open>The server\<close>

text \<open>
  C16. Every request that is being worked on has exactly one result under way.  From a server that has been set
  up, through any interleaving of the operations of the loop and the actions of the workers: for a connection that
  is alive, the jobs that are queued or running and the completions that are not yet delivered contain exactly
  the request in flight, once, or nothing if none is in flight.
\<close>

theorem every_request_has_one_result:
  assumes "starting l0" and "l = fold (server_step oob) ops l0"
    and "(fd, oid) \<in> set (lp_conns l)" and "cn_alive (lp_objs l oid)"
  shows "filter_mset (\<lambda>t. fst t = oid) (tickets l) =
    (if cn_in_flight (lp_objs l oid) then {#(oid, cn_id (lp_objs l oid), cn_inflight_seq (lp_objs l oid))#} else {#})"
proof -
  have inv: "loop_inv [] {#} l" unfolding assms(2) by (rule sm.ok_run) (use assms(1) in \<open>simp add: starting_def\<close>)
  have h: "held [] l oid" using assms(3) by (force simp: held_def live_def)
  with inv assms(4) loop_invD(2) [OF inv h] show ?thesis by (simp add: loop_inv_def ticket_inv_def flight_def)
qed

theorem every_request_has_one_result_witness:
  "filter_mset (\<lambda>t. fst t = 0) (tickets sample_accepted) =
    (if cn_in_flight (lp_objs sample_accepted 0)
     then {#(0, cn_id (lp_objs sample_accepted 0), cn_inflight_seq (lp_objs sample_accepted 0))#} else {#})"
  using every_request_has_one_result [OF sample_server_starting sample_accepted_def, of 6 0] sample_accepted_conns by simp

text \<open>
  C17. In every state such a server reaches: it has at most \<^verbatim>\<open>max_connections\<close> connections, each under its own
  descriptor, which is open and belongs to no other connection and to none of the loop's own descriptors; the mask
  the kernel has registered for it is the mask the loop has recorded; and \<^verbatim>\<open>close\<close> was never called on a
  descriptor that was not open.
\<close>

theorem server_invariant:
  assumes "starting l0" and "l = fold (server_step oob) ops l0"
  shows "length (lp_conns l) \<le> unat (cf_max_connections (lp_cfg l)) \<and> distinct (map fst (lp_conns l)) \<and>
    distinct (map snd (lp_conns l)) \<and> \<not> ft_bad_close (lp_fds l) \<and>
    list_all (\<lambda>(fd, oid). cn_fd (lp_objs l oid) = fd \<and> fd \<in> set (ft_open (lp_fds l)) \<and>
      fd \<notin> {lp_epfd l, lp_listen l, lp_wake l, lp_sig l} \<and>
      lp_epoll l fd = Some (cn_applied_mask (lp_objs l oid)) \<and> conn_inv (lp_cfg l) (lp_objs l oid)) (lp_conns l)"
proof -
  have inv: "loop_inv [] {#} l" unfolding assms(2) by (rule sm.ok_run) (use assms(1) in \<open>simp add: starting_def\<close>)
  have st: "store_inv [] l" using inv by (simp add: loop_inv_def)
  have own: "obj_ok l oid" if "(fd, oid) \<in> set (lp_conns l)" for fd oid
    by (rule loop_invD [OF inv]) (use that in \<open>force simp: held_def live_def\<close>)
  have "fst e = cn_fd (lp_objs l (snd e))" if "e \<in> set (lp_conns l)" for e using st that by (simp add: store_inv_def)
  then have "map fst (lp_conns l) = map (\<lambda>oid. cn_fd (lp_objs l oid)) (map snd (lp_conns l))" by simp
  moreover have "distinct (map fst (lp_conns l))" using st by (simp add: store_inv_def)
  ultimately have "distinct (map (\<lambda>oid. cn_fd (lp_objs l oid)) (map snd (lp_conns l)))" by argo
  then have "distinct (map snd (lp_conns l))" by (rule iffD1 [OF distinct_map, THEN conjunct1])
  with st own show ?thesis
    by (fastforce simp: store_inv_def obj_ok_def Let_def members_def list_all_iff)
qed

theorem server_invariant_witness:
  "length (lp_conns sample_accepted) \<le> unat (cf_max_connections (lp_cfg sample_accepted)) \<and>
   lp_epoll sample_accepted 6 = Some (cn_applied_mask (lp_objs sample_accepted 0)) \<and> \<not> ft_bad_close (lp_fds sample_accepted)"
  using server_invariant [OF sample_server_starting sample_accepted_def] sample_accepted_conns by simp





text \<open>
  C20. A server that drains keeps draining and admits nobody: whatever happens, the connections it has later are
  connections it has now.
\<close>

theorem draining_admits_nobody:
  assumes "loop_inv [] {#} l" and "lp_draining l"
  shows "lp_draining (fold (server_step oob) ops l) \<and>
    set (lp_conns (fold (server_step oob) ops l)) \<subseteq> set (lp_conns l)"
  using sm.forward_run [OF assms(1), of oob ops] assms(2) by (simp add: moves_def)

theorem draining_admits_nobody_witness:
  "lp_conns (fold (server_step sample_oob) [OpEvent (5, EPOLLIN)] (sample_server\<lparr>lp_draining := True\<rparr>)) = []"
proof -
  have "starting (sample_server\<lparr>lp_draining := True\<rparr>)"
    using sample_server_starting starting_view [of "sample_server\<lparr>lp_draining := True\<rparr>" sample_server] by simp
  then have "loop_inv [] {#} (sample_server\<lparr>lp_draining := True\<rparr>)" "lp_conns sample_server = []"
    by (simp_all add: starting_def)
  with draining_admits_nobody [of "sample_server\<lparr>lp_draining := True\<rparr>" sample_oob "[OpEvent (5, EPOLLIN)]"] show ?thesis by simp
qed

text \<open>
  C21. When a shutdown has been requested, \<^verbatim>\<open>maybe_begin_drain\<close> tells every connection: from then on none of
  them wants to read, so none takes a further request.
\<close>

theorem drain_reaches_every_connection:
  assumes "lp_shutdown_requested l" and "\<not> lp_draining l" and "(fd, oid) \<in> set (lp_conns l)"
  shows "lp_draining (maybe_begin_drain oob l) \<and> (fd, oid) \<in> set (lp_conns (maybe_begin_drain oob l)) \<and>
    \<not> want_read (lp_cfg l) (lp_objs (maybe_begin_drain oob l) oid)"
  using maybe_begin_drain_all [OF assms(1,2), of oob] assms(3) by (auto simp: want_read_def)

theorem drain_reaches_every_connection_witness:
  "\<not> want_read (lp_cfg sample_accepted)
      (lp_objs (maybe_begin_drain sample_oob (sample_accepted\<lparr>lp_shutdown_requested := True, lp_draining := False\<rparr>)) 0)"
  using drain_reaches_every_connection [of "sample_accepted\<lparr>lp_shutdown_requested := True, lp_draining := False\<rparr>" 6 0 sample_oob]
    sample_accepted_conns by simp

text \<open>
  C22. A shutdown ends: once the loop drains, a second signal or the end of the shutdown budget makes the next
  check end the loop, with every connection closed.
\<close>

theorem forced_shutdown_ends:
  assumes "lp_draining l" and "lp_second_signal l \<or> fst (loop_now l) \<ge> lp_drain_deadline l"
  shows "fst (shutdown_complete l) \<and> lp_conns (snd (shutdown_complete l)) = []"
  by (rule shutdown_forced [OF assms])

theorem forced_shutdown_ends_witness:
  "lp_conns (snd (shutdown_complete (sample_accepted\<lparr>lp_draining := True, lp_second_signal := True\<rparr>))) = []"
  using forced_shutdown_ends [of "sample_accepted\<lparr>lp_draining := True, lp_second_signal := True\<rparr>"] by simp

text \<open>
  C23. No edge is lost: when a connection begins to read again and the kernel accepts the new interest, the mask that is
  registered is the one the connection wants, and the connection is put on the list of those to be scanned,
  because what arrived in the meantime will not be announced.
\<close>

theorem reading_again_is_rescanned:
  assumes "cn_alive (lp_objs l oid)" and "fst (sys_result l) = 0"
    and "want_read (lp_cfg l) (lp_objs l oid)" and "and (cn_applied_mask (lp_objs l oid)) EPOLLIN = 0"
  shows "oid \<in> set (lp_rescan (set_interest oid l)) \<and>
    lp_epoll (set_interest oid l) (cn_fd (lp_objs l oid)) = Some (interest_mask (lp_cfg l) (lp_objs l oid)) \<and>
    cn_applied_mask (lp_objs (set_interest oid l) oid) = interest_mask (lp_cfg l) (lp_objs l oid)"
  using set_interest_rescans [OF assms] .

theorem reading_again_is_rescanned_witness:
  "3 \<in> set (lp_rescan (set_interest 3 sample_kernel))"
proof -
  have "want_read (lp_cfg sample_kernel) (lp_objs sample_kernel 3)" "fst (sys_result sample_kernel) = 0" by code_simp+
  then show ?thesis
    using reading_again_is_rescanned [of sample_kernel 3]
    by (simp add: sample_kernel_def sample_conn_def connection_init_def)
qed

text \<open>
  C24. A completion that a worker posts is the last of the queue, and the loop is woken: however often the write to
  the wake descriptor is interrupted, its counter is not zero afterwards, so the level-triggered descriptor is ready.
\<close>

theorem posted_completion_wakes:
  assumes "set (lp_wake_errs l) \<subseteq> {0, EINTR}"
  shows "lp_completions (post_completion cm l) = lp_completions l @ [cm] \<and> lp_counter (post_completion cm l) \<noteq> 0"
proof -
  let ?l = "l\<lparr>lp_completions := lp_completions l @ [cm]\<rparr>"
  have "loop_view (post_completion cm l) = loop_view ?l" by (simp add: post_completion_def wake_def)
  moreover have "lp_counter (post_completion cm l) \<noteq> 0"
    using wake_loop_counts [OF assms] by (simp add: post_completion_def wake_def)
  ultimately show ?thesis by (simp add: loop_view_def)
qed

theorem posted_completion_wakes_witness:
  "lp_counter (post_completion (run_job config_init True \<lparr>jb_conn = 0, jb_cid = 1, jb_seq = 1, jb_req = request_init\<rparr>)
     (sample_kernel\<lparr>lp_wake_errs := [4, 4]\<rparr>)) \<noteq> 0"
  using posted_completion_wakes [of "sample_kernel\<lparr>lp_wake_errs := [4, 4]\<rparr>"] by (simp add: EINTR_def)


section \<open>Messages\<close>

text \<open>
  C26. Responses delimit themselves.  The responses of any jobs, whatever the handler does, serialised one after
  another and followed by anything: a client that goes by the status, the request method and \<^verbatim>\<open>Content-Length\<close> takes them
  apart into exactly the statuses and bodies that were produced.
\<close>

theorem responses_read_back:
  assumes "list_all (\<lambda>(date, throws, j). clean_line date) js"
  shows "read_responses (map (\<lambda>(date, throws, j). is_head (jb_req j)) js)
      (concat (map (\<lambda>(date, throws, j). serialize_response date (cm_response (run_job cfg throws j))) js) @ rest) =
    Some (map (\<lambda>(date, throws, j). let res = cm_response (run_job cfg throws j)
      in (nat (rs_status res), if rs_send_body res then rs_body res else [])) js, rest)"
proof -
  let ?rs = "map (\<lambda>(date, throws, j). (is_head (jb_req j), date, cm_response (run_job cfg throws j))) js"
  have "list_all (\<lambda>(h, date, res). framed h res \<and> clean_line date) ?rs"
    using assms run_job_framed by (induction js) auto
  from read_responses_serialized [OF this, of rest] show ?thesis by (simp add: comp_def case_prod_unfold Let_def)
qed

theorem responses_read_back_witness:
  "let j = \<lparr>jb_conn = 0, jb_cid = 1, jb_seq = 1, jb_req = request_init\<lparr>rq_target := ''/health'', rq_method := Get\<rparr>\<rparr>;
       res = cm_response (run_job config_init False j)
   in read_responses [False] (serialize_response ''now'' res @ ''HTTP'') = Some ([(200, ''ok'' @ [LF])], ''HTTP'')"
proof -
  let ?j = "\<lparr>jb_conn = 0, jb_cid = 1, jb_seq = 1, jb_req = request_init\<lparr>rq_target := ''/health'', rq_method := Get\<rparr>\<rparr>"
  have "rs_status (cm_response (run_job config_init False ?j)) = 200"
    "rs_body (cm_response (run_job config_init False ?j)) = ''ok'' @ [LF]"
    "rs_send_body (cm_response (run_job config_init False ?j))" "\<not> is_head (jb_req ?j)"
    by code_simp+
  moreover have "clean_line ''now''" by (simp add: is_ctl_def byte_of_def)
  ultimately show ?thesis
    using responses_read_back [of "[(''now'', False, ?j)]" config_init "''HTTP''"] by (simp add: Let_def)
qed

text \<open>
  C27. No header injection: whatever a handler puts into a response, what is sent is a sequence of lines without control
  characters, each ended by CRLF, then an empty line, then the body and nothing else.
\<close>

theorem response_not_injectable:
  assumes "clean_line (dc_text dc)" and "http_date_now now dc = (date, dc')"
  shows "clean_line (dc_text dc') \<and> (\<exists>ls. serialize_response date res = wire_lines ls @ CRLF @ (if rs_send_body res then rs_body res else []) \<and>
    list_all clean_line ls \<and> length ls \<le> length (rs_headers res) + 6)"
proof -
  have "clean_line ''Thu, 01 Jan 1970 00:00:00 GMT''" by (simp add: is_ctl_def byte_of_def)
  with assms have "clean_line date \<and> clean_line (dc_text dc')"
    by (auto simp: http_date_now_def Let_def format_date_clean split: if_splits)
  moreover have "length (response_lines date res) \<le> length (rs_headers res) + 6" by (simp add: response_lines_def)
  ultimately show ?thesis
    using serialize_response_lines [of date res] response_lines_clean [of date res] by blast
qed

theorem response_not_injectable_witness:
  "\<exists>ls. serialize_response (format_date 0)
      (rs_set ''X'' (''a'' @ CRLF @ ''Set-Cookie: b'') response_init) = wire_lines ls @ CRLF \<and> list_all clean_line ls \<and> length ls \<le> 7"
proof -
  have f: "length (format_date 0) < 64" by code_simp
  then have "http_date_now 0 date_cache_init = (format_date 0, \<lparr>dc_cached = 0, dc_text = format_date 0\<rparr>)"
    by (simp add: http_date_now_def date_cache_init_def Let_def)
  from response_not_injectable [OF _ this, of "rs_set ''X'' (''a'' @ CRLF @ ''Set-Cookie: b'') response_init"] show ?thesis
    by (simp add: date_cache_init_def response_init_def rs_set_def)
qed

text \<open>
  C28. The date that goes into a response is the current one, whatever is cached: any sequence of calls of
  \<^verbatim>\<open>http_date_now\<close> gives the formatted dates of the times of the calls.
\<close>

theorem date_is_current:
  assumes "\<forall>t \<in> set ts. length (format_date t) < 64"
  shows "fst (fold (\<lambda>t (ds, dc). case http_date_now t dc of (d, dc') \<Rightarrow> (ds @ [d], dc')) ts ([], date_cache_init)) = map format_date ts"
proof -
  have "\<exists>dc'. fold (\<lambda>t (ds, dc). case http_date_now t dc of (d, dc') \<Rightarrow> (ds @ [d], dc')) ts (ds, dc) = (ds @ map format_date ts, dc')"
    if "date_cache_ok dc" for ds dc
    using assms that
  proof (induction ts arbitrary: ds dc)
    case (Cons t ts)
    obtain d dc1 where d: "http_date_now t dc = (d, dc1)" by fastforce
    with http_date_now_correct [OF Cons.prems(2), of t d dc1] Cons.prems(1) have "d = format_date t" "date_cache_ok dc1" by auto
    with d Cons.IH [of dc1 "ds @ [d]"] Cons.prems(1) show ?case by simp
  qed simp
  from this [of date_cache_init "[]"] show ?thesis by (auto simp: date_cache_ok_def date_cache_init_def)
qed

theorem date_is_current_witness:
  "fst (fold (\<lambda>t (ds, dc). case http_date_now t dc of (d, dc') \<Rightarrow> (ds @ [d], dc')) [784111777, 784111777] ([], date_cache_init)) =
     [''Sun, 06 Nov 1994 08:49:37 GMT'', ''Sun, 06 Nov 1994 08:49:37 GMT'']"
  using date_is_current [of "[784111777, 784111777]"] by (simp add: example_date)



text \<open>
  C30. \<^verbatim>\<open>/big/n\<close> answers with \<open>n\<close> bytes, or with as many as \<^verbatim>\<open>--max-response\<close> allows, however large \<open>n\<close> is: the
  number is read without overflow.
\<close>

theorem big_is_capped:
  assumes "rq_target req = ''/big/'' @ show_nat n" and "rq_method req = Get"
  shows "handle_request req cfg =
    (text_response req 200 (replicate (min (min n (2 ^ 40)) (unat (cf_max_response_bytes cfg))) CHR ''x'') kTextPlain, 0)"
proof -
  let ?t = "''/big/'' @ show_nat n"
  have all: "list_all is_digit (show_nat n)" using set_show_nat [of _ n] by (auto simp: list_all_iff is_digit_def)
  then have q: "CHR ''?'' \<notin> set ?t" by (auto simp: list_all_iff is_digit_def byte_of_def)
  then have "sv_find CHR ''?'' 0 ?t = None" unfolding sv_find_None drop_0 .
  then have "path_of ?t = ?t" by (simp only: path_of_def option.case)
  have dw: "dropWhile (\<lambda>c. \<not> is_digit c) (CHR ''/'' # show_nat n) = show_nat n"
    using all by (cases "show_nat n") (simp_all add: is_digit_def byte_of_def)
  have tw: "takeWhile is_digit (show_nat n) = show_nat n" using all by (simp add: takeWhile_eq_all_conv list_all_iff)
  have e: "extract_number ?t ''/big'' = Some (extract_loop 0 (show_nat n))"
    by (simp add: extract_number_def dw tw Let_def del: dropWhile.simps)
  have "unat (min a b) = min (unat a) (unat b)" for a b :: u64 by (simp add: min_def word_le_nat_alt)
  with extract_loop_exact [OF all numval_show_nat] e \<open>path_of ?t = ?t\<close> assms show ?thesis
    by (simp add: handle_request_def is_star_target_def handle_get_head_def)
qed

theorem big_is_capped_witness:
  "let req = request_init\<lparr>rq_target := ''/big/'' @ show_nat (2 ^ 70), rq_method := Get\<rparr>; cfg = config_init\<lparr>cf_max_response_bytes := 5\<rparr>
   in handle_request req cfg = (text_response req 200 ''xxxxx'' kTextPlain, 0)"
proof -
  have "replicate 5 CHR ''x'' = ''xxxxx''" by (simp add: numeral_eq_Suc)
  then show ?thesis
    using big_is_capped [of "request_init\<lparr>rq_target := ''/big/'' @ show_nat (2 ^ 70), rq_method := Get\<rparr>" "2 ^ 70"
        "config_init\<lparr>cf_max_response_bytes := 5\<rparr>"] by (simp add: Let_def)
qed

text \<open>
  C31. What a client sent can be shown in JSON: the escaped text is printable ASCII, and reading the escapes back
  gives the bytes.
\<close>

theorem json_escape_reads_back:
  "json_unescape (json_escape s) = Some s \<and> list_all printable (json_escape s)"
  using json_unescape_escape json_escape_printable by simp

text \<open>
  C32. A \<^verbatim>\<open>Content-Length\<close> is accepted exactly when it is the decimal notation of a number up to \<open>2 ^ 52\<close>, with no sign,
  no white space and no leading zero, and the value is that number: the 64-bit accumulator never wraps.
\<close>

theorem content_length_exact:
  "parse_content_length s = Some v \<longleftrightarrow> s = show_nat (unat v) \<and> unat v \<le> 2 ^ 52"
  using parse_content_length_sound [of s v] parse_content_length_complete [of "unat v"] by auto

text \<open>
  C33. The index loops of \<^verbatim>\<open>split_list\<close> and \<^verbatim>\<open>trim_ows\<close> compute what they are meant to: the parts between the commas, which
  put together again are the value, each without the white space at its ends.
\<close>

theorem split_list_reference:
  "split_list v = map trim_ows (split_on CHR '','' v) \<and> join_with CHR '','' (split_on CHR '','' v) = v \<and>
   list_all (\<lambda>w. CHR '','' \<notin> set w) (split_on CHR '','' v) \<and>
   trim_ows s = rev (dropWhile is_ows (rev (dropWhile is_ows s)))"
  using split_on_no_sep by (auto simp: split_list_eq join_split_on trim_ows_eq list_all_iff)

section \<open>The buffer\<close>

text \<open>
  C34. \<^verbatim>\<open>ByteBuf\<close> is a queue of bytes: for any sequence of appends and of consumes of no more than there is, the bytes it
  shows are those of the abstract queue, whatever it compacts.
\<close>

theorem byte_buf_refines_queue:
  assumes "bb_wf b" and "queue_spec ops (bb_view b) = Some q"
  shows "bb_view (buf_run bb_append bb_consume ops b) = q \<and> bb_wf (buf_run bb_append bb_consume ops b)"
  by (rule bb.run_refines [OF assms])

theorem byte_buf_refines_queue_witness:
  "bb_view (buf_run bb_append bb_consume [Append ''abc'', Consume 2, Append ''de'', Consume 1] bytebuf_init) = ''de''"
  using byte_buf_refines_queue [of bytebuf_init "[Append ''abc'', Consume 2, Append ''de'', Consume 1]" "''de''"]
  by (simp add: bytebuf_init_def bb_view_def bb_wf_def)

section \<open>The command line\<close>



text \<open>
  C36. A number on the command line is read as it was written, also after white space and a sign; but a minus sign is not
  refused: it negates modulo \<open>2 ^ 64\<close>, so \<^verbatim>\<open>-1\<close> is read as the largest size.
\<close>

theorem size_argument_read:
  assumes "n < 2 ^ 64" and "sign = [] \<or> sign = ''+'' \<or> sign = ''-''" and "list_all is_space ws"
  shows "parse_size (Some (ws @ sign @ show_nat n)) = Some (if sign = ''-'' then - of_nat n else of_nat n)"
  by (rule parse_size_signed [OF assms])

theorem size_argument_read_witness: "parse_size (Some ''-1'') = Some (2 ^ 64 - 1)"
proof -
  have "show_nat 1 = ''1''" by code_simp
  moreover have "(- 1 :: u64) = 2 ^ 64 - 1" by simp
  ultimately show ?thesis using size_argument_read [of 1 "''-''" "[]"] by simp
qed

section \<open>The worker pool\<close>

text \<open>
  C37. However the threads interleave, the queue never holds more than \<^verbatim>\<open>max_queue\<close> jobs, jobs are started in the order in
  which they were accepted, each once, and what has been started is running or finished.
\<close>

theorem pool_bounded_in_order:
  assumes "pool_reachable (sys_init threads max_queue created) s"
  shows "length (tp_queue (sys_pool s)) \<le> max 1 max_queue \<and> sys_accepted s = sys_started s @ tp_queue (sys_pool s) \<and>
    mset (sys_started s) = mset (sys_finished s) + running_jobs (sys_workers s)"
proof -
  have "tp_max_queue (sys_pool s) = max 1 max_queue"
    using reachable_capacity [OF assms] by (auto simp: sys_init_def pool_init_def Let_def)
  with pool_inv_reachable [OF assms] show ?thesis by (simp add: pool_inv_def work_inv_def)
qed

theorem pool_bounded_in_order_witness:
  "let s0 = sys_init 1 2 (\<lambda>_. True); s = s0\<lparr>sys_pool := (sys_pool s0)\<lparr>tp_queue := [''job'']\<rparr>, sys_notify := 1, sys_accepted := [''job'']\<rparr>
   in length (tp_queue (sys_pool s)) \<le> 2 \<and> sys_accepted s = sys_started s @ tp_queue (sys_pool s)"
proof -
  let ?s0 = "sys_init 1 2 (\<lambda>_. True) :: bytes pool_sys"
  let ?p = "(sys_pool ?s0)\<lparr>tp_queue := [''job'']\<rparr>"
  have "try_submit (Some ''job'') (sys_pool ?s0) = (True, ?p)" by (simp add: try_submit_def sys_init_def pool_init_def Let_def)
  from pool_reachable.step [OF pool_reachable.start pool_step.submit [OF this]] pool_bounded_in_order show ?thesis
    by (fastforce simp: Let_def sys_init_def)
qed

text \<open>
  C38. Stopping is lossless and ends.  In a pool that is stopping, the workers cannot go on for ever, and when none of them can
  go on, whatever the interleaving was, every worker has left and every accepted job has been finished.
\<close>

theorem pool_stop_lossless:
  assumes "pool_reachable (sys_init threads max_queue created) s" and "tp_stopping (sys_pool s)"
  shows "wfp (\<lambda>s' s. worker_step s s') \<and>
    (\<forall>s'. worker_steps s s' \<and> (\<nexists>s''. worker_step s' s'') \<longrightarrow>
      list_all (\<lambda>w. w = Exited) (sys_workers s') \<and> mset (sys_finished s') = mset (sys_accepted s))"
  using worker_step_wf worker_steps_keeps [OF _ pool_inv_reachable [OF assms(1)]] stopped_at_rest assms(2) by metis

theorem pool_stop_lossless_witness:
  "let s0 = sys_init 1 2 (\<lambda>_. True); s = s0\<lparr>sys_pool := (sys_pool s0)\<lparr>tp_stopping := True, tp_threads := [], tp_joined := True\<rparr>,
         sys_notify_all := True\<rparr>
   in \<forall>s'. worker_steps s s' \<and> (\<nexists>s''. worker_step s' s'') \<longrightarrow> list_all (\<lambda>w. w = Exited) (sys_workers s')"
proof -
  let ?s0 = "sys_init 1 2 (\<lambda>_. True)"
  let ?p = "(sys_pool ?s0)\<lparr>tp_stopping := True, tp_threads := [], tp_joined := True\<rparr>"
  have "stop_section (sys_pool ?s0) = Some (tp_threads (sys_pool ?s0), ?p)"
    by (simp add: stop_section_def sys_init_def pool_init_def Let_def)
  from pool_reachable.step [OF pool_reachable.start pool_step.stop [OF this]] pool_stop_lossless show ?thesis
    by (fastforce simp: Let_def)
qed

text \<open>
  C39. Overload is refused, not queued: of a burst of submissions to a pool that is open, exactly as many as there is room
  for are accepted, the first ones, in order; the others change nothing.
\<close>

theorem burst_of_submissions:
  assumes "\<not> pool_closed p" and "length (tp_queue p) \<le> tp_max_queue p" and "room = tp_max_queue p - length (tp_queue p)"
  shows "\<exists>p'. submit_all (\<lambda>j. try_submit (Some j)) js p =
      (replicate (min (length js) room) True @ replicate (length js - room) False, p') \<and>
    tp_queue p' = tp_queue p @ take room js \<and> length (tp_queue p') \<le> tp_max_queue p'"
  using tp.submit_all_open [OF assms(1,2), of js] assms(3) by blast

theorem burst_of_submissions_witness:
  "fst (submit_all (\<lambda>j. try_submit (Some j)) ''abc'' (pool_init 1 2 (\<lambda>_. True))) = [True, True, False]"
  using burst_of_submissions [of "pool_init 1 2 (\<lambda>_. True)" 2 "''abc''"]
  by (auto simp: pool_closed_def pool_init_def numeral_2_eq_2)

text \<open>
  C40. A forced stop comes back, whatever the workers do: it polls each thread until the thread has ended or the deadline has
  passed, and from then on the pool accepts nothing.
\<close>

theorem forced_stop_returns:
  assumes "\<forall>t \<in> set (tp_threads p). \<exists>(rc, time) \<in> set (polls t). rc \<noteq> EBUSY \<or> time \<ge> now + wait_ms * 1000000"
  shows "(\<exists>all_joined. fst (stop_forced now wait_ms polls p) = Some all_joined) \<and>
    try_submit job (snd (stop_forced now wait_ms polls p)) = (False, snd (stop_forced now wait_ms polls p))"
proof -
  have "\<exists>b. join_all (now + wait_ms * 1000000) (map polls (tp_threads p)) = Some b"
    by (rule join_all_returns) (use assms in auto)
  then show ?thesis by (auto simp: stop_forced_def stop_forced_section_def try_submit_def split: option.split)
qed

theorem forced_stop_returns_witness:
  "\<exists>b. fst (stop_forced 0 250 (\<lambda>t. [(EBUSY, 100000000), (EBUSY, 250000000)]) (pool_init 1 2 (\<lambda>_. True))) = Some b"
proof -
  have "\<forall>t \<in> set (tp_threads (pool_init 1 2 (\<lambda>_. True))).
      \<exists>(rc, time) \<in> set [(EBUSY, 100000000), (EBUSY, 250000000)]. rc \<noteq> EBUSY \<or> time \<ge> (0 :: int) + 250 * 1000000" by simp
  from forced_stop_returns [OF this] show ?thesis by blast
qed

end
